(* ===== verification/Prelude.thy ===== *)
theory Prelude
  imports Main "HOL-Library.Word" "HOL-Library.Sublist"
begin

text \<open>
  The shared vocabulary of the development: outcomes of C code (a fault or a value), byte
  strings and the libc string functions the sources call, C integer conversions, decimal
  printing, and the lemmas about them that every component uses.

  A byte is an Isabelle \<^typ>\<open>char\<close> and a byte string is a \<^typ>\<open>string\<close>. A C string is
  given by its bytes before the terminator; \<open>cstr\<close> cuts a binary buffer at its first zero
  byte, as every libc function that takes a \<open>char *\<close> does.
\<close>

named_theorems cstr_simps \<open>equations of the libc string functions\<close>
named_theorems cint_simps \<open>C integer conversions on values in range\<close>
named_theorems dec_simps \<open>decimal printing\<close>

section \<open>Outcomes\<close>

text \<open>
  What a C function does beside returning: dereference of a null pointer, access outside an
  object, signed overflow, division by zero, a failed \<open>assert\<close> or \<open>serverAssert\<close>, reading memory nobody wrote,
  \<open>serverPanic\<close>, \<open>exit\<close>.
\<close>

datatype fault =
    NullDeref
  | OutOfBounds
  | IntOverflow
  | DivByZero
  | AssertFail
  | UninitRead
  | Panic
  | ProcExit int

type_synonym 'a res = "fault + 'a"

definition rbind :: "'a res \<Rightarrow> ('a \<Rightarrow> 'b res) \<Rightarrow> 'b res" where
  "rbind m f = (case m of Inl e \<Rightarrow> Inl e | Inr x \<Rightarrow> f x)"

definition rassert :: "bool \<Rightarrow> fault \<Rightarrow> unit res" where
  "rassert b e = (if b then Inr () else Inl e)"

lemma rbind_simps [simp]:
  "rbind (Inl e) f = Inl e"
  "rbind (Inr x) f = f x"
  by (simp_all add: rbind_def)

lemma rassert_simps [simp]:
  "rassert True e = Inr ()"
  "rassert False e = Inl e"
  by (simp_all add: rassert_def)

lemma rbind_eq_Inr [simp]: "rbind m f = Inr y \<longleftrightarrow> (\<exists>x. m = Inr x \<and> f x = Inr y)"
  by (cases m) auto

lemma rbind_eq_Inl: "rbind m f = Inl e \<longleftrightarrow> m = Inl e \<or> (\<exists>x. m = Inr x \<and> f x = Inl e)"
  by (cases m) auto

lemma rassert_eq_Inr [simp]: "rassert b e = Inr u \<longleftrightarrow> b"
  by (cases b) auto

lemma rassert_eq_Inl [simp]: "rassert b e = Inl e' \<longleftrightarrow> \<not> b \<and> e' = e"
  by (cases b) auto

lemma rbind_assoc: "rbind (rbind m f) g = rbind m (\<lambda>x. rbind (f x) g)"
  by (cases m) auto

lemma rbind_cong [fundef_cong]:
  "m = m' \<Longrightarrow> (\<And>x. m' = Inr x \<Longrightarrow> f x = g x) \<Longrightarrow> rbind m f = rbind m' g"
  by (cases m') auto

lemma rassert_rbind: "rbind (rassert b e) f = (if b then f () else Inl e)"
  by simp

text \<open>Dereferencing a pointer that may be null, and a fallible step over a list.\<close>

definition deref :: "'a option \<Rightarrow> 'a res" where
  "deref p = (case p of None \<Rightarrow> Inl NullDeref | Some x \<Rightarrow> Inr x)"

fun rmap :: "('a \<Rightarrow> 'b res) \<Rightarrow> 'a list \<Rightarrow> 'b list res" where
  "rmap f [] = Inr []"
| "rmap f (x # xs) = rbind (f x) (\<lambda>y. rbind (rmap f xs) (\<lambda>ys. Inr (y # ys)))"

lemma deref_simps [simp]:
  "deref None = Inl NullDeref"
  "deref (Some x) = Inr x"
  by (simp_all add: deref_def)

lemma rmap_Inr_map: "(\<And>x. x \<in> set xs \<Longrightarrow> f x = Inr (g x)) \<Longrightarrow> rmap f xs = Inr (map g xs)"
  by (induction xs) auto

lemma rmap_cong [fundef_cong]:
  "xs = ys \<Longrightarrow> (\<And>x. x \<in> set ys \<Longrightarrow> f x = g x) \<Longrightarrow> rmap f xs = rmap g ys"
proof (induction ys arbitrary: xs)
  case (Cons y ys)
  then show ?case by simp
qed simp

lemma rmap_ex:
  "(\<And>x. x \<in> set xs \<Longrightarrow> \<exists>y. f x = Inr y \<and> P x y) \<Longrightarrow> \<exists>ys. rmap f xs = Inr ys \<and> list_all2 P xs ys"
proof (induction xs)
  case (Cons x xs)
  obtain y where "f x = Inr y" "P x y" using Cons.prems [of x] by auto
  moreover obtain ys where "rmap f xs = Inr ys" "list_all2 P xs ys" using Cons.IH Cons.prems by auto
  ultimately show ?case by auto
qed simp

section \<open>Bytes and C strings\<close>

abbreviation NUL :: char where "NUL \<equiv> CHR 0x00"
abbreviation CR :: char where "CR \<equiv> CHR 0x0D"
abbreviation LF :: char where "LF \<equiv> CHR 0x0A"

definition crlf :: string where
  "crlf = [CR, LF]"

definition cstr :: "string \<Rightarrow> string" where
  "cstr s = takeWhile (\<lambda>c. c \<noteq> NUL) s"

definition is_cstring :: "string \<Rightarrow> bool" where
  "is_cstring s \<longleftrightarrow> NUL \<notin> set s"

definition byte_val :: "char \<Rightarrow> nat" where
  "byte_val c = of_char c"

text \<open>A plain \<open>char\<close> is signed on the platforms the program is built for.\<close>

definition schar_val :: "char \<Rightarrow> int" where
  "schar_val c = (if byte_val c < 128 then int (byte_val c) else int (byte_val c) - 256)"

definition isspace :: "char \<Rightarrow> bool" where
  "isspace c \<longleftrightarrow> c = CHR '' '' \<or> (9 \<le> byte_val c \<and> byte_val c \<le> 13)"

definition isdigit :: "char \<Rightarrow> bool" where
  "isdigit c \<longleftrightarrow> 48 \<le> byte_val c \<and> byte_val c \<le> 57"

definition isprint :: "char \<Rightarrow> bool" where
  "isprint c \<longleftrightarrow> 32 \<le> byte_val c \<and> byte_val c \<le> 126"

definition tolower :: "char \<Rightarrow> char" where
  "tolower c = (if 65 \<le> byte_val c \<and> byte_val c \<le> 90 then char_of (byte_val c + 32) else c)"

definition toupper :: "char \<Rightarrow> char" where
  "toupper c = (if 97 \<le> byte_val c \<and> byte_val c \<le> 122 then char_of (byte_val c - 32) else c)"

lemma byte_val_less: "byte_val c < 256"
  by (simp add: byte_val_def)

lemma byte_val_inject: "byte_val c = byte_val d \<longleftrightarrow> c = d"
  by (simp add: byte_val_def)

lemma char_of_byte_val [simp]: "char_of (byte_val c) = c"
  by (simp add: byte_val_def)

lemma byte_val_char_of [simp]: "n < 256 \<Longrightarrow> byte_val (char_of n) = n"
  by (simp add: byte_val_def)

lemma cstr_simps_list [cstr_simps, simp]:
  "cstr [] = []"
  "cstr (c # s) = (if c = NUL then [] else c # cstr s)"
  by (simp_all add: cstr_def)

lemma is_cstring_simps [cstr_simps, simp]:
  "is_cstring []"
  "is_cstring (c # s) \<longleftrightarrow> c \<noteq> NUL \<and> is_cstring s"
  "is_cstring (s @ t) \<longleftrightarrow> is_cstring s \<and> is_cstring t"
  by (auto simp: is_cstring_def)

lemma cstr_is_cstring [cstr_simps, simp]: "is_cstring (cstr s)"
  by (induction s) auto

lemma cstr_id [cstr_simps]: "is_cstring s \<Longrightarrow> cstr s = s"
  by (induction s) auto

lemma cstr_append_NUL [cstr_simps]: "is_cstring s \<Longrightarrow> cstr (s @ NUL # t) = s"
  by (induction s) auto

lemma length_cstr_le: "length (cstr s) \<le> length s"
  by (simp add: cstr_def length_takeWhile_le)

lemma is_cstring_take [simp]: "is_cstring s \<Longrightarrow> is_cstring (take n s)"
  by (auto simp: is_cstring_def dest: in_set_takeD)

lemma is_cstring_drop [simp]: "is_cstring s \<Longrightarrow> is_cstring (drop n s)"
  by (auto simp: is_cstring_def dest: in_set_dropD)

lemma is_cstring_concat: "(\<And>s. s \<in> set ss \<Longrightarrow> is_cstring s) \<Longrightarrow> is_cstring (concat ss)"
  by (induction ss) auto

subsection \<open>Searching\<close>

text \<open>\<open>strchr\<close>, \<open>strrchr\<close> and \<open>strstr\<close> return an offset into the string.\<close>

fun strchr :: "string \<Rightarrow> char \<Rightarrow> nat option" where
  "strchr [] c = None"
| "strchr (x # xs) c = (if x = c then Some 0 else map_option Suc (strchr xs c))"

fun strrchr :: "string \<Rightarrow> char \<Rightarrow> nat option" where
  "strrchr [] c = None"
| "strrchr (x # xs) c =
     (case strrchr xs c of
        Some i \<Rightarrow> Some (Suc i)
      | None \<Rightarrow> if x = c then Some 0 else None)"

fun strstr :: "string \<Rightarrow> string \<Rightarrow> nat option" where
  "strstr [] needle = (if needle = [] then Some 0 else None)"
| "strstr (x # xs) needle =
     (if prefix needle (x # xs) then Some 0 else map_option Suc (strstr xs needle))"

definition strncmp_eq :: "string \<Rightarrow> string \<Rightarrow> nat \<Rightarrow> bool" where
  "strncmp_eq a b n \<longleftrightarrow> take n (cstr a) = take n (cstr b)"

definition strcasecmp_eq :: "string \<Rightarrow> string \<Rightarrow> bool" where
  "strcasecmp_eq a b \<longleftrightarrow> map tolower (cstr a) = map tolower (cstr b)"

lemma strchr_None [simp]: "strchr s c = None \<longleftrightarrow> c \<notin> set s"
  by (induction s) auto

lemma strchr_Some:
  "strchr s c = Some i \<Longrightarrow> i < length s \<and> s ! i = c \<and> c \<notin> set (take i s)"
  by (induction s arbitrary: i) (auto split: if_splits)

lemma strchr_append: "c \<notin> set a \<Longrightarrow> strchr (a @ c # b) c = Some (length a)"
  by (induction a) auto

lemma strchr_unique:
  "i < length s \<Longrightarrow> s ! i = c \<Longrightarrow> c \<notin> set (take i s) \<Longrightarrow> strchr s c = Some i"
proof (induction s arbitrary: i)
  case (Cons x s)
  then show ?case by (cases i) auto
qed simp

lemma strrchr_None [simp]: "strrchr s c = None \<longleftrightarrow> c \<notin> set s"
  by (induction s) (auto split: option.splits)

lemma strrchr_Some:
  "strrchr s c = Some i \<Longrightarrow> i < length s \<and> s ! i = c \<and> c \<notin> set (drop (Suc i) s)"
  by (induction s arbitrary: i) (auto split: option.splits if_splits)

lemma strrchr_append: "c \<notin> set b \<Longrightarrow> strrchr (a @ c # b) c = Some (length a)"
  using strrchr_None [of b c] by (induction a) (auto simp del: strrchr_None)

lemma strstr_None: "strstr s needle = None \<longleftrightarrow> \<not> sublist needle s"
proof (induction s)
  case (Cons x s)
  then show ?case by (auto simp: sublist_Cons_right)
qed simp

lemma strstr_Some:
  "strstr s needle = Some i \<Longrightarrow> i + length needle \<le> length s \<and> prefix needle (drop i s)"
proof (induction s arbitrary: i)
  case (Cons x s)
  then show ?case by (auto split: if_splits dest: prefix_length_le)
qed (auto split: if_splits)

lemma strstr_first:
  "strstr s needle = Some i \<Longrightarrow> j < i \<Longrightarrow> \<not> prefix needle (drop j s)"
proof (induction s arbitrary: i j)
  case (Cons x s)
  then show ?case by (cases j) (auto split: if_splits)
qed (auto split: if_splits)

section \<open>Memory accesses\<close>

text \<open>
  Reads and writes of a memory object, given as the list of its bytes; an access outside it is
  a fault. \<open>mem_resize\<close> is what \<open>realloc\<close> leaves: the old bytes as far as they fit, then bytes
  nobody chose (\<open>junk\<close>, a parameter of every definition that allocates).
\<close>

definition rd :: "string \<Rightarrow> nat \<Rightarrow> char res" where
  "rd m i = (if i < length m then Inr (m ! i) else Inl OutOfBounds)"

definition wr :: "string \<Rightarrow> nat \<Rightarrow> char \<Rightarrow> string res" where
  "wr m i c = (if i < length m then Inr (m[i := c]) else Inl OutOfBounds)"

definition rd_bytes :: "string \<Rightarrow> nat \<Rightarrow> nat \<Rightarrow> string res" where
  "rd_bytes m i n = (if i + n \<le> length m then Inr (take n (drop i m)) else Inl OutOfBounds)"

definition wr_bytes :: "string \<Rightarrow> nat \<Rightarrow> string \<Rightarrow> string res" where
  "wr_bytes m i t =
     (if i + length t \<le> length m then Inr (take i m @ t @ drop (i + length t) m)
      else Inl OutOfBounds)"

text \<open>The C string that starts at an offset of an object; running off its end is a fault.\<close>

definition rd_cstr :: "string \<Rightarrow> nat \<Rightarrow> string res" where
  "rd_cstr m i = (if NUL \<in> set (drop i m) then Inr (cstr (drop i m)) else Inl OutOfBounds)"

definition mem_resize :: "(nat \<Rightarrow> char) \<Rightarrow> nat \<Rightarrow> string \<Rightarrow> string" where
  "mem_resize junk n m = take n (m @ map junk [length m..<n])"

lemma length_mem_resize [simp]: "length (mem_resize junk n m) = n"
  by (simp add: mem_resize_def)

lemma take_mem_resize: "k \<le> n \<Longrightarrow> k \<le> length m \<Longrightarrow> take k (mem_resize junk n m) = take k m"
  by (simp add: mem_resize_def min_def)

lemma nth_mem_resize: "k < n \<Longrightarrow> k < length m \<Longrightarrow> mem_resize junk n m ! k = m ! k"
  by (simp add: mem_resize_def nth_append)

lemma rd_cstr_terminated: "is_cstring s \<Longrightarrow> take (Suc (length s)) m = s @ [NUL] \<Longrightarrow> rd_cstr m 0 = Inr s"
proof -
  assume s: "is_cstring s" "take (Suc (length s)) m = s @ [NUL]"
  then have "m = s @ NUL # drop (Suc (length s)) m"
    by (metis append.assoc append_Cons append_Nil append_take_drop_id)
  then obtain r where "m = s @ NUL # r" ..
  with s(1) show ?thesis by (simp add: rd_cstr_def cstr_append_NUL)
qed

lemma wr_bytes_Inr:
  "i + length t \<le> length m \<Longrightarrow> wr_bytes m i t = Inr (take i m @ t @ drop (i + length t) m)"
  by (simp add: wr_bytes_def)

lemma wr_Inr: "i < length m \<Longrightarrow> wr m i c = Inr (m[i := c])"
  by (simp add: wr_def)

lemma rd_bytes_all [simp]: "rd_bytes t 0 (length t) = Inr t"
  by (simp add: rd_bytes_def)

section \<open>C integers\<close>

text \<open>
  Conversion to \<open>int\<close> keeps the low 32 bits in two's complement; signed arithmetic outside the
  range is undefined and is a fault.
\<close>

definition to_int32 :: "int \<Rightarrow> int" where
  "to_int32 n = (n + 2 ^ 31) mod 2 ^ 32 - 2 ^ 31"

definition in_int32 :: "int \<Rightarrow> bool" where
  "in_int32 n \<longleftrightarrow> - (2 ^ 31) \<le> n \<and> n < 2 ^ 31"

definition in_int64 :: "int \<Rightarrow> bool" where
  "in_int64 n \<longleftrightarrow> - (2 ^ 63) \<le> n \<and> n < 2 ^ 63"

definition ck_int32 :: "int \<Rightarrow> int res" where
  "ck_int32 n = (if in_int32 n then Inr n else Inl IntOverflow)"

definition ck_int64 :: "int \<Rightarrow> int res" where
  "ck_int64 n = (if in_int64 n then Inr n else Inl IntOverflow)"

definition to_uint32 :: "int \<Rightarrow> nat" where
  "to_uint32 n = nat (n mod 2 ^ 32)"

definition to_uint64 :: "int \<Rightarrow> nat" where
  "to_uint64 n = nat (n mod 2 ^ 64)"

lemma to_int32_id [cint_simps]: "in_int32 n \<Longrightarrow> to_int32 n = n"
  by (simp add: to_int32_def in_int32_def)

lemma in_int32_to_int32: "in_int32 (to_int32 n)"
  by (simp add: to_int32_def in_int32_def)

lemma ck_int32_id [cint_simps]: "in_int32 n \<Longrightarrow> ck_int32 n = Inr n"
  by (simp add: ck_int32_def)

lemma ck_int64_id [cint_simps]: "in_int64 n \<Longrightarrow> ck_int64 n = Inr n"
  by (simp add: ck_int64_def)

lemma to_uint64_of_nat [cint_simps]: "n < 2 ^ 64 \<Longrightarrow> to_uint64 (int n) = n"
  by (simp add: to_uint64_def nat_mod_as_int flip: of_nat_power)

lemma to_uint32_of_nat [cint_simps]: "n < 2 ^ 32 \<Longrightarrow> to_uint32 (int n) = n"
  by (simp add: to_uint32_def nat_mod_as_int flip: of_nat_power)

lemma to_uint64_less: "to_uint64 n < 2 ^ 64"
  by (simp add: to_uint64_def nat_less_iff)

lemma in_int32_nat [cint_simps]: "n < 2 ^ 31 \<Longrightarrow> in_int32 (int n)"
  by (simp add: in_int32_def)

section \<open>Decimal numerals\<close>

definition digit_char :: "nat \<Rightarrow> char" where
  "digit_char d = char_of (48 + d)"

text \<open>What \<open>printf\<close> writes for \<open>%u\<close> and \<open>%d\<close>.\<close>

fun dec :: "nat \<Rightarrow> string" where
  "dec n = (if n < 10 then [digit_char n] else dec (n div 10) @ [digit_char (n mod 10)])"

declare dec.simps [simp del]

definition deci :: "int \<Rightarrow> string" where
  "deci n = (if n < 0 then CHR ''-'' # dec (nat (- n)) else dec (nat n))"

fun undec_acc :: "nat \<Rightarrow> string \<Rightarrow> nat" where
  "undec_acc v [] = v"
| "undec_acc v (c # cs) = undec_acc (10 * v + (byte_val c - 48)) cs"

definition undec :: "string \<Rightarrow> nat" where
  "undec s = undec_acc 0 s"

lemma byte_val_digit_char [dec_simps, simp]: "d < 10 \<Longrightarrow> byte_val (digit_char d) = 48 + d"
  by (simp add: digit_char_def)

lemma isdigit_digit_char [dec_simps, simp]: "d < 10 \<Longrightarrow> isdigit (digit_char d)"
  by (simp add: isdigit_def)

lemma digit_char_inject: "d < 10 \<Longrightarrow> e < 10 \<Longrightarrow> digit_char d = digit_char e \<longleftrightarrow> d = e"
  by (metis add_left_cancel byte_val_digit_char)

lemma undec_acc_append: "undec_acc v (a @ b) = undec_acc (undec_acc v a) b"
  by (induction a arbitrary: v) auto

lemma undec_snoc [dec_simps]: "undec (a @ [c]) = 10 * undec a + (byte_val c - 48)"
  by (simp add: undec_def undec_acc_append)

lemma dec_nonempty [dec_simps, simp]: "dec n \<noteq> []"
  by (subst dec.simps) simp

lemma undec_dec [dec_simps, simp]: "undec (dec n) = n"
proof (induction n rule: dec.induct)
  case (1 n)
  show ?case
  proof (cases "n < 10")
    case True
    then show ?thesis by (subst dec.simps) (simp add: undec_def)
  next
    case False
    with "1.IH" show ?thesis by (subst dec.simps) (simp add: undec_snoc)
  qed
qed

lemma dec_inject [dec_simps]: "dec m = dec n \<longleftrightarrow> m = n"
  by (metis undec_dec)

lemma dec_digits: "c \<in> set (dec n) \<Longrightarrow> isdigit c"
proof (induction n rule: dec.induct)
  case (1 n)
  then show ?case by (cases "n < 10") (auto simp: dec.simps [of n])
qed

lemma dec_hd_nonzero: "0 < n \<Longrightarrow> hd (dec n) \<noteq> CHR ''0''"
proof (induction n rule: dec.induct)
  case (1 n)
  have z: "CHR ''0'' = digit_char 0"
    by (rule byte_val_inject [THEN iffD1]) (simp add: byte_val_def digit_char_def)
  show ?case
  proof (cases "n < 10")
    case True
    with "1.prems" show ?thesis by (simp add: dec.simps [of n] z digit_char_inject)
  next
    case False
    with "1.IH" show ?thesis by (simp add: dec.simps [of n])
  qed
qed

lemma isdigit_not_special:
  "isdigit c \<Longrightarrow> c \<noteq> CR \<and> c \<noteq> LF \<and> c \<noteq> NUL \<and> c \<noteq> CHR ''-'' \<and> c \<noteq> CHR ''$'' \<and> c \<noteq> CHR ''*''"
  by (auto simp: isdigit_def byte_val_def)

lemma is_cstring_dec [simp]: "is_cstring (dec n)"
  using dec_digits isdigit_not_special by (auto simp: is_cstring_def)

lemma CR_notin_dec [simp]: "CR \<notin> set (dec n)"
  using dec_digits isdigit_not_special by auto

lemma length_dec_pos: "0 < length (dec n)"
  by simp

lemma length_dec_le: "0 < d \<Longrightarrow> n < 10 ^ d \<Longrightarrow> length (dec n) \<le> d"
proof (induction d arbitrary: n)
  case (Suc d)
  show ?case
  proof (cases "n < 10")
    case True
    then show ?thesis by (simp add: dec.simps [of n])
  next
    case False
    with Suc.prems have "n div 10 < 10 ^ d" and "0 < d"
      by (auto simp: less_mult_imp_div_less mult.commute intro: gr0I)
    with Suc.IH False show ?thesis by (simp add: dec.simps [of n])
  qed
qed simp

lemma length_dec_ge: "10 ^ d \<le> n \<Longrightarrow> d < length (dec n)"
proof (induction d arbitrary: n)
  case (Suc d)
  then have "10 * 10 ^ d \<le> n" by simp
  moreover have "(1 :: nat) \<le> 10 ^ d" by simp
  ultimately have "10 ^ d \<le> n div 10" and "\<not> n < 10" by linarith+
  with Suc.IH show ?case by (simp add: dec.simps [of n])
qed simp

lemma length_dec_eq: "10 ^ d \<le> n \<Longrightarrow> n < 10 ^ Suc d \<Longrightarrow> length (dec n) = Suc d"
  using length_dec_ge length_dec_le [of "Suc d" n] by fastforce

lemma is_cstring_deci [simp]: "is_cstring (deci n)"
  by (simp add: deci_def)

section \<open>Lists\<close>

lemma take_length_append [simp]: "take (length a) (a @ b) = a"
  by simp

lemma nth_append_at [simp]: "(a @ x # b) ! length a = x"
  by (simp add: nth_append)

lemma take_Suc_nth: "i < length s \<Longrightarrow> take (Suc i) s = take i s @ [s ! i]"
  by (rule take_Suc_conv_app_nth)

lemma drop_nth_Cons: "i < length s \<Longrightarrow> drop i s = s ! i # drop (Suc i) s"
  by (simp add: Cons_nth_drop_Suc)

end
