(* ===== verification/Util.thy ===== *)
theory Util
  imports Prelude
begin

text \<open>
  \<open>src/redis-3.2.5/src/util.c\<close>: the decimal conversions every other component relies on.
  \<open>digits10\<close> and \<open>ll2string\<close> print a 64-bit integer into a caller-supplied buffer two digits
  at a time; \<open>string2ll\<close> and \<open>string2l\<close> parse one strictly; \<open>memtoll\<close> reads a configuration
  value with a memory unit. Buffers are byte lists, a write outside one is a fault, and the
  unsigned 64-bit accumulator of the parser is a natural number below \<open>2 ^ 64\<close> whose overflow
  tests are the ones of the code.
\<close>

section \<open>Printing\<close>

function digits10 :: "nat \<Rightarrow> nat" where
  "digits10 v =
     (if v < 10 then 1
      else if v < 100 then 2
      else if v < 1000 then 3
      else if v < 1000000000000 then
        (if v < 100000000 then
           (if v < 1000000 then
              (if v < 10000 then 4 else 5 + (if v \<ge> 100000 then 1 else 0))
            else 7 + (if v \<ge> 10000000 then 1 else 0))
         else if v < 10000000000 then 9 + (if v \<ge> 1000000000 then 1 else 0)
         else 11 + (if v \<ge> 100000000000 then 1 else 0))
      else 12 + digits10 (v div 1000000000000))"
  by pat_completeness auto
termination
  by (relation "measure id") auto

declare digits10.simps [simp del]

definition llabs :: "int \<Rightarrow> nat" where
  "llabs svalue =
     (if svalue < 0 then (if svalue \<noteq> - (2 ^ 63) then nat (- svalue) else (2 ^ 63 - 1) + 1)
      else nat svalue)"

definition sdigits10 :: "int \<Rightarrow> nat" where
  "sdigits10 v = (if v < 0 then digits10 (llabs v) + 1 else digits10 (nat v))"

definition digit_pairs :: string where
  "digit_pairs =
     ''0001020304050607080910111213141516171819'' @
     ''2021222324252627282930313233343536373839'' @
     ''4041424344454647484950515253545556575859'' @
     ''6061626364656667686970717273747576777879'' @
     ''8081828384858687888990919293949596979899''"

definition u32_sub :: "nat \<Rightarrow> nat \<Rightarrow> nat" where
  "u32_sub a b = (a + 2 ^ 32 - b) mod 2 ^ 32"

text \<open>The loop over the pairs of digits and the last one or two digits after it.\<close>

function ll2string_digits :: "nat \<Rightarrow> nat \<Rightarrow> string \<Rightarrow> string res" where
  "ll2string_digits value nxt dst =
     (if value \<ge> 100 then
        (let i = (value mod 100) * 2 in
         rbind (wr dst nxt (digit_pairs ! (i + 1))) (\<lambda>dst1.
         rbind (wr dst1 (u32_sub nxt 1) (digit_pairs ! i)) (\<lambda>dst2.
         ll2string_digits (value div 100) (u32_sub nxt 2) dst2)))
      else if value < 10 then wr dst nxt (char_of (48 + value))
      else
        (let i = value * 2 in
         rbind (wr dst nxt (digit_pairs ! (i + 1))) (\<lambda>dst1.
         wr dst1 (u32_sub nxt 1) (digit_pairs ! i))))"
  by pat_completeness auto
termination
  by (relation "measure (\<lambda>(value, nxt, dst). value)") auto

declare ll2string_digits.simps [simp del]

definition ll2string :: "string \<Rightarrow> nat \<Rightarrow> int \<Rightarrow> (nat \<times> string) res" where
  "ll2string dst dstlen svalue =
     (let negative = (svalue < 0);
          value = llabs svalue;
          len = digits10 value + (if negative then 1 else 0)
      in if len \<ge> dstlen then Inr (0, dst)
         else
           rbind (wr dst len NUL) (\<lambda>dst0.
           rbind (ll2string_digits value (u32_sub len 1) dst0) (\<lambda>dst1.
           rbind (if negative then wr dst1 0 (CHR ''-'') else Inr dst1) (\<lambda>dst2.
           Inr (len, dst2)))))"

section \<open>Parsing\<close>

text \<open>
  \<open>string2ll_loop v s\<close> is the \<open>while\<close> loop: \<open>None\<close> when the accumulator would overflow,
  otherwise the accumulator and the bytes not consumed.
\<close>

fun string2ll_loop :: "nat \<Rightarrow> string \<Rightarrow> (nat \<times> string) option" where
  "string2ll_loop v [] = Some (v, [])"
| "string2ll_loop v (c # cs) =
     (if isdigit c then
        (if v > (2 ^ 64 - 1) div 10 then None
         else if (10 * v) mod 2 ^ 64 > (2 ^ 64 - 1) - (byte_val c - 48) then None
         else string2ll_loop ((10 * v) mod 2 ^ 64 + (byte_val c - 48)) cs)
      else Some (v, c # cs))"

lemma string2ll_loop_Cons [simp]:
  "string2ll_loop v (c # cs) =
     (if isdigit c then
        (if v > (2 ^ 64 - 1) div 10 then None
         else if 10 * v > (2 ^ 64 - 1) - (byte_val c - 48) then None
         else string2ll_loop (10 * v + (byte_val c - 48)) cs)
      else Some (v, c # cs))"
proof (cases "v > (2 ^ 64 - 1) div 10")
  case False
  then have "(10 * v) mod 2 ^ 64 = 10 * v" by (intro mod_less) simp
  then show ?thesis by (simp only: string2ll_loop.simps(2))
qed simp

declare string2ll_loop.simps(2) [simp del]

definition string2ll :: "string \<Rightarrow> int option" where
  "string2ll s =
     (if s = [] then None
      else if length s = 1 \<and> s ! 0 = CHR ''0'' then Some 0
      else
        (let negative = (s ! 0 = CHR ''-''); p = (if negative then tl s else s) in
         if p = [] then None
         else if 49 \<le> byte_val (p ! 0) \<and> byte_val (p ! 0) \<le> 57 then
           (case string2ll_loop (byte_val (p ! 0) - 48) (tl p) of
              None \<Rightarrow> None
            | Some (v, rest) \<Rightarrow>
                if rest \<noteq> [] then None
                else if negative then (if v > 2 ^ 63 then None else Some (- int v))
                else (if v > 2 ^ 63 - 1 then None else Some (int v)))
         else if p ! 0 = CHR ''0'' \<and> length s = 1 then Some 0
         else None))"

definition string2l :: "string \<Rightarrow> int option" where
  "string2l s =
     (case string2ll s of
        None \<Rightarrow> None
      | Some llval \<Rightarrow> if llval < - (2 ^ 63) \<or> llval > 2 ^ 63 - 1 then None else Some llval)"

text \<open>
  \<open>strtoll\<close> on a string that is an optional minus sign followed by digits only: the value,
  clamped to the range of \<open>long long\<close>, and the number of bytes consumed, 0 without a digit.
\<close>

definition strtoll :: "string \<Rightarrow> int \<times> nat" where
  "strtoll s =
     (let neg = (s \<noteq> [] \<and> s ! 0 = CHR ''-''); body = (if neg then tl s else s);
          ds = takeWhile isdigit body; v = int (undec ds)
      in if ds = [] then (0, 0)
         else (if neg then max (- (2 ^ 63)) (- v) else min (2 ^ 63 - 1) v,
               length ds + (if neg then 1 else 0)))"

definition memtoll_unit :: "string \<Rightarrow> int option" where
  "memtoll_unit u =
     (if u = [] \<or> strcasecmp_eq u ''b'' then Some 1
      else if strcasecmp_eq u ''k'' then Some 1000
      else if strcasecmp_eq u ''kb'' then Some 1024
      else if strcasecmp_eq u ''m'' then Some (1000 * 1000)
      else if strcasecmp_eq u ''mb'' then Some (1024 * 1024)
      else if strcasecmp_eq u ''g'' then Some (1000 * 1000 * 1000)
      else if strcasecmp_eq u ''gb'' then Some (1024 * 1024 * 1024)
      else None)"

text \<open>
  The result and the value stored through \<open>err\<close>. Whether \<open>strtoll\<close> sets \<open>EINVAL\<close> when it
  converts nothing is up to the C library: \<open>einval\<close>.
\<close>

definition memtoll :: "bool \<Rightarrow> string \<Rightarrow> (int \<times> bool) res" where
  "memtoll einval p =
     (let sign = (if p \<noteq> [] \<and> p ! 0 = CHR ''-'' then 1 else 0);
          digits = sign + length (takeWhile isdigit (drop sign p));
          u = drop digits p
      in case memtoll_unit u of
           None \<Rightarrow> Inr (0, True)
         | Some mul \<Rightarrow>
             if digits \<ge> 128 then Inr (0, True)
             else
               (let buf = take digits p; (val, used) = strtoll buf in
                if (val = 0 \<and> einval \<and> used = 0) \<or> used < length buf then Inr (0, True)
                else rbind (ck_int64 (val * mul)) (\<lambda>r. Inr (r, False))))"

section \<open>Printing is decimal notation\<close>

lemma dec_step: "n \<ge> 10 \<Longrightarrow> dec n = dec (n div 10) @ [digit_char (n mod 10)]"
  by (simp add: dec.simps [of n])

lemma length_dec_div: "n \<ge> 10 ^ k \<Longrightarrow> length (dec n) = k + length (dec (n div 10 ^ k))"
proof (induction k arbitrary: n)
  case (Suc k)
  then have ge: "10 * 10 ^ k \<le> n" by simp
  moreover have "(1 :: nat) \<le> 10 ^ k" by simp
  ultimately have "10 \<le> n" and k: "10 ^ k \<le> n div 10" by linarith+
  then have "length (dec n) = Suc (length (dec (n div 10)))" by (simp add: dec_step)
  also have "\<dots> = Suc (k + length (dec (n div 10 div 10 ^ k)))" using Suc.IH [OF k] by simp
  finally show ?case by (simp add: div_mult2_eq)
qed simp

lemma length_dec_ranges:
  shows "v < 10 \<Longrightarrow> length (dec v) = 1"
    and "10 \<le> v \<Longrightarrow> v < 100 \<Longrightarrow> length (dec v) = 2"
    and "100 \<le> v \<Longrightarrow> v < 1000 \<Longrightarrow> length (dec v) = 3"
    and "1000 \<le> v \<Longrightarrow> v < 10000 \<Longrightarrow> length (dec v) = 4"
    and "10000 \<le> v \<Longrightarrow> v < 100000 \<Longrightarrow> length (dec v) = 5"
    and "100000 \<le> v \<Longrightarrow> v < 1000000 \<Longrightarrow> length (dec v) = 6"
    and "1000000 \<le> v \<Longrightarrow> v < 10000000 \<Longrightarrow> length (dec v) = 7"
    and "10000000 \<le> v \<Longrightarrow> v < 100000000 \<Longrightarrow> length (dec v) = 8"
    and "100000000 \<le> v \<Longrightarrow> v < 1000000000 \<Longrightarrow> length (dec v) = 9"
    and "1000000000 \<le> v \<Longrightarrow> v < 10000000000 \<Longrightarrow> length (dec v) = 10"
    and "10000000000 \<le> v \<Longrightarrow> v < 100000000000 \<Longrightarrow> length (dec v) = 11"
    and "100000000000 \<le> v \<Longrightarrow> v < 1000000000000 \<Longrightarrow> length (dec v) = 12"
  using dec.simps [of v] length_dec_eq [of 1 v] length_dec_eq [of 2 v] length_dec_eq [of 3 v]
    length_dec_eq [of 4 v] length_dec_eq [of 5 v] length_dec_eq [of 6 v] length_dec_eq [of 7 v]
    length_dec_eq [of 8 v] length_dec_eq [of 9 v] length_dec_eq [of 10 v] length_dec_eq [of 11 v]
  by simp_all

lemma digits10_small: "v < 1000000000000 \<Longrightarrow> digits10 v = length (dec v)"
  unfolding digits10.simps [of v] by (simp add: length_dec_ranges split: if_split)

lemma digits10_length: "digits10 v = length (dec v)"
proof (induction v rule: digits10.induct)
  case (1 v)
  show ?case
  proof (cases "v < 1000000000000")
    case False
    then have "digits10 v = 12 + digits10 (v div 10 ^ 12)" by (simp add: digits10.simps [of v])
    also have "\<dots> = length (dec v)"
      using False "1.IH" length_dec_div [of 12 v] by simp
    finally show ?thesis .
  qed (rule digits10_small)
qed

lemma llabs_eq [simp]: "llabs n = nat \<bar>n\<bar>"
  by (auto simp: llabs_def)

lemma length_deci: "length (deci n) = digits10 (llabs n) + (if n < 0 then 1 else 0)"
  by (auto simp: deci_def digits10_length)

lemma sdigits10_length: "sdigits10 v = length (deci v)"
  by (simp add: sdigits10_def length_deci)

fun pairs_of :: "nat list \<Rightarrow> string" where
  "pairs_of [] = []"
| "pairs_of (k # ks) = digit_char (k div 10) # digit_char (k mod 10) # pairs_of ks"

lemma pairs_of_nth:
  "k < length ks \<Longrightarrow> pairs_of ks ! (k * 2) = digit_char (ks ! k div 10) \<and>
     pairs_of ks ! Suc (k * 2) = digit_char (ks ! k mod 10)"
proof (induction ks arbitrary: k)
  case (Cons x ks)
  then show ?case by (cases k) auto
qed simp

lemma digit_char_literals:
  "digit_char 0 = CHR ''0''" "digit_char (Suc 0) = CHR ''1''" "digit_char (Suc (Suc 0)) = CHR ''2''"
  "digit_char 1 = CHR ''1''" "digit_char 2 = CHR ''2''" "digit_char 3 = CHR ''3''"
  "digit_char 4 = CHR ''4''" "digit_char 5 = CHR ''5''" "digit_char 6 = CHR ''6''"
  "digit_char 7 = CHR ''7''" "digit_char 8 = CHR ''8''" "digit_char 9 = CHR ''9''"
  by (simp_all add: digit_char_def char_of_def bit_numeral_rec bit_0 bit_Suc_0_iff char.expand)

lemma digit_pairs_eq: "digit_pairs = pairs_of [0..<100]"
  by (simp add: digit_pairs_def upt_rec digit_char_literals)

lemma digit_pairs_nth:
  assumes "k < 100"
  shows "digit_pairs ! (k * 2) = digit_char (k div 10)"
    and "digit_pairs ! Suc (k * 2) = digit_char (k mod 10)"
  using assms pairs_of_nth [of k "[0..<100]"] by (simp_all add: digit_pairs_eq)

lemma mod_shift: "b \<le> a \<Longrightarrow> a < (m :: nat) \<Longrightarrow> (a + m - b) mod m = a - b"
  by (metis Nat.add_diff_assoc2 less_imp_diff_less mod_add_self2 mod_less)

lemma u32_sub_eq [simp]: "b \<le> a \<Longrightarrow> a < 2 ^ 32 \<Longrightarrow> u32_sub a b = a - b"
  unfolding u32_sub_def by (rule mod_shift)

lemma dec_step2:
  assumes "v \<ge> 100"
  shows "dec v = dec (v div 100) @ [digit_char (v mod 100 div 10), digit_char (v mod 100 mod 10)]"
proof -
  have "v div 10 \<ge> 10" using assms by simp
  then have "dec v = dec (v div 10 div 10) @ [digit_char (v div 10 mod 10), digit_char (v mod 10)]"
    using assms by (simp add: dec_step)
  moreover have "v div 10 div 10 = v div 100" by (simp flip: div_mult2_eq)
  moreover have "v mod 100 = 10 * (v div 10 mod 10) + v mod 10" using mod_mult2_eq [of v 10 10] by simp
  then have "v div 10 mod 10 = v mod 100 div 10" "v mod 10 = v mod 100 mod 10" by simp_all
  ultimately show ?thesis by simp
qed

lemma drop_two_written:
  assumes "1 \<le> i" and "i < length dst"
  shows "drop (i - 1) (dst[i := a, i - 1 := b]) = b # a # drop (Suc i) dst"
proof -
  obtain j where "i = Suc j" using assms(1) by (cases i) auto
  with assms(2) show ?thesis by (simp add: drop_nth_Cons drop_update_swap)
qed

lemma ll2string_digits_correct:
  assumes "length (dec v) \<le> Suc nxt" and "nxt < length dst" and "nxt < 2 ^ 32"
  shows "ll2string_digits v nxt dst =
    Inr (take (Suc nxt - length (dec v)) dst @ dec v @ drop (Suc nxt) dst)"
  using assms
proof (induction v nxt dst rule: ll2string_digits.induct)
  case (1 v nxt dst)
  consider (big) "v \<ge> 100" | (one) "v < 10" | (two) "10 \<le> v" "v < 100" by linarith
  then show ?case
  proof cases
    case big
    let ?a = "digit_char (v mod 100 mod 10)" and ?b = "digit_char (v mod 100 div 10)"
    let ?dst = "dst[nxt := ?a, nxt - 1 := ?b]"
    have len: "length (dec v) = length (dec (v div 100)) + 2" using big by (simp add: dec_step2)
    have pos: "0 < length (dec (v div 100))" by simp
    have nxt: "2 \<le> nxt" using len pos "1.prems"(1) by linarith
    have nxt1: "nxt - 1 < length dst" "u32_sub nxt 1 = nxt - 1" "u32_sub nxt 2 = nxt - 2"
      using nxt "1.prems" by simp_all
    have tbl: "digit_pairs ! (v mod 100 * 2) = ?b" "digit_pairs ! (v mod 100 * 2 + 1) = ?a"
      using digit_pairs_nth [of "v mod 100"] by simp_all
    have "ll2string_digits v nxt dst = ll2string_digits (v div 100) (nxt - 2) ?dst"
      using big nxt1 "1.prems"(2) tbl
      by (simp only: ll2string_digits.simps [of v] wr_def Let_def if_True rbind_simps length_list_update)
    also have "\<dots> = Inr (take (Suc (nxt - 2) - length (dec (v div 100))) ?dst @ dec (v div 100) @
        drop (Suc (nxt - 2)) ?dst)"
      by (rule "1.IH" [OF big refl, of "dst[nxt := ?a]" ?dst, unfolded nxt1])
         (use nxt nxt1 "1.prems" tbl len in \<open>simp_all add: wr_def\<close>)
    also have "Suc (nxt - 2) = nxt - 1" using nxt by simp
    also have "drop (nxt - 1) ?dst = ?b # ?a # drop (Suc nxt) dst"
      using nxt "1.prems"(2) by (intro drop_two_written) simp_all
    also have "take (nxt - 1 - length (dec (v div 100))) ?dst = take (Suc nxt - length (dec v)) dst"
      using nxt len pos "1.prems"(1) by simp
    finally show ?thesis using big by (simp add: dec_step2)
  next
    case one
    then have d: "dec v = [digit_char v]" by (simp add: dec.simps [of v])
    have "ll2string_digits v nxt dst = wr dst nxt (digit_char v)"
      unfolding ll2string_digits.simps [of v nxt dst] digit_char_def using one by simp
    also have "\<dots> = Inr (take nxt dst @ digit_char v # drop (Suc nxt) dst)"
      using "1.prems"(2) by (simp add: wr_def upd_conv_take_nth_drop)
    finally show ?thesis using d by simp
  next
    case two
    have "v div 10 < 10" using two by linarith
    then have "dec (v div 10) = [digit_char (v div 10)]" unfolding dec.simps [of "v div 10"] by simp
    then have d: "dec v = [digit_char (v div 10), digit_char (v mod 10)]"
      using dec_step [of v] two by simp
    have nxt: "1 \<le> nxt" using "1.prems"(1) d by simp
    have "ll2string_digits v nxt dst = Inr (dst[nxt := digit_char (v mod 10), nxt - 1 := digit_char (v div 10)])"
      unfolding ll2string_digits.simps [of v nxt dst]
      using two nxt "1.prems"(2,3) digit_pairs_nth [of v] by (auto simp: wr_def Let_def)
    also have "\<dots> = Inr (take (nxt - 1) dst @ dec v @ drop (Suc nxt) dst)"
      using append_take_drop_id [of "nxt - 1" "dst[nxt := digit_char (v mod 10), nxt - 1 := digit_char (v div 10)]"]
        nxt "1.prems" drop_two_written [of nxt dst] d by simp
    finally show ?thesis using d by simp
  qed
qed

lemma length_deci_int64: "in_int64 n \<Longrightarrow> length (deci n) \<le> 20"
  using length_dec_le [of 19 "nat \<bar>n\<bar>"] by (auto simp: deci_def in_int64_def nat_less_iff)

lemma ll2string_fits:
  assumes "in_int64 n" and "dstlen \<le> length dst" and "length (deci n) < dstlen"
  shows "ll2string dst dstlen n =
    Inr (length (deci n), deci n @ NUL # drop (Suc (length (deci n))) dst)"
proof -
  let ?len = "length (deci n)" and ?v = "nat \<bar>n\<bar>"
  let ?dst = "dst[?len := NUL]"
  have pos: "1 \<le> ?len" and small: "?len < 2 ^ 32"
    using length_deci_int64 [OF assms(1)] by (auto simp: deci_def Suc_le_eq)
  have dl: "?len = length (dec ?v) + (if n < 0 then 1 else 0)"
    by (simp add: length_deci digits10_length)
  have digits: "ll2string_digits ?v (?len - 1) ?dst =
      Inr (take (?len - length (dec ?v)) ?dst @ dec ?v @ drop ?len ?dst)"
  proof -
    have "length (dec ?v) \<le> Suc (?len - 1)" "?len - 1 < length ?dst" "?len - 1 < 2 ^ 32"
      and s: "Suc (?len - 1) = ?len"
      using pos small assms(2,3) by (simp_all add: less_imp_diff_less, simp add: dl)
    from ll2string_digits_correct [OF this(1-3)] show ?thesis unfolding s .
  qed
  have nul: "drop ?len ?dst = NUL # drop (Suc ?len) dst"
    using assms by (simp add: drop_nth_Cons)
  have "ll2string dst dstlen n =
      rbind (if n < 0 then wr (take (?len - length (dec ?v)) ?dst @ dec ?v @ drop ?len ?dst) 0 (CHR ''-'')
             else Inr (take (?len - length (dec ?v)) ?dst @ dec ?v @ drop ?len ?dst))
        (\<lambda>dst2. Inr (?len, dst2))"
    using assms digits pos small
    by (simp add: ll2string_def Let_def wr_def flip: length_deci [unfolded llabs_eq])
  also have "\<dots> = Inr (?len, deci n @ NUL # drop (Suc ?len) dst)"
  proof (cases "n < 0")
    case True
    then obtain x xs where "dst = x # xs" using assms by (cases dst) auto
    with True show ?thesis using dl nul by (simp add: wr_def deci_def)
  next
    case False
    then show ?thesis using dl nul by (simp add: deci_def)
  qed
  finally show ?thesis .
qed

lemma ll2string_short:
  "dstlen \<le> length (deci n) \<Longrightarrow> ll2string dst dstlen n = Inr (0, dst)"
  by (simp add: ll2string_def Let_def flip: length_deci [unfolded llabs_eq])

section \<open>Parsing inverts printing\<close>

definition canonical :: "string \<Rightarrow> bool" where
  "canonical ds \<longleftrightarrow> ds \<noteq> [] \<and> list_all isdigit ds \<and> hd ds \<noteq> CHR ''0''"

lemma isdigit_digit_char_eq: "isdigit c \<Longrightarrow> digit_char (byte_val c - 48) = c"
  by (simp add: isdigit_def digit_char_def)

lemma isdigit_val_less: "isdigit c \<Longrightarrow> byte_val c - 48 < 10"
  by (auto simp: isdigit_def)

lemma isdigit_val_zero: "isdigit c \<Longrightarrow> byte_val c - 48 = 0 \<longleftrightarrow> c = CHR ''0''"
  by (metis digit_char_literals(1) isdigit_digit_char_eq byte_val_digit_char diff_add_inverse zero_less_numeral)

lemma undec_acc_ge: "v \<le> undec_acc v ds"
proof (induction ds arbitrary: v)
  case (Cons c ds)
  then show ?case by (simp add: le_trans [OF _ Cons.IH])
qed simp

lemma canonical_undec_pos: "canonical ds \<Longrightarrow> 0 < undec ds"
proof -
  assume "canonical ds"
  then obtain c cs where ds: "ds = c # cs" "isdigit c" "c \<noteq> CHR ''0''"
    by (cases ds) (auto simp: canonical_def)
  then have "0 < byte_val c - 48" using isdigit_val_zero [of c] by simp
  also have "\<dots> \<le> undec ds" using undec_acc_ge by (simp add: undec_def ds)
  finally show ?thesis .
qed

lemma dec_undec: "canonical ds \<Longrightarrow> dec (undec ds) = ds"
proof (induction ds rule: rev_induct)
  case (snoc c cs)
  show ?case
  proof (cases "cs = []")
    case True
    with snoc.prems have "isdigit c" by (simp add: canonical_def)
    with True show ?thesis
      using isdigit_val_less [of c] isdigit_digit_char_eq [of c] by (simp add: undec_def dec.simps)
  next
    case False
    with snoc.prems have c: "isdigit c" and cs: "canonical cs" by (auto simp: canonical_def)
    have "dec (10 * undec cs + (byte_val c - 48)) = dec (undec cs) @ [digit_char (byte_val c - 48)]"
      using canonical_undec_pos [OF cs] isdigit_val_less [OF c] by (subst dec_step) simp_all
    then show ?thesis using snoc.IH [OF cs] isdigit_digit_char_eq [OF c] by (simp add: undec_snoc)
  qed
qed (simp add: canonical_def)

lemma canonical_dec: "0 < n \<Longrightarrow> canonical (dec n)"
  using dec_hd_nonzero dec_digits by (auto simp: canonical_def list_all_iff)

lemma string2ll_loop_digits:
  "v < 2 ^ 64 \<Longrightarrow> list_all isdigit ds \<Longrightarrow>
    string2ll_loop v ds = (if undec_acc v ds < 2 ^ 64 then Some (undec_acc v ds, []) else None)"
proof (induction ds arbitrary: v)
  case (Cons c ds)
  let ?v = "10 * v + (byte_val c - 48)"
  have d: "byte_val c - 48 < 10" using Cons.prems isdigit_val_less by simp
  have c: "isdigit c" using Cons.prems by simp
  show ?case
  proof (cases "?v < 2 ^ 64")
    case True
    then have "\<not> v > (2 ^ 64 - 1) div 10" and "\<not> 10 * v > (2 ^ 64 - 1) - (byte_val c - 48)" by simp_all
    with c have "string2ll_loop v (c # ds) = string2ll_loop ?v ds" by simp
    with Cons True show ?thesis by simp
  next
    case False
    then have "\<not> undec_acc ?v ds < 2 ^ 64" using undec_acc_ge [of ?v ds] by simp
    moreover have "string2ll_loop v (c # ds) = None" using False d c by auto
    ultimately show ?thesis by simp
  qed
qed simp

lemma string2ll_loop_all: "string2ll_loop v ds = Some (w, []) \<Longrightarrow> list_all isdigit ds"
  by (induction v ds rule: string2ll_loop.induct) (auto split: if_splits)

lemma canonical_first:
  "canonical (c # cs) \<longleftrightarrow> 49 \<le> byte_val c \<and> byte_val c \<le> 57 \<and> list_all isdigit cs"
  using isdigit_val_zero [of c] by (auto simp: canonical_def isdigit_def)

lemma string2ll_loop_canonical:
  assumes "canonical (c # cs)"
  shows "string2ll_loop (byte_val c - 48) cs =
    (if undec (c # cs) < 2 ^ 64 then Some (undec (c # cs), []) else None)"
proof -
  have "byte_val c - 48 < 2 ^ 64" using byte_val_less [of c] by simp
  then show ?thesis using assms string2ll_loop_digits [of "byte_val c - 48" cs]
    by (simp add: canonical_first undec_def)
qed

lemma string2ll_body:
  "(49 \<le> byte_val c \<and> byte_val c \<le> 57 \<and> string2ll_loop (byte_val c - 48) cs = Some (v, [])) \<longleftrightarrow>
   canonical (c # cs) \<and> undec (c # cs) = v \<and> v < 2 ^ 64"
proof (cases "canonical (c # cs)")
  case True
  then show ?thesis using string2ll_loop_canonical [OF True] by (auto simp: canonical_first)
next
  case False
  then show ?thesis using string2ll_loop_all by (auto simp: canonical_first)
qed

lemma deci_literals: "deci 0 = ''0''"
  by (simp add: deci_def dec.simps digit_char_literals)

lemma string2ll_deci: "in_int64 n \<Longrightarrow> string2ll (deci n) = Some n"
proof -
  assume n: "in_int64 n"
  consider (zero) "n = 0" | (pos) "0 < n" | (neg) "n < 0" by linarith
  then show ?thesis
  proof cases
    case zero
    then show ?thesis by (simp add: deci_literals string2ll_def)
  next
    case pos
    let ?m = "nat n"
    obtain c cs where d: "dec ?m = c # cs" by (cases "dec ?m") auto
    have can: "canonical (c # cs)" using canonical_dec [of ?m] pos d by simp
    have u: "undec (c # cs) = ?m" using undec_dec [of ?m] d by simp
    have body: "49 \<le> byte_val c" "byte_val c \<le> 57"
      "string2ll_loop (byte_val c - 48) cs = Some (?m, [])"
      using string2ll_body [of c cs ?m] can u n by (auto simp: in_int64_def)
    have "c \<noteq> CHR ''0''" "c \<noteq> CHR ''-''" using body by (auto simp: byte_val_def)
    then show ?thesis using body pos n d by (simp add: deci_def string2ll_def in_int64_def nat_le_iff)
  next
    case neg
    let ?m = "nat (- n)"
    obtain c cs where d: "dec ?m = c # cs" by (cases "dec ?m") auto
    have can: "canonical (c # cs)" using canonical_dec [of ?m] neg d by simp
    have u: "undec (c # cs) = ?m" using undec_dec [of ?m] d by simp
    have body: "49 \<le> byte_val c" "byte_val c \<le> 57"
      "string2ll_loop (byte_val c - 48) cs = Some (?m, [])"
      using string2ll_body [of c cs ?m] can u n by (auto simp: in_int64_def)
    show ?thesis using body neg n d by (simp add: deci_def string2ll_def in_int64_def nat_le_iff)
  qed
qed

lemma string2ll_sound: "string2ll s = Some n \<Longrightarrow> in_int64 n \<and> s = deci n"
proof -
  assume r: "string2ll s = Some n"
  then have "s \<noteq> []" by (auto simp: string2ll_def)
  show ?thesis
  proof (cases "length s = 1 \<and> s ! 0 = CHR ''0''")
    case True
    then have "s = ''0''" by (cases s) auto
    with r show ?thesis by (simp add: string2ll_def deci_literals in_int64_def)
  next
    case nz: False
    define neg where "neg = (s ! 0 = CHR ''-'')"
    define p where "p = (if neg then tl s else s)"
    from r nz \<open>s \<noteq> []\<close> have "p \<noteq> []" by (auto simp: string2ll_def Let_def neg_def p_def split: if_splits)
    then obtain c cs where p: "p = c # cs" by (cases p) auto
    have "\<not> (p ! 0 = CHR ''0'' \<and> length s = 1)"
      using nz p \<open>s \<noteq> []\<close> by (cases s) (auto simp: p_def split: if_splits)
    with r nz \<open>s \<noteq> []\<close> \<open>p \<noteq> []\<close> obtain v where
      b: "49 \<le> byte_val c" "byte_val c \<le> 57" "string2ll_loop (byte_val c - 48) cs = Some (v, [])"
      and v: "if neg then v \<le> 2 ^ 63 \<and> n = - int v else v \<le> 2 ^ 63 - 1 \<and> n = int v"
      by (simp add: string2ll_def Let_def p split: if_splits option.splits prod.splits flip: neg_def p_def)
    then have can: "canonical (c # cs)" and u: "undec (c # cs) = v"
      using string2ll_body [of c cs v] by auto
    have "dec v = p" "0 < v" using dec_undec [OF can] canonical_undec_pos [OF can] u p by auto
    moreover have "s = (if neg then CHR ''-'' # p else p)"
      using \<open>s \<noteq> []\<close> by (cases s) (auto simp: neg_def p_def)
    ultimately show ?thesis using v by (auto simp: deci_def in_int64_def split: if_splits)
  qed
qed

lemma string2ll_iff: "string2ll s = Some n \<longleftrightarrow> in_int64 n \<and> s = deci n"
  using string2ll_deci string2ll_sound by blast

lemma string2l_eq: "string2l s = string2ll s"
proof (cases "string2ll s")
  case (Some n)
  then have "in_int64 n" using string2ll_sound by blast
  with Some show ?thesis by (simp add: string2l_def in_int64_def)
qed (simp add: string2l_def)

section \<open>Properties\<close>

text \<open>
  C15. \<open>string2ll\<close> accepts exactly the canonical decimal texts of the 64-bit integers and
  returns the integer printed: no leading zero or plus sign, no blank, no overflowing value gets in.
\<close>

theorem string2ll_exact: "string2ll s = Some n \<longleftrightarrow> in_int64 n \<and> s = deci n"
  by (rule string2ll_iff)

text \<open>
  C16. \<open>ll2string\<close> stays inside a buffer of \<open>dstlen\<close> bytes whatever the number: when the
  text and its terminator fit it writes exactly them at the front, returns the length, leaves the rest of
  the buffer alone, and \<open>string2ll\<close> reads the same number back; otherwise it returns 0 and writes nothing.
\<close>

theorem ll2string_reads_back:
  assumes "in_int64 n" and "dstlen \<le> length dst"
  shows "if length (deci n) < dstlen
    then ll2string dst dstlen n = Inr (length (deci n), deci n @ NUL # drop (Suc (length (deci n))) dst) \<and>
      string2ll (deci n) = Some n
    else ll2string dst dstlen n = Inr (0, dst)"
  using assms ll2string_fits ll2string_short by (auto simp: string2ll_iff)

theorem ll2string_reads_back_witness:
  "ll2string ''xxxxxxxx'' 6 (-42) = Inr (3, ''-42'' @ NUL # ''xxxx'')"
proof -
  have "deci (-42) = ''-42''" by (simp add: deci_def dec.simps digit_char_literals)
  then show ?thesis using ll2string_reads_back [of "-42" 6 "''xxxxxxxx''"] by (simp add: in_int64_def)
qed

end
