(* ===== verification/Sds.thy ===== *)
theory Sds
  imports Util
begin

text \<open>
  \<open>src/redis-3.2.5/src/sds.h\<close> and \<open>src/redis-3.2.5/src/sds.c\<close>: the dynamic strings of Redis.
  A \<^emph>\<open>simple dynamic string\<close> is a header (its type, which fixes the width of the length and
  allocation fields) and a heap buffer. Stores into a header field truncate to the field's
  width, buffer accesses are bounds checked, and the contents of fresh memory are the parameter
  \<open>junk\<close>. \<open>sds_ok\<close> is the representation invariant and \<open>sdsval\<close> the byte string represented.
\<close>

section \<open>Headers\<close>

datatype sdstype = SDS_TYPE_5 | SDS_TYPE_8 | SDS_TYPE_16 | SDS_TYPE_32 | SDS_TYPE_64

record sds =
  hdr_type :: sdstype
  hdr_len :: nat
  hdr_alloc :: nat
  hdr_buf :: string

fun sds_bits :: "sdstype \<Rightarrow> nat" where
  "sds_bits SDS_TYPE_5 = 5"
| "sds_bits SDS_TYPE_8 = 8"
| "sds_bits SDS_TYPE_16 = 16"
| "sds_bits SDS_TYPE_32 = 32"
| "sds_bits SDS_TYPE_64 = 64"

fun sdsHdrSize :: "sdstype \<Rightarrow> nat" where
  "sdsHdrSize SDS_TYPE_5 = 1"
| "sdsHdrSize SDS_TYPE_8 = 3"
| "sdsHdrSize SDS_TYPE_16 = 5"
| "sdsHdrSize SDS_TYPE_32 = 9"
| "sdsHdrSize SDS_TYPE_64 = 17"

definition sdsReqType :: "nat \<Rightarrow> sdstype" where
  "sdsReqType string_size =
     (if string_size < 2 ^ 5 then SDS_TYPE_5
      else if string_size < 2 ^ 8 then SDS_TYPE_8
      else if string_size < 2 ^ 16 then SDS_TYPE_16
      else if string_size < 2 ^ 32 then SDS_TYPE_32
      else SDS_TYPE_64)"

definition sdslen :: "sds \<Rightarrow> nat" where
  "sdslen s = hdr_len s"

definition sdsalloc :: "sds \<Rightarrow> nat" where
  "sdsalloc s = (if hdr_type s = SDS_TYPE_5 then hdr_len s else hdr_alloc s)"

definition sdsavail :: "sds \<Rightarrow> nat" where
  "sdsavail s =
     (if hdr_type s = SDS_TYPE_5 then 0 else to_uint64 (int (hdr_alloc s) - int (hdr_len s)))"

definition sdssetlen :: "sds \<Rightarrow> nat \<Rightarrow> sds" where
  "sdssetlen s newlen = s\<lparr>hdr_len := newlen mod 2 ^ sds_bits (hdr_type s)\<rparr>"

definition sdsinclen :: "sds \<Rightarrow> nat \<Rightarrow> sds" where
  "sdsinclen s inc = s\<lparr>hdr_len := (hdr_len s + inc) mod 2 ^ sds_bits (hdr_type s)\<rparr>"

definition sdssetalloc :: "sds \<Rightarrow> nat \<Rightarrow> sds" where
  "sdssetalloc s newlen =
     (if hdr_type s = SDS_TYPE_5 then s
      else s\<lparr>hdr_alloc := newlen mod 2 ^ sds_bits (hdr_type s)\<rparr>)"

section \<open>Creation\<close>

definition sdsnewlen :: "string option \<Rightarrow> nat \<Rightarrow> sds res" where
  "sdsnewlen init initlen =
     (let t0 = sdsReqType initlen;
          type = (if t0 = SDS_TYPE_5 \<and> initlen = 0 then SDS_TYPE_8 else t0);
          mk = (\<lambda>body. \<lparr>hdr_type = type, hdr_len = initlen mod 2 ^ sds_bits type,
                        hdr_alloc = initlen mod 2 ^ sds_bits type, hdr_buf = body @ [NUL]\<rparr>)
      in case init of
           None \<Rightarrow> Inr (mk (replicate initlen NUL))
         | Some t \<Rightarrow> rbind (rd_bytes t 0 initlen) (\<lambda>body. Inr (mk body)))"

definition sdsempty :: "sds res" where
  "sdsempty = sdsnewlen (Some []) 0"

definition sdsnew :: "string option \<Rightarrow> sds res" where
  "sdsnew init = sdsnewlen init (case init of None \<Rightarrow> 0 | Some t \<Rightarrow> length (cstr t))"

definition sdsdup :: "sds \<Rightarrow> sds res" where
  "sdsdup s = sdsnewlen (Some (hdr_buf s)) (sdslen s)"

definition sdsupdatelen :: "sds \<Rightarrow> sds res" where
  "sdsupdatelen s =
     rbind (rassert (NUL \<in> set (hdr_buf s)) OutOfBounds) (\<lambda>_.
     Inr (sdssetlen s (to_uint64 (to_int32 (int (length (cstr (hdr_buf s))))))))"

definition sdsclear :: "sds \<Rightarrow> sds res" where
  "sdsclear s =
     rbind (wr (hdr_buf s) 0 NUL) (\<lambda>b. Inr (sdssetlen (s\<lparr>hdr_buf := b\<rparr>) 0))"

section \<open>Growing\<close>

definition SDS_MAX_PREALLOC :: nat where
  "SDS_MAX_PREALLOC = 1024 * 1024"

definition sds_prealloc :: "nat \<Rightarrow> nat" where
  "sds_prealloc n =
     (if n < SDS_MAX_PREALLOC then (n * 2) mod 2 ^ 64 else (n + SDS_MAX_PREALLOC) mod 2 ^ 64)"

definition sds_grow_type :: "nat \<Rightarrow> sdstype" where
  "sds_grow_type newlen =
     (if sdsReqType newlen = SDS_TYPE_5 then SDS_TYPE_8 else sdsReqType newlen)"

text \<open>
  Moving a string to an allocation of \<open>newlen\<close> bytes: \<open>realloc\<close> when the header keeps its
  type, otherwise a fresh allocation into which the string and its terminator are copied.
\<close>

definition sds_realloc :: "(nat \<Rightarrow> char) \<Rightarrow> sds \<Rightarrow> sdstype \<Rightarrow> nat \<Rightarrow> sds res" where
  "sds_realloc junk s type newlen =
     (if hdr_type s = type then
        Inr (sdssetalloc (s\<lparr>hdr_buf := mem_resize junk (newlen + 1) (hdr_buf s)\<rparr>) newlen)
      else
        rbind (rd_bytes (hdr_buf s) 0 (sdslen s + 1)) (\<lambda>old.
        rbind (wr_bytes (map junk [0..<newlen + 1]) 0 old) (\<lambda>b.
        Inr (sdssetalloc (sdssetlen (s\<lparr>hdr_type := type, hdr_buf := b\<rparr>) (sdslen s)) newlen))))"

definition sdsMakeRoomFor :: "(nat \<Rightarrow> char) \<Rightarrow> sds \<Rightarrow> nat \<Rightarrow> sds res" where
  "sdsMakeRoomFor junk s addlen =
     (if sdsavail s \<ge> addlen then Inr s
      else
        (let newlen = sds_prealloc ((sdslen s + addlen) mod 2 ^ 64) in
         sds_realloc junk s (sds_grow_type newlen) newlen))"

definition sdsRemoveFreeSpace :: "(nat \<Rightarrow> char) \<Rightarrow> sds \<Rightarrow> sds res" where
  "sdsRemoveFreeSpace junk s = sds_realloc junk s (sdsReqType (sdslen s)) (sdslen s)"

definition sdsAllocSize :: "sds \<Rightarrow> nat" where
  "sdsAllocSize s = sdsHdrSize (hdr_type s) + sdsalloc s + 1"

text \<open>
  The free room the assertions of \<open>sdsIncrLen\<close> compare with: a difference of small unsigned
  fields is computed in \<open>int\<close>, that of the 32 and 64 bit fields wraps.
\<close>

definition sds_room :: "sds \<Rightarrow> int" where
  "sds_room s =
     (let d = int (hdr_alloc s) - int (hdr_len s) in
      case hdr_type s of
        SDS_TYPE_32 \<Rightarrow> d mod 2 ^ 32
      | SDS_TYPE_64 \<Rightarrow> d mod 2 ^ 64
      | _ \<Rightarrow> d)"

definition sdsIncrLen :: "sds \<Rightarrow> int \<Rightarrow> sds res" where
  "sdsIncrLen s incr =
     (if incr = - (2 ^ 31) then Inl IntOverflow
      else
        (let oldlen = int (hdr_len s);
             ok = (if hdr_type s = SDS_TYPE_5
                   then (incr > 0 \<and> oldlen + incr < 32) \<or> (incr < 0 \<and> oldlen \<ge> - incr)
                   else (incr \<ge> 0 \<and> sds_room s \<ge> incr) \<or> (incr < 0 \<and> oldlen \<ge> - incr));
             len = nat ((oldlen + incr) mod 2 ^ sds_bits (hdr_type s))
         in rbind (rassert ok AssertFail) (\<lambda>_.
            rbind (wr (hdr_buf s) len NUL) (\<lambda>b.
            Inr (s\<lparr>hdr_len := len, hdr_buf := b\<rparr>)))))"

definition sdsgrowzero :: "(nat \<Rightarrow> char) \<Rightarrow> sds \<Rightarrow> nat \<Rightarrow> sds res" where
  "sdsgrowzero junk s len =
     (let curlen = sdslen s in
      if len \<le> curlen then Inr s
      else
        rbind (sdsMakeRoomFor junk s (len - curlen)) (\<lambda>s1.
        rbind (wr_bytes (hdr_buf s1) curlen (replicate (len - curlen + 1) NUL)) (\<lambda>b.
        Inr (sdssetlen (s1\<lparr>hdr_buf := b\<rparr>) len))))"

definition sdscatlen :: "(nat \<Rightarrow> char) \<Rightarrow> sds \<Rightarrow> string \<Rightarrow> nat \<Rightarrow> sds res" where
  "sdscatlen junk s t len =
     (let curlen = sdslen s in
      rbind (sdsMakeRoomFor junk s len) (\<lambda>s1.
      rbind (rd_bytes t 0 len) (\<lambda>bytes.
      rbind (wr_bytes (hdr_buf s1) curlen bytes) (\<lambda>b1.
      rbind (wr b1 (curlen + len) NUL) (\<lambda>b2.
      Inr ((sdssetlen s1 (curlen + len))\<lparr>hdr_buf := b2\<rparr>))))))"

definition sdscat :: "(nat \<Rightarrow> char) \<Rightarrow> sds \<Rightarrow> string \<Rightarrow> sds res" where
  "sdscat junk s t = sdscatlen junk s t (length (cstr t))"

definition sdscatsds :: "(nat \<Rightarrow> char) \<Rightarrow> sds \<Rightarrow> sds \<Rightarrow> sds res" where
  "sdscatsds junk s t = sdscatlen junk s (hdr_buf t) (sdslen t)"

definition sdscpylen :: "(nat \<Rightarrow> char) \<Rightarrow> sds \<Rightarrow> string \<Rightarrow> nat \<Rightarrow> sds res" where
  "sdscpylen junk s t len =
     rbind (if sdsalloc s < len
            then sdsMakeRoomFor junk s (to_uint64 (int len - int (sdslen s))) else Inr s) (\<lambda>s1.
     rbind (rd_bytes t 0 len) (\<lambda>bytes.
     rbind (wr_bytes (hdr_buf s1) 0 bytes) (\<lambda>b1.
     rbind (wr b1 len NUL) (\<lambda>b2.
     Inr (sdssetlen (s1\<lparr>hdr_buf := b2\<rparr>) len)))))"

definition sdscpy :: "(nat \<Rightarrow> char) \<Rightarrow> sds \<Rightarrow> string \<Rightarrow> sds res" where
  "sdscpy junk s t = sdscpylen junk s t (length (cstr t))"

section \<open>Shrinking in place\<close>

definition sdstrim :: "sds \<Rightarrow> string \<Rightarrow> sds res" where
  "sdstrim s cset =
     (let v = take (sdslen s) (hdr_buf s);
          incs = (\<lambda>c. c \<in> set (cstr cset) \<or> c = NUL);
          left = length (takeWhile incs v);
          right = length (takeWhile incs (rev (drop (Suc left) v)));
          len = (if left \<ge> length v then 0 else length v - left - right)
      in rbind (rd_bytes (hdr_buf s) left len) (\<lambda>body.
         rbind (wr_bytes (hdr_buf s) 0 body) (\<lambda>b1.
         rbind (wr b1 len NUL) (\<lambda>b2.
         Inr (sdssetlen (s\<lparr>hdr_buf := b2\<rparr>) len)))))"

text \<open>\<open>sdsrange\<close>: the indexes are \<open>int\<close>, so a length of \<open>2 ^ 31\<close> or more is truncated.\<close>

definition sdsrange :: "sds \<Rightarrow> int \<Rightarrow> int \<Rightarrow> sds res" where
  "sdsrange s start0 end0 =
     (let len = sdslen s; ilen = to_int32 (int len) in
      if len = 0 then Inr s
      else
        (let start1 = (if start0 < 0 then max 0 (to_int32 (int len + start0)) else start0);
             end1 = (if end0 < 0 then max 0 (to_int32 (int len + end0)) else end0);
             newlen0 = (if start1 > end1 then 0 else end1 - start1 + 1);
             start2 = (if newlen0 \<noteq> 0 then start1 else 0);
             newlen = (if newlen0 \<noteq> 0 then
                         (if start1 \<ge> ilen then 0
                          else if end1 \<ge> ilen then
                            (if start1 > ilen - 1 then 0 else ilen - 1 - start1 + 1)
                          else newlen0)
                       else 0)
         in rbind (ck_int32 newlen0) (\<lambda>_.
            rbind (if start2 \<noteq> 0 \<and> newlen \<noteq> 0
                   then rbind (rd_bytes (hdr_buf s) (nat start2) (nat newlen)) (wr_bytes (hdr_buf s) 0)
                   else Inr (hdr_buf s)) (\<lambda>b1.
            rbind (wr b1 (nat newlen) NUL) (\<lambda>b2.
            Inr (sdssetlen (s\<lparr>hdr_buf := b2\<rparr>) (nat newlen)))))))"

section \<open>Representation invariant\<close>

definition sds_ok :: "sds \<Rightarrow> bool" where
  "sds_ok s \<longleftrightarrow> hdr_len s \<le> sdsalloc s \<and> sdsalloc s < length (hdr_buf s) \<and>
     sdsalloc s < 2 ^ sds_bits (hdr_type s) \<and> hdr_buf s ! hdr_len s = NUL"

definition sdsval :: "sds \<Rightarrow> string" where
  "sdsval s = take (hdr_len s) (hdr_buf s)"

named_theorems sds_rules \<open>results of the buffer operations on well-formed strings\<close>

lemma sds_bits_le: "(2 :: nat) ^ sds_bits t \<le> 2 ^ 64"
  by (cases t) simp_all

lemma sdsReqType_fits: "n < 2 ^ 64 \<Longrightarrow> n < 2 ^ sds_bits (sdsReqType n)"
  by (simp add: sdsReqType_def)

lemma sds_grow_type_fits:
  "n < 2 ^ 64 \<Longrightarrow> n < 2 ^ sds_bits (sds_grow_type n)" "sds_grow_type n \<noteq> SDS_TYPE_5"
  by (auto simp: sds_grow_type_def sdsReqType_def)

lemma sds_prealloc_ge: "n < 2 ^ 63 \<Longrightarrow> n \<le> sds_prealloc n \<and> sds_prealloc n < 2 ^ 64"
  by (simp add: sds_prealloc_def SDS_MAX_PREALLOC_def)

lemma length_sdsval [simp]: "sds_ok s \<Longrightarrow> length (sdsval s) = sdslen s"
  by (simp add: sds_ok_def sdsval_def sdslen_def)

lemma sdsavail_eq: "sds_ok s \<Longrightarrow> sdsavail s = sdsalloc s - sdslen s"
proof -
  assume ok: "sds_ok s"
  have "hdr_alloc s - hdr_len s < 2 ^ 64" if "hdr_type s \<noteq> SDS_TYPE_5"
  proof -
    have "hdr_alloc s < 2 ^ sds_bits (hdr_type s)" using ok that by (simp add: sds_ok_def sdsalloc_def)
    also note sds_bits_le
    finally show ?thesis by simp
  qed
  with ok to_uint64_of_nat [of "hdr_alloc s - hdr_len s"] show ?thesis
    by (auto simp: sdsavail_def sdsalloc_def sdslen_def sds_ok_def of_nat_diff)
qed

lemma sdslen_less: "sds_ok s \<Longrightarrow> sdslen s < 2 ^ sds_bits (hdr_type s)"
  by (simp add: sds_ok_def sdslen_def)

lemma sds_buf_split:
  "sds_ok s \<Longrightarrow> take (Suc (hdr_len s)) (hdr_buf s) = sdsval s @ [NUL]"
  by (simp add: sds_ok_def sdsval_def take_Suc_nth)

text \<open>A header around a buffer that starts with a value and a terminator is well formed.\<close>

lemma sds_okI:
  assumes "hdr_len s \<le> sdsalloc s" "sdsalloc s < length (hdr_buf s)"
    "sdsalloc s < 2 ^ sds_bits (hdr_type s)" "take (Suc (hdr_len s)) (hdr_buf s) = v @ [NUL]"
  shows "sds_ok s \<and> sdsval s = v"
proof -
  have "take (hdr_len s) (hdr_buf s) @ [hdr_buf s ! hdr_len s] = v @ [NUL]"
    using assms by (simp flip: take_Suc_nth)
  with assms show ?thesis by (simp add: sds_ok_def sdsval_def)
qed

lemma sds_realloc_ok [sds_rules]:
  assumes ok: "sds_ok s" and len: "sdslen s \<le> newlen" and fits: "newlen < 2 ^ sds_bits type"
    and t5: "type = SDS_TYPE_5 \<Longrightarrow> newlen = sdslen s"
  shows "\<exists>s'. sds_realloc junk s type newlen = Inr s' \<and> sds_ok s' \<and> sdsval s' = sdsval s \<and>
    sdslen s' = sdslen s \<and> sdsalloc s' = newlen"
proof -
  let ?n = "hdr_len s"
  have room: "Suc ?n \<le> length (hdr_buf s)" and n: "?n \<le> newlen" using ok len
    by (simp_all add: sds_ok_def sdslen_def)
  have w: "newlen mod 2 ^ sds_bits type = newlen" "?n mod 2 ^ sds_bits type = ?n" using fits n by simp_all
  define b where "b = (if hdr_type s = type then mem_resize junk (newlen + 1) (hdr_buf s)
    else take (Suc ?n) (hdr_buf s) @ drop (Suc ?n) (map junk [0..<newlen + 1]))"
  have b: "length b = newlen + 1" "take (Suc ?n) b = sdsval s @ [NUL]"
  proof -
    show "length b = newlen + 1" using room n by (simp add: b_def del: upt_Suc)
    have "take (Suc ?n) b = take (Suc ?n) (hdr_buf s)" using room n by (simp add: b_def take_mem_resize)
    then show "take (Suc ?n) b = sdsval s @ [NUL]" using sds_buf_split [OF ok] by simp
  qed
  define s' where "s' = s\<lparr>hdr_type := type, hdr_buf := b,
    hdr_alloc := (if type = SDS_TYPE_5 then hdr_alloc s else newlen)\<rparr>"
  have "sds_realloc junk s type newlen = Inr s'"
  proof (cases "hdr_type s = type")
    case True
    then show ?thesis using w by (auto simp: sds_realloc_def sdssetalloc_def s'_def b_def)
  next
    case False
    have "rd_bytes (hdr_buf s) 0 (sdslen s + 1) = Inr (take (Suc ?n) (hdr_buf s))"
      using room by (simp add: rd_bytes_def sdslen_def)
    moreover have "wr_bytes (map junk [0..<newlen + 1]) 0 (take (Suc ?n) (hdr_buf s)) = Inr b"
      using room n False by (simp add: wr_bytes_def b_def)
    ultimately show ?thesis using False w
      by (simp add: sds_realloc_def sdssetalloc_def sdssetlen_def sdslen_def s'_def)
  qed
  moreover have a: "sdsalloc s' = newlen" using t5 by (auto simp: s'_def sdsalloc_def sdslen_def)
  moreover have "sds_ok s' \<and> sdsval s' = sdsval s"
    using a b n fits by (intro sds_okI) (simp_all add: s'_def)
  ultimately show ?thesis by (auto simp: s'_def sdslen_def)
qed

lemma sdsMakeRoomFor_ok [sds_rules]:
  assumes ok: "sds_ok s" and small: "sdslen s + addlen < 2 ^ 63"
  shows "\<exists>s'. sdsMakeRoomFor junk s addlen = Inr s' \<and> sds_ok s' \<and> sdsval s' = sdsval s \<and>
    sdslen s' = sdslen s \<and> sdslen s + addlen \<le> sdsalloc s'"
proof (cases "sdsavail s \<ge> addlen")
  case True
  with ok show ?thesis by (auto simp: sdsMakeRoomFor_def sdsavail_eq sds_ok_def sdslen_def)
next
  case False
  let ?n = "sds_prealloc (sdslen s + addlen)"
  have n: "sdslen s + addlen \<le> ?n" "?n < 2 ^ 64" using sds_prealloc_ge [OF small] by auto
  have "sdsMakeRoomFor junk s addlen = sds_realloc junk s (sds_grow_type ?n) ?n"
    using False small by (simp add: sdsMakeRoomFor_def Let_def)
  with sds_realloc_ok [OF ok, of ?n "sds_grow_type ?n" junk] n sds_grow_type_fits [of ?n]
  show ?thesis by auto
qed

lemma wr_bytes_terminated:
  assumes "length v = n" "take n b = v" "n + length t < length b"
  shows "\<exists>b1 b2. wr_bytes b n t = Inr b1 \<and> wr b1 (n + length t) NUL = Inr b2 \<and>
    length b2 = length b \<and> take (Suc (n + length t)) b2 = v @ t @ [NUL]"
  using assms by (simp add: wr_bytes_def wr_def take_Suc_nth)

lemma sdscatlen_ok [sds_rules]:
  assumes ok: "sds_ok s" and small: "sdslen s + len < 2 ^ 63" and t: "len \<le> length t"
  shows "\<exists>s'. sdscatlen junk s t len = Inr s' \<and> sds_ok s' \<and> sdsval s' = sdsval s @ take len t"
proof -
  from sdsMakeRoomFor_ok [OF ok small, of junk] obtain s1 where
    s1: "sdsMakeRoomFor junk s len = Inr s1" "sds_ok s1" "sdsval s1 = sdsval s" "sdslen s1 = sdslen s"
      "sdslen s + len \<le> sdsalloc s1" by blast
  let ?n = "sdslen s"
  have "length (sdsval s) = ?n" using ok by simp
  moreover have "take ?n (hdr_buf s1) = sdsval s" using s1 by (simp add: sdsval_def sdslen_def)
  moreover have "?n + length (take len t) < length (hdr_buf s1)" using s1 t by (simp add: sds_ok_def)
  ultimately obtain b1 b2 where b: "wr_bytes (hdr_buf s1) ?n (take len t) = Inr b1"
    "wr b1 (?n + len) NUL = Inr b2" "length b2 = length (hdr_buf s1)"
    "take (Suc (?n + len)) b2 = (sdsval s @ take len t) @ [NUL]"
    using wr_bytes_terminated [of "sdsval s" ?n "hdr_buf s1" "take len t"] t by auto
  have w: "(?n + len) mod 2 ^ sds_bits (hdr_type s1) = ?n + len" using s1 by (simp add: sds_ok_def)
  let ?s = "s1\<lparr>hdr_len := ?n + len, hdr_buf := b2\<rparr>"
  have "sdscatlen junk s t len = Inr ?s"
    using s1 b t w by (simp add: sdscatlen_def Let_def rd_bytes_def sdssetlen_def)
  moreover have "sdsalloc ?s = sdsalloc s1"
    using s1 by (auto simp: sdsalloc_def sdslen_def)
  then have "sds_ok ?s \<and> sdsval ?s = sdsval s @ take len t"
    using s1 b by (intro sds_okI) (simp_all add: sds_ok_def)
  ultimately show ?thesis by blast
qed

lemma sdsnewlen_ok [sds_rules]:
  assumes "initlen < 2 ^ 64"
  shows "initlen \<le> length t \<Longrightarrow>
      \<exists>s. sdsnewlen (Some t) initlen = Inr s \<and> sds_ok s \<and> sdsval s = take initlen t"
    and "\<exists>s. sdsnewlen None initlen = Inr s \<and> sds_ok s \<and> sdsval s = replicate initlen NUL"
proof -
  define type where "type = (if sdsReqType initlen = SDS_TYPE_5 \<and> initlen = 0 then SDS_TYPE_8 else sdsReqType initlen)"
  have w: "initlen < 2 ^ sds_bits type" using sdsReqType_fits [OF assms] by (auto simp: type_def)
  let ?mk = "\<lambda>body. \<lparr>hdr_type = type, hdr_len = initlen, hdr_alloc = initlen, hdr_buf = body @ [NUL]\<rparr>"
  have mk: "sds_ok (?mk body) \<and> sdsval (?mk body) = body" if "length body = initlen" for body
    using w that by (intro sds_okI) (auto simp: sdsalloc_def)
  show "\<exists>s. sdsnewlen (Some t) initlen = Inr s \<and> sds_ok s \<and> sdsval s = take initlen t"
    if "initlen \<le> length t"
    using that w mk [of "take initlen t"]
    by (simp add: sdsnewlen_def Let_def rd_bytes_def flip: type_def)
  show "\<exists>s. sdsnewlen None initlen = Inr s \<and> sds_ok s \<and> sdsval s = replicate initlen NUL"
    using w mk [of "replicate initlen NUL"] by (simp add: sdsnewlen_def Let_def flip: type_def)
qed

lemma sdsnew_ok [sds_rules]:
  "length t < 2 ^ 64 \<Longrightarrow> \<exists>s. sdsnew (Some t) = Inr s \<and> sds_ok s \<and> sdsval s = cstr t"
  using sdsnewlen_ok(1) [of "length (cstr t)" t] length_cstr_le [of t]
  by (auto simp: sdsnew_def cstr_def takeWhile_eq_take [symmetric])

lemma sdsempty_ok [sds_rules]: "\<exists>s. sdsempty = Inr s \<and> sds_ok s \<and> sdsval s = []"
  using sdsnewlen_ok(1) [of 0 "[]"] by (simp add: sdsempty_def)

lemma take_bufI: "sds_ok s \<Longrightarrow> take (sdslen s) (hdr_buf s) = sdsval s"
  by (simp add: sdsval_def sdslen_def)

lemma sdslen_le_buf: "sds_ok s \<Longrightarrow> sdslen s < length (hdr_buf s)"
  by (simp add: sds_ok_def sdslen_def)

lemma sdslen_less64: "sds_ok s \<Longrightarrow> sdslen s < 2 ^ 64"
  using sdslen_less sds_bits_le less_le_trans by blast

lemma sdsdup_ok [sds_rules]: "sds_ok s \<Longrightarrow> \<exists>s'. sdsdup s = Inr s' \<and> sds_ok s' \<and> sdsval s' = sdsval s"
  using sdsnewlen_ok(1) [of "sdslen s" "hdr_buf s"] sdslen_less64 [of s] sdslen_le_buf [of s]
  by (simp add: sdsdup_def take_bufI)

lemma sdsRemoveFreeSpace_ok [sds_rules]:
  "sds_ok s \<Longrightarrow> \<exists>s'. sdsRemoveFreeSpace junk s = Inr s' \<and> sds_ok s' \<and> sdsval s' = sdsval s \<and>
     sdsavail s' = 0"
  using sds_realloc_ok [of s "sdslen s" "sdsReqType (sdslen s)" junk] sdsReqType_fits [OF sdslen_less64]
  by (auto simp: sdsRemoveFreeSpace_def sdsavail_eq)

lemma sdscat_ok [sds_rules]:
  "sds_ok s \<Longrightarrow> sdslen s + length (cstr t) < 2 ^ 63 \<Longrightarrow>
    \<exists>s'. sdscat junk s t = Inr s' \<and> sds_ok s' \<and> sdsval s' = sdsval s @ cstr t"
  using sdscatlen_ok [of s "length (cstr t)" t junk] length_cstr_le [of t]
  by (simp add: sdscat_def cstr_def takeWhile_eq_take [symmetric])

lemma sdscatsds_ok [sds_rules]:
  "sds_ok s \<Longrightarrow> sds_ok t \<Longrightarrow> sdslen s + sdslen t < 2 ^ 63 \<Longrightarrow>
    \<exists>s'. sdscatsds junk s t = Inr s' \<and> sds_ok s' \<and> sdsval s' = sdsval s @ sdsval t"
  using sdscatlen_ok [of s "sdslen t" "hdr_buf t" junk] sdslen_le_buf [of t]
  by (simp add: sdscatsds_def take_bufI)

lemma sds_set_prefix:
  assumes ok: "sds_ok s" and n: "n \<le> sdsalloc s" and b: "length b = length (hdr_buf s)"
    "take (Suc n) b = v @ [NUL]"
  shows "sds_ok (sdssetlen (s\<lparr>hdr_buf := b\<rparr>) n) \<and> sdsval (sdssetlen (s\<lparr>hdr_buf := b\<rparr>) n) = v"
proof -
  have w: "n mod 2 ^ sds_bits (hdr_type s) = n" using ok n by (simp add: sds_ok_def)
  then show ?thesis using ok n b by (intro sds_okI) (auto simp: sdssetlen_def sds_ok_def sdsalloc_def)
qed

lemma sdsclear_ok [sds_rules]: "sds_ok s \<Longrightarrow> \<exists>s'. sdsclear s = Inr s' \<and> sds_ok s' \<and> sdsval s' = []"
proof -
  assume ok: "sds_ok s"
  have b: "wr (hdr_buf s) 0 NUL = Inr ((hdr_buf s)[0 := NUL])"
    using sdslen_le_buf [OF ok] by (cases "hdr_buf s") (auto simp: wr_def)
  have "take (Suc 0) ((hdr_buf s)[0 := NUL]) = [] @ [NUL]"
    using sdslen_le_buf [OF ok] by (cases "hdr_buf s") auto
  from sds_set_prefix [OF ok _ _ this] b show ?thesis
    by (simp add: sdsclear_def)
qed

lemma sdscpylen_ok [sds_rules]:
  assumes ok: "sds_ok s" and len: "len \<le> length t" "len < 2 ^ 63"
  shows "\<exists>s'. sdscpylen junk s t len = Inr s' \<and> sds_ok s' \<and> sdsval s' = take len t"
proof -
  obtain s1 where s1: "(if sdsalloc s < len then sdsMakeRoomFor junk s (to_uint64 (int len - int (sdslen s)))
      else Inr s) = Inr s1" "sds_ok s1" "len \<le> sdsalloc s1"
  proof (cases "sdsalloc s < len")
    case True
    then have le: "sdslen s \<le> len" using ok by (simp add: sds_ok_def sdslen_def)
    then have "to_uint64 (int len - int (sdslen s)) = len - sdslen s"
      using len to_uint64_of_nat [of "len - sdslen s"] by (simp add: of_nat_diff)
    with True le sdsMakeRoomFor_ok [OF ok, of "len - sdslen s" junk] len that show thesis by auto
  next
    case False
    with ok that show thesis by simp
  qed
  define b where "b = take len t @ NUL # drop (Suc len) (hdr_buf s1)"
  have fit: "len < length (hdr_buf s1)" using s1 by (simp add: sds_ok_def)
  have "rbind (wr_bytes (hdr_buf s1) 0 (take len t)) (\<lambda>b1. wr b1 len NUL) = Inr b"
    using fit len by (simp add: wr_bytes_def wr_def b_def list_update_append drop_nth_Cons)
  then obtain b1 where w: "wr_bytes (hdr_buf s1) 0 (take len t) = Inr b1" "wr b1 len NUL = Inr b" by auto
  have b: "length b = length (hdr_buf s1)" "take (Suc len) b = take len t @ [NUL]"
    using fit len by (simp_all add: b_def)
  have "sdscpylen junk s t len = Inr (sdssetlen (s1\<lparr>hdr_buf := b\<rparr>) len)"
    using s1 w len by (simp add: sdscpylen_def rd_bytes_def)
  with sds_set_prefix [OF s1(2,3) b] show ?thesis by blast
qed

lemma sds_room_eq: "sds_ok s \<Longrightarrow> hdr_type s \<noteq> SDS_TYPE_5 \<Longrightarrow> sds_room s = int (sdsavail s)"
  by (cases "hdr_type s")
     (auto simp: sds_room_def sdsavail_eq sds_ok_def sdsalloc_def sdslen_def of_nat_diff)

lemma sdsIncrLen_ok [sds_rules]:
  assumes ok: "sds_ok s" and incr: "0 \<le> incr" "nat incr \<le> sdsavail s" "hdr_type s \<noteq> SDS_TYPE_5"
  shows "\<exists>s'. sdsIncrLen s incr = Inr s' \<and> sds_ok s' \<and>
    sdsval s' = take (sdslen s + nat incr) (hdr_buf s) \<and> sdslen s' = sdslen s + nat incr"
proof -
  let ?n = "hdr_len s + nat incr"
  have n: "?n \<le> sdsalloc s" using ok incr(2) sdsavail_eq [OF ok] by (auto simp: sdslen_def sds_ok_def)
  have e: "int (hdr_len s) + incr = int ?n" using incr by simp
  have w: "nat ((int (hdr_len s) + incr) mod 2 ^ sds_bits (hdr_type s)) = ?n"
  proof -
    have "int ?n mod 2 ^ sds_bits (hdr_type s) = int (?n mod 2 ^ sds_bits (hdr_type s))"
      by (simp add: of_nat_mod)
    also have "?n mod 2 ^ sds_bits (hdr_type s) = ?n" using ok n by (simp add: sds_ok_def)
    finally show ?thesis unfolding e by (simp only: nat_int)
  qed
  have fit: "?n < length (hdr_buf s)" using ok n by (simp add: sds_ok_def)
  have "sds_room s \<ge> incr" using sds_room_eq [OF ok incr(3)] incr by simp
  then have "sdsIncrLen s incr = Inr (s\<lparr>hdr_len := ?n, hdr_buf := (hdr_buf s)[?n := NUL]\<rparr>)"
    using incr fit w by (simp add: sdsIncrLen_def Let_def wr_def)
  moreover have "sds_ok (s\<lparr>hdr_len := ?n, hdr_buf := (hdr_buf s)[?n := NUL]\<rparr>) \<and>
      sdsval (s\<lparr>hdr_len := ?n, hdr_buf := (hdr_buf s)[?n := NUL]\<rparr>) = take ?n (hdr_buf s)"
    using ok n fit incr by (intro sds_okI) (auto simp: sds_ok_def sdsalloc_def take_Suc_nth)
  ultimately show ?thesis by (auto simp: sdslen_def)
qed

lemma wr_prefix_terminated:
  assumes "length t < length b"
  shows "\<exists>b1 b2. wr_bytes b 0 t = Inr b1 \<and> wr b1 (length t) NUL = Inr b2 \<and>
    length b2 = length b \<and> take (Suc (length t)) b2 = t @ [NUL]"
  using assms by (simp add: wr_bytes_def wr_def take_Suc_nth)

lemma sdsgrowzero_ok [sds_rules]:
  assumes ok: "sds_ok s" and len: "len < 2 ^ 63"
  shows "\<exists>s'. sdsgrowzero junk s len = Inr s' \<and> sds_ok s' \<and>
    sdsval s' = sdsval s @ replicate (len - sdslen s) NUL"
proof (cases "len \<le> sdslen s")
  case True
  with ok show ?thesis by (simp add: sdsgrowzero_def)
next
  case False
  let ?n = "sdslen s" and ?k = "len - sdslen s"
  obtain s1 where s1: "sdsMakeRoomFor junk s ?k = Inr s1" "sds_ok s1" "sdsval s1 = sdsval s"
    "sdslen s1 = ?n" "?n + ?k \<le> sdsalloc s1"
    using sdsMakeRoomFor_ok [OF ok, of ?k junk] False len by auto
  define b where "b = take ?n (hdr_buf s1) @ replicate (?k + 1) NUL @ drop (?n + (?k + 1)) (hdr_buf s1)"
  have fit: "?n + (?k + 1) \<le> length (hdr_buf s1)" using s1 by (simp add: sds_ok_def)
  have "wr_bytes (hdr_buf s1) ?n (replicate (?k + 1) NUL) = Inr b"
    using fit by (simp add: wr_bytes_def b_def)
  then have "sdsgrowzero junk s len = Inr (sdssetlen (s1\<lparr>hdr_buf := b\<rparr>) len)"
    using s1 False by (simp add: sdsgrowzero_def Let_def)
  moreover have "length b = length (hdr_buf s1)" using fit by (simp add: b_def)
  moreover have "take ?n (hdr_buf s1) = sdsval s" using s1 by (simp add: sdsval_def sdslen_def)
  then have "take (Suc len) b = (sdsval s @ replicate ?k NUL) @ [NUL]"
    using fit False ok by (simp add: b_def replicate_append_same Suc_diff_le)
  ultimately show ?thesis
    using sds_set_prefix [OF s1(2), of len b "sdsval s @ replicate ?k NUL"] s1(5) False by auto
qed

lemma rev_dropWhile_rev:
  "rev (dropWhile P (rev xs)) = take (length xs - length (takeWhile P (rev xs))) xs"
  by (simp add: dropWhile_eq_drop rev_drop)

lemma sdstrim_ok [sds_rules]:
  fixes cset :: string
  defines "incs \<equiv> \<lambda>c. c \<in> set (cstr cset) \<or> c = NUL"
  assumes ok: "sds_ok s"
  shows "\<exists>s'. sdstrim s cset = Inr s' \<and> sds_ok s' \<and>
    sdsval s' = rev (dropWhile incs (rev (dropWhile incs (sdsval s))))"
proof -
  let ?v = "sdsval s"
  define left where "left = length (takeWhile incs ?v)"
  define right where "right = length (takeWhile incs (rev (drop (Suc left) ?v)))"
  define len where "len = (if left \<ge> length ?v then 0 else length ?v - left - right)"
  have body: "take len (drop left ?v) = rev (dropWhile incs (rev (dropWhile incs ?v)))"
  proof (cases "left \<ge> length ?v")
    case True
    then have "takeWhile incs ?v = ?v" unfolding left_def
      by (metis length_takeWhile_le le_antisym take_all takeWhile_eq_take)
    then have "dropWhile incs ?v = []" by (simp add: takeWhile_eq_all_conv)
    then show ?thesis using True by (simp only: len_def if_True take_0) simp
  next
    case False
    then have d: "dropWhile incs ?v = ?v ! left # drop (Suc left) ?v"
      by (simp add: left_def dropWhile_eq_drop drop_nth_Cons)
    have "\<not> incs (?v ! left)"
      using False nth_length_takeWhile [of incs ?v] by (simp add: left_def)
    then have "rev (dropWhile incs (rev (dropWhile incs ?v))) =
        ?v ! left # rev (dropWhile incs (rev (drop (Suc left) ?v)))"
      unfolding d by (simp add: dropWhile_append)
    also have "rev (dropWhile incs (rev (drop (Suc left) ?v))) = take (length ?v - Suc left - right) (drop (Suc left) ?v)"
      unfolding right_def rev_dropWhile_rev by simp
    also have "?v ! left # \<dots> = take len (drop left ?v)"
    proof -
      have "right \<le> length ?v - Suc left" unfolding right_def
        by (metis length_drop length_rev length_takeWhile_le)
      then have "len = Suc (length ?v - Suc left - right)" using False by (simp add: len_def)
      then show ?thesis using False by (simp add: drop_nth_Cons)
    qed
    finally show ?thesis ..
  qed
  have "left \<le> sdslen s" using length_takeWhile_le [of incs ?v] ok by (simp add: left_def)
  then have le: "left + len \<le> sdslen s" using ok by (auto simp: len_def)
  then have rdb: "rd_bytes (hdr_buf s) left len = Inr (take len (drop left ?v))"
    using sdslen_le_buf [OF ok]
    by (simp add: rd_bytes_def sdsval_def sdslen_def drop_take min_def)
  have l: "length (take len (drop left ?v)) = len" using le ok by simp
  obtain b1 b2 where b: "wr_bytes (hdr_buf s) 0 (take len (drop left ?v)) = Inr b1" "wr b1 len NUL = Inr b2"
    "length b2 = length (hdr_buf s)" "take (Suc len) b2 = take len (drop left ?v) @ [NUL]"
    using wr_prefix_terminated [of "take len (drop left ?v)" "hdr_buf s"] l le sdslen_le_buf [OF ok] by auto
  have "sdstrim s cset = Inr (sdssetlen (s\<lparr>hdr_buf := b2\<rparr>) len)"
    unfolding sdstrim_def Let_def incs_def [symmetric] take_bufI [OF ok]
      left_def [symmetric] right_def [symmetric] len_def [symmetric] using rdb b by simp
  moreover have "len \<le> sdsalloc s" using le ok by (simp add: sds_ok_def sdslen_def)
  ultimately show ?thesis using sds_set_prefix [OF ok _ b(3,4)] body by auto
qed

text \<open>The two ranges the program asks for: dropping a prefix, and keeping everything.\<close>

lemma sdsrange_suffix [sds_rules]:
  assumes ok: "sds_ok s" and small: "sdslen s < 2 ^ 31" and pos: "pos < 2 ^ 31"
  shows "\<exists>s'. sdsrange s (int pos) (-1) = Inr s' \<and> sds_ok s' \<and> sdsval s' = drop pos (sdsval s)"
proof (cases "sdslen s = 0")
  case True
  with ok show ?thesis by (simp add: sdsrange_def sdsval_def sdslen_def)
next
  case False
  let ?l = "sdslen s"
  have i: "to_int32 (int ?l) = int ?l" "to_int32 (int ?l - 1) = int ?l - 1"
    using small False by (simp_all add: to_int32_id in_int32_def)
  define n where "n = ?l - pos"
  have body: "rd_bytes (hdr_buf s) pos n = Inr (drop pos (sdsval s))" if "pos < ?l"
    using that sdslen_le_buf [OF ok] by (simp add: rd_bytes_def sdsval_def sdslen_def n_def drop_take)
  obtain b where b: "sdsrange s (int pos) (-1) = Inr (sdssetlen (s\<lparr>hdr_buf := b\<rparr>) n)"
    "length b = length (hdr_buf s)" "take (Suc n) b = drop pos (sdsval s) @ [NUL]"
  proof (cases "pos < ?l \<and> 0 < pos")
    case True
    have l: "length (drop pos (sdsval s)) = n" using ok by (simp add: n_def)
    obtain b1 b2 where w: "wr_bytes (hdr_buf s) 0 (drop pos (sdsval s)) = Inr b1" "wr b1 n NUL = Inr b2"
      "length b2 = length (hdr_buf s)" "take (Suc n) b2 = drop pos (sdsval s) @ [NUL]"
      using wr_prefix_terminated [of "drop pos (sdsval s)" "hdr_buf s", unfolded l]
        le_less_trans [OF diff_le_self sdslen_le_buf [OF ok], of pos] by (auto simp: n_def)
    have nn: "nat (int ?l - int pos) = n" "int ?l - 1 - int pos + 1 = int ?l - int pos" by (simp_all add: n_def)
    show thesis
      by (rule that [OF _ w(3,4)])
         (use True False i small body w nn in
          \<open>simp add: sdsrange_def Let_def ck_int32_def in_int32_def\<close>)
  next
    case F: False
    have "take (Suc n) ((hdr_buf s)[n := NUL]) = drop pos (sdsval s) @ [NUL]"
      using F sdslen_le_buf [OF ok] ok
      by (auto simp: n_def take_Suc_nth sdsval_def sdslen_def not_less)
    moreover have "sdsrange s (int pos) (-1) = Inr (sdssetlen (s\<lparr>hdr_buf := (hdr_buf s)[n := NUL]\<rparr>) n)"
      using F False i small sdslen_le_buf [OF ok]
      by (auto simp: sdsrange_def Let_def ck_int32_def in_int32_def wr_def n_def not_less)
    ultimately show thesis by (intro that) simp_all
  qed
  moreover have "n \<le> sdsalloc s" using ok by (auto simp: sds_ok_def sdslen_def n_def)
  ultimately show ?thesis using sds_set_prefix [OF ok _ b(2,3)] by auto
qed

section \<open>Append buffers\<close>

text \<open>
  What the writers of replies and pages rely on: a byte buffer to which bytes are appended, with
  an invariant and the bytes it holds. Appending a sequence of chunks appends their
  concatenation, as long as the total stays below what the buffer can hold.
\<close>

fun put_all :: "('b \<Rightarrow> string \<Rightarrow> 'b res) \<Rightarrow> 'b \<Rightarrow> string list \<Rightarrow> 'b res" where
  "put_all put b [] = Inr b"
| "put_all put b (t # ts) = rbind (put b t) (\<lambda>b'. put_all put b' ts)"

locale append_buffer =
  fixes inv :: "'b \<Rightarrow> bool"
    and bytes :: "'b \<Rightarrow> string"
    and put :: "'b \<Rightarrow> string \<Rightarrow> 'b res"
    and cap :: nat
  assumes put_ok: "inv b \<Longrightarrow> length (bytes b) + length t < cap \<Longrightarrow>
    \<exists>b'. put b t = Inr b' \<and> inv b' \<and> bytes b' = bytes b @ t"
begin

lemma put_all_ok:
  "inv b \<Longrightarrow> length (bytes b) + length (concat ts) < cap \<Longrightarrow>
    \<exists>b'. put_all put b ts = Inr b' \<and> inv b' \<and> bytes b' = bytes b @ concat ts"
proof (induction ts arbitrary: b)
  case (Cons t ts)
  then obtain b1 where "put b t = Inr b1" "inv b1" "bytes b1 = bytes b @ t"
    using put_ok [of b t] by auto
  with Cons.IH [of b1] Cons.prems show ?case by auto
qed simp

end

lemma sdscat_bytes:
  "sds_ok s \<Longrightarrow> length (sdsval s) + length t < 2 ^ 63 \<Longrightarrow>
    \<exists>s'. sdscatlen junk s t (length t) = Inr s' \<and> sds_ok s' \<and> sdsval s' = sdsval s @ t"
  using sdscatlen_ok [of s "length t" t junk] by simp

interpretation sdsbuf: append_buffer sds_ok sdsval "\<lambda>s t. sdscatlen junk s t (length t)" "2 ^ 63" for junk
  by unfold_locales (rule sdscat_bytes)

section \<open>Properties\<close>

text \<open>
  C17. Appending to a well-formed dynamic string, whatever bytes the allocator leaves in the
  grown block, never writes outside the block and gives a well-formed string that holds the old bytes
  followed by the new ones; the header it ends with is wide enough for the new length and allocation.
\<close>

theorem sdscatlen_appends:
  assumes "sds_ok s" and "sdslen s + len < 2 ^ 63" and "len \<le> length t"
  shows "\<exists>s'. sdscatlen junk s t len = Inr s' \<and> sds_ok s' \<and> sdsval s' = sdsval s @ take len t \<and>
    sdslen s' = sdslen s + len"
proof -
  from sdscatlen_ok [OF assms, of junk] obtain s' where
    s': "sdscatlen junk s t len = Inr s'" "sds_ok s'" "sdsval s' = sdsval s @ take len t" by blast
  then have "sdslen s' = sdslen s + len" using assms by (metis length_append length_sdsval length_take min_absorb2)
  with s' show ?thesis by blast
qed

theorem sdscatlen_appends_witness:
  "\<exists>s s'. sdsnewlen (Some ''ab'') 2 = Inr s \<and> sdscatlen (\<lambda>_. CHR ''?'') s ''cde'' 3 = Inr s' \<and> sdsval s' = ''abcde''"
proof -
  obtain s where s: "sdsnewlen (Some ''ab'') 2 = Inr s" "sds_ok s" "sdsval s = ''ab''"
    using sdsnewlen_ok(1) [of 2 "''ab''"] by auto
  then have "sdslen s = 2" using length_sdsval [of s] by simp
  with s sdscatlen_appends [of s 3 "''cde''" "\<lambda>_. CHR ''?''"] show ?thesis by auto
qed



end
