(* ===== verification/SdsText.thy ===== *)
theory SdsText
  imports Sds
begin

text \<open>
  The text functions of \<open>src/redis-3.2.5/src/sds.c\<close>, over the bytes a string holds: printing
  integers (\<open>sdsll2str\<close>, \<open>sdsull2str\<close>, \<open>sdsfromlonglong\<close>), formatting (\<open>sdscatfmt\<close>),
  comparing, case mapping, splitting on a separator and joining (\<open>sdssplitlen\<close>,
  \<open>sdsjoinsds\<close>), and the quoted notation of requests (\<open>sdscatrepr\<close>, \<open>sdssplitargs\<close>).
  Every append in them is \<open>sdscatlen\<close>, whose effect on the bytes is \<open>Sds.sdscatlen_ok\<close>.
\<close>

section \<open>Integers\<close>

fun rdigits :: "nat \<Rightarrow> string" where
  "rdigits v = digit_char (v mod 10) # (if v div 10 = 0 then [] else rdigits (v div 10))"

declare rdigits.simps [simp del]

text \<open>The two-pointer loop that reverses the digits in place.\<close>

function rev_loop :: "nat \<Rightarrow> nat \<Rightarrow> string \<Rightarrow> string" where
  "rev_loop i j b = (if i < j then rev_loop (Suc i) (j - 1) (b[i := b ! j, j := b ! i]) else b)"
  by pat_completeness auto
termination
  by (relation "measure (\<lambda>(i, j, b). j - i)") auto

declare rev_loop.simps [simp del]

definition sdsll2str :: "int \<Rightarrow> string res" where
  "sdsll2str value =
     rbind (if value < 0 then ck_int64 (- value) else Inr value) (\<lambda>v.
     let p = rdigits (nat v) @ (if value < 0 then ''-'' else []) in
     Inr (rev_loop 0 (length p - 1) p))"

definition sdsull2str :: "nat \<Rightarrow> string" where
  "sdsull2str v = (let p = rdigits v in rev_loop 0 (length p - 1) p)"

definition sdsfromlonglong :: "int \<Rightarrow> string res" where
  "sdsfromlonglong value = sdsll2str value"

section \<open>Formatting\<close>

datatype fmtarg = FStr string | FSds string | FInt int | FLong int | FUInt nat | FULong nat

definition fmt_text :: "char \<Rightarrow> fmtarg \<Rightarrow> string res" where
  "fmt_text nxt a =
     (case a of
        FStr t \<Rightarrow> if nxt = CHR ''s'' then Inr (cstr t) else Inl UninitRead
      | FSds t \<Rightarrow> if nxt = CHR ''S'' then Inr t else Inl UninitRead
      | FInt n \<Rightarrow> if nxt = CHR ''i'' then sdsll2str n else Inl UninitRead
      | FLong n \<Rightarrow> if nxt = CHR ''I'' then sdsll2str n else Inl UninitRead
      | FUInt n \<Rightarrow> if nxt = CHR ''u'' then Inr (sdsull2str n) else Inl UninitRead
      | FULong n \<Rightarrow> if nxt = CHR ''U'' then Inr (sdsull2str n) else Inl UninitRead)"

text \<open>
  The loop of \<open>sdscatfmt\<close>. A percent sign as the last byte makes the code append the terminator
  and then step over it, past the end of the format.
\<close>

fun sdscatfmt :: "string \<Rightarrow> string \<Rightarrow> fmtarg list \<Rightarrow> string res" where
  "sdscatfmt s [] args = Inr s"
| "sdscatfmt s (f # fs) args =
     (if f = CHR ''%'' then
        (case fs of
           [] \<Rightarrow> Inl OutOfBounds
         | nxt # fs' \<Rightarrow>
             if nxt \<in> set ''sSiIuU'' then
               (case args of
                  [] \<Rightarrow> Inl UninitRead
                | a # args' \<Rightarrow> rbind (fmt_text nxt a) (\<lambda>t. sdscatfmt (s @ t) fs' args'))
             else sdscatfmt (s @ [nxt]) fs' args)
      else sdscatfmt (s @ [f]) fs args)"

section \<open>Comparing and mapping\<close>

fun memcmp :: "string \<Rightarrow> string \<Rightarrow> int" where
  "memcmp (a # as) (b # bs) = (if a = b then memcmp as bs else int (byte_val a) - int (byte_val b))"
| "memcmp _ _ = 0"

definition sdscmp :: "string \<Rightarrow> string \<Rightarrow> int" where
  "sdscmp s1 s2 =
     (let l1 = length s1; l2 = length s2; minlen = (if l1 < l2 then l1 else l2);
          cmp = memcmp (take minlen s1) (take minlen s2)
      in if cmp = 0 then to_int32 (int l1 - int l2) else cmp)"

definition sdstolower :: "string \<Rightarrow> string" where
  "sdstolower s = map tolower s"

definition sdstoupper :: "string \<Rightarrow> string" where
  "sdstoupper s = map toupper s"

fun mapchar :: "string \<Rightarrow> string \<Rightarrow> char \<Rightarrow> char" where
  "mapchar (f # from) (t # to) c = (if c = f then t else mapchar from to c)"
| "mapchar _ _ c = c"

definition sdsmapchars :: "string \<Rightarrow> string \<Rightarrow> string \<Rightarrow> nat \<Rightarrow> string" where
  "sdsmapchars s from to setlen = map (mapchar (take setlen from) (take setlen to)) s"

section \<open>Splitting and joining\<close>

text \<open>
  The loop of \<open>sdssplitlen\<close>: \<open>tokens\<close> are the elements stored so far, \<open>slots\<close> the capacity of
  the array; storing an element outside the array is a fault.
\<close>

definition put_token :: "nat \<Rightarrow> string list \<Rightarrow> string \<Rightarrow> string list res" where
  "put_token slots tokens t = (if length tokens < slots then Inr (tokens @ [t]) else Inl OutOfBounds)"

function split_loop :: "string \<Rightarrow> string \<Rightarrow> nat \<Rightarrow> nat \<Rightarrow> nat \<Rightarrow> string list \<Rightarrow> string list res" where
  "split_loop s sep slots start j tokens =
     (if sep \<noteq> [] \<and> j + (length sep - 1) < length s then
        (let slots' = (if slots < length tokens + 2 then slots * 2 else slots) in
         if take (length sep) (drop j s) = sep then
           rbind (put_token slots' tokens (take (j - start) (drop start s))) (\<lambda>tokens'.
           split_loop s sep slots' (j + length sep) (j + length sep) tokens')
         else split_loop s sep slots' start (Suc j) tokens)
      else put_token slots tokens (drop start s))"
  by pat_completeness auto
termination
  by (relation "measure (\<lambda>(s, sep, slots, start, j, tokens). length s - j)")
     (auto simp: neq_Nil_conv)

declare split_loop.simps [simp del]

definition sdssplitlen :: "string \<Rightarrow> string \<Rightarrow> string list option res" where
  "sdssplitlen s sep =
     (if length sep < 1 then Inr None
      else if length s = 0 then Inr (Some [])
      else rbind (split_loop s sep 5 0 0 []) (\<lambda>tokens. Inr (Some tokens)))"

fun join_loop :: "string \<Rightarrow> string list \<Rightarrow> string \<Rightarrow> string" where
  "join_loop join [] sep = join"
| "join_loop join [a] sep = join @ a"
| "join_loop join (a # b # as) sep = join_loop (join @ a @ sep) (b # as) sep"

definition sdsjoinsds :: "string list \<Rightarrow> string \<Rightarrow> string" where
  "sdsjoinsds argv sep = join_loop [] argv sep"

definition sdsjoin :: "string list \<Rightarrow> string \<Rightarrow> string" where
  "sdsjoin argv sep = join_loop [] (map cstr argv) (cstr sep)"

section \<open>Quoted notation\<close>

definition hexdigit :: "nat \<Rightarrow> char" where
  "hexdigit d = (if d < 10 then char_of (48 + d) else char_of (87 + d))"

definition repr_char :: "char \<Rightarrow> string" where
  "repr_char c =
     (if c = CHR 0x5C \<or> c = CHR 0x22 then [CHR 0x5C, c]
      else if c = LF then [CHR 0x5C, CHR ''n'']
      else if c = CR then [CHR 0x5C, CHR ''r'']
      else if c = CHR 0x09 then [CHR 0x5C, CHR ''t'']
      else if c = CHR 0x07 then [CHR 0x5C, CHR ''a'']
      else if c = CHR 0x08 then [CHR 0x5C, CHR ''b'']
      else if isprint c then [c]
      else [CHR 0x5C, CHR ''x'', hexdigit (byte_val c div 16), hexdigit (byte_val c mod 16)])"

definition sdscatrepr :: "string \<Rightarrow> string \<Rightarrow> string" where
  "sdscatrepr s p = s @ [CHR 0x22] @ concat (map repr_char p) @ [CHR 0x22]"

definition is_hex_digit :: "char \<Rightarrow> bool" where
  "is_hex_digit c \<longleftrightarrow>
     (48 \<le> byte_val c \<and> byte_val c \<le> 57) \<or> (97 \<le> byte_val c \<and> byte_val c \<le> 102) \<or>
     (65 \<le> byte_val c \<and> byte_val c \<le> 70)"

definition hex_digit_to_int :: "char \<Rightarrow> nat" where
  "hex_digit_to_int c =
     (let v = byte_val c in
      if 48 \<le> v \<and> v \<le> 57 then v - 48
      else if 97 \<le> v \<and> v \<le> 102 then v - 87
      else if 65 \<le> v \<and> v \<le> 70 then v - 55
      else 0)"

text \<open>The byte at an offset of a C string, the terminator at its end.\<close>

definition peek :: "string \<Rightarrow> nat \<Rightarrow> char" where
  "peek p i = (if i < length p then p ! i else NUL)"

datatype quoting = Plain | InQ | InSQ

definition unescape :: "char \<Rightarrow> char" where
  "unescape c =
     (if c = CHR ''n'' then LF
      else if c = CHR ''r'' then CR
      else if c = CHR ''t'' then CHR 0x09
      else if c = CHR ''b'' then CHR 0x08
      else if c = CHR ''a'' then CHR 0x07
      else c)"

text \<open>
  The inner \<open>while\<close> loop, which reads one token: \<open>None\<close> is the jump to \<open>err\<close>, otherwise the
  token and the rest of the line.
\<close>

function splitargs_token :: "quoting \<Rightarrow> string \<Rightarrow> string \<Rightarrow> (string \<times> string) option" where
  "splitargs_token InQ p current =
     (if peek p 0 = CHR 0x5C \<and> peek p 1 = CHR ''x'' \<and> is_hex_digit (peek p 2) \<and> is_hex_digit (peek p 3)
      then splitargs_token InQ (drop 4 p)
             (current @ [char_of (hex_digit_to_int (peek p 2) * 16 + hex_digit_to_int (peek p 3))])
      else if peek p 0 = CHR 0x5C \<and> peek p 1 \<noteq> NUL
      then splitargs_token InQ (drop 2 p) (current @ [unescape (peek p 1)])
      else if peek p 0 = CHR 0x22
      then (if peek p 1 \<noteq> NUL \<and> \<not> isspace (peek p 1) then None else Some (current, drop 1 p))
      else if p = [] then None
      else splitargs_token InQ (drop 1 p) (current @ [peek p 0]))"
| "splitargs_token InSQ p current =
     (if peek p 0 = CHR 0x5C \<and> peek p 1 = CHR 0x27
      then splitargs_token InSQ (drop 2 p) (current @ [CHR 0x27])
      else if peek p 0 = CHR 0x27
      then (if peek p 1 \<noteq> NUL \<and> \<not> isspace (peek p 1) then None else Some (current, drop 1 p))
      else if p = [] then None
      else splitargs_token InSQ (drop 1 p) (current @ [peek p 0]))"
| "splitargs_token Plain p current =
     (if p = [] \<or> peek p 0 \<in> {CHR '' '', LF, CR, CHR 0x09} then Some (current, drop 1 p)
      else if peek p 0 = CHR 0x22 then splitargs_token InQ (drop 1 p) current
      else if peek p 0 = CHR 0x27 then splitargs_token InSQ (drop 1 p) current
      else splitargs_token Plain (drop 1 p) (current @ [peek p 0]))"
  by pat_completeness auto
termination
  by (relation "measure (\<lambda>(m, p, current). length p)") (auto simp: peek_def split: if_splits)

declare splitargs_token.simps [simp del]

lemma splitargs_token_shorter:
  "splitargs_token m p current = Some (t, rest) \<Longrightarrow> length rest \<le> length p \<and> (p \<noteq> [] \<longrightarrow> length rest < length p)"
proof (induction m p current rule: splitargs_token.induct)
  case (1 p current)
  then show ?case by (subst (asm) splitargs_token.simps(1)) (cases p, auto simp: peek_def split: if_splits)
next
  case (2 p current)
  then show ?case by (subst (asm) splitargs_token.simps(2)) (cases p, auto simp: peek_def split: if_splits)
next
  case (3 p current)
  then show ?case by (subst (asm) splitargs_token.simps(3)) (cases p, auto simp: peek_def split: if_splits)
qed

function splitargs_loop :: "string \<Rightarrow> string list \<Rightarrow> string list option" where
  "splitargs_loop p vector =
     (let p' = dropWhile isspace p in
      if p' = [] then Some vector
      else
        (case splitargs_token Plain p' [] of
           None \<Rightarrow> None
         | Some (current, rest) \<Rightarrow> splitargs_loop rest (vector @ [current])))"
  by pat_completeness auto
termination
  by (relation "measure (\<lambda>(p, vector). length p)")
     (auto dest!: splitargs_token_shorter intro: less_le_trans [OF _ length_dropWhile_le])

declare splitargs_loop.simps [simp del]

definition sdssplitargs :: "string \<Rightarrow> string list option" where
  "sdssplitargs line = splitargs_loop (cstr line) []"

section \<open>Properties\<close>

lemma rev_loop_mid:
  "rev_loop (length xs) (length xs + length m - 1) (xs @ m @ zs) = xs @ rev m @ zs"
proof (induction m arbitrary: xs zs rule: length_induct)
  case (1 m)
  consider "m = []" | x where "m = [x]" | x mid y where "m = x # mid @ [y]"
    by (metis append_butlast_last_id neq_Nil_conv)
  then show ?case
  proof cases
    case 3
    let ?i = "length xs" and ?j = "length xs + length m - 1" and ?b = "xs @ m @ zs"
    have j: "?j = length (xs @ x # mid)" using 3 by simp
    have bj: "?b ! ?j = y" unfolding j 3 by (simp add: nth_append)
    have bi: "?b ! ?i = x" unfolding 3 by simp
    have "?b[?i := y, ?j := x] = (xs @ y # mid) @ x # zs"
    proof -
      have "?b[?i := y] = (xs @ y # mid) @ y # zs" unfolding 3 by simp
      moreover have "?j = length (xs @ y # mid)" using j by simp
      ultimately show ?thesis by (simp only: list_update_length)
    qed
    then have "rev_loop ?i ?j ?b = rev_loop (Suc ?i) (?j - 1) ((xs @ [y]) @ mid @ (x # zs))"
      unfolding rev_loop.simps [of ?i ?j ?b] bi bj using 3 by simp
    also have "\<dots> = (xs @ [y]) @ rev mid @ x # zs"
      using "1.IH" [rule_format, of mid "xs @ [y]" "x # zs"] 3 by simp
    finally show ?thesis using 3 by simp
  next
    case 1
    have "\<not> length xs < length xs - 1" by linarith
    with 1 show ?thesis by (simp add: rev_loop.simps)
  qed (simp add: rev_loop.simps)
qed

lemma rev_loop_rev: "rev_loop 0 (length m - 1) m = rev m"
  using rev_loop_mid [of "[]" m "[]"] by simp

lemma rev_rdigits: "rev (rdigits v) = dec v"
proof (induction v rule: rdigits.induct)
  case (1 v)
  show ?case
  proof (cases "v < 10")
    case True
    then show ?thesis by (simp add: rdigits.simps [of v] dec.simps [of v])
  next
    case False
    then have "v div 10 \<noteq> 0" by (simp add: div_eq_0_iff)
    with 1 False show ?thesis by (simp add: rdigits.simps [of v] dec.simps [of v])
  qed
qed

lemma sdsll2str_deci: "in_int64 value \<Longrightarrow> value \<noteq> - (2 ^ 63) \<Longrightarrow> sdsll2str value = Inr (deci value)"
  by (auto simp: sdsll2str_def ck_int64_def in_int64_def Let_def rev_loop_rev [unfolded One_nat_def] rev_rdigits deci_def)

lemma sdsll2str_min: "sdsll2str (- (2 ^ 63)) = Inl IntOverflow"
  by (simp add: sdsll2str_def ck_int64_def in_int64_def)

lemma sdsull2str_dec: "sdsull2str v = dec v"
  by (simp add: sdsull2str_def Let_def rev_loop_rev [unfolded One_nat_def] rev_rdigits)

lemma memcmp_zero: "length a = length b \<Longrightarrow> memcmp a b = 0 \<longleftrightarrow> a = b"
  by (induction a b rule: memcmp.induct) (auto simp: byte_val_inject)

lemma memcmp_sym: "memcmp a b = - memcmp b a"
  by (induction a b rule: memcmp.induct) auto

lemma sdscmp_zero:
  assumes "length a < 2 ^ 31" and "length b < 2 ^ 31"
  shows "sdscmp a b = 0 \<longleftrightarrow> a = b"
proof -
  have i: "to_int32 (int (length a) - int (length b)) = int (length a) - int (length b)"
    using assms by (intro to_int32_id) (simp add: in_int32_def)
  show ?thesis
  proof (cases "length a = length b")
    case True
    then show ?thesis using i by (simp add: sdscmp_def Let_def memcmp_zero)
  next
    case False
    then show ?thesis by (auto simp: sdscmp_def Let_def i)
  qed
qed

lemma join_loop_acc: "join_loop j ts sep = j @ join_loop [] ts sep"
proof (induction ts arbitrary: j)
  case (Cons a ts)
  show ?case
  proof (cases ts)
    case (Cons b bs)
    then show ?thesis using Cons.IH [of "j @ a @ sep"] Cons.IH [of "a @ sep"] by simp
  qed simp
qed simp

lemma sdsjoinsds_simps [simp]:
  "sdsjoinsds [] sep = []"
  "sdsjoinsds [a] sep = a"
  "sdsjoinsds (a # b # as) sep = a @ sep @ sdsjoinsds (b # as) sep"
  using join_loop_acc [of "a @ sep" "b # as" sep] by (simp_all add: sdsjoinsds_def)

lemma sdsjoinsds_snoc: "sdsjoinsds (ts @ [t]) sep = concat (map (\<lambda>t. t @ sep) ts) @ t"
proof (induction ts)
  case (Cons a ts)
  then show ?case by (cases ts) auto
qed simp

lemma split_loop_correct:
  assumes "sep \<noteq> []" "length tokens < slots" "start \<le> j" "start \<le> length s"
    "concat (map (\<lambda>t. t @ sep) tokens) @ drop start s = s"
    "\<forall>k. start \<le> k \<and> k < j \<longrightarrow> \<not> prefix sep (drop k s)" "\<forall>t \<in> set tokens. \<not> sublist sep t"
  shows "\<exists>ts. split_loop s sep slots start j tokens = Inr ts \<and> ts \<noteq> [] \<and>
    sdsjoinsds ts sep = s \<and> (\<forall>t \<in> set ts. \<not> sublist sep t)"
  using assms
proof (induction s sep slots start j tokens rule: split_loop.induct)
  case (1 s sep slots start j tokens)
  define slots' where "slots' = (if slots < length tokens + 2 then slots * 2 else slots)"
  have sl: "length tokens + 1 < slots'" using "1.prems"(2) by (auto simp: slots'_def)
  consider (hit) "j + (length sep - 1) < length s" "take (length sep) (drop j s) = sep"
    | (miss) "j + (length sep - 1) < length s" "take (length sep) (drop j s) \<noteq> sep"
    | (fin) "\<not> j + (length sep - 1) < length s" by blast
  then show ?case
  proof cases
    case hit
    let ?t = "take (j - start) (drop start s)"
    have seg: "drop start s = ?t @ sep @ drop (j + length sep) s"
    proof -
      have "drop start s = ?t @ drop j s" using "1.prems"(3)
        by (metis append_take_drop_id drop_drop le_add_diff_inverse2)
      moreover have "drop j s = sep @ drop (j + length sep) s"
        using hit(2) by (metis append_take_drop_id drop_drop add.commute)
      ultimately show ?thesis by simp
    qed
    have free: "\<not> sublist sep ?t"
    proof
      assume "sublist sep ?t"
      then obtain a b where ab: "?t = a @ sep @ b" by (auto simp: sublist_def)
      then have "length a < j - start" using "1.prems"(1)
        by (metis length_append length_greater_0_conv length_take less_add_same_cancel1 add_pos_nonneg min.strict_boundedE trans_less_add1 zero_le nat_add_left_cancel_less add_0_right)
      moreover have "prefix sep (drop (start + length a) s)"
      proof -
        have "drop start s = a @ sep @ b @ drop j s" using ab "1.prems"(3)
          by (metis append.assoc append_take_drop_id drop_drop le_add_diff_inverse2)
        then have "drop (length a) (drop start s) = sep @ b @ drop j s" by simp
        then show ?thesis by (simp add: add.commute prefixI)
      qed
      ultimately show False using "1.prems"(6) by (metis add.commute le_add1 less_diff_conv)
    qed
    have put: "put_token slots' tokens ?t = Inr (tokens @ [?t])" using sl by (simp add: put_token_def)
    have "split_loop s sep slots start j tokens =
        split_loop s sep slots' (j + length sep) (j + length sep) (tokens @ [?t])"
      unfolding split_loop.simps [of s sep slots start] Let_def slots'_def [symmetric] using hit "1.prems"(1) put by simp
    moreover have "j + length sep \<le> length s" using hit(1) "1.prems"(1) by (cases sep) auto
    ultimately show ?thesis
      using "1.IH"(1) [OF _ slots'_def hit(2) put] hit(1) "1.prems" sl seg free by auto
  next
    case miss
    then have "\<not> prefix sep (drop j s)" by (metis append_eq_conv_conj prefix_def)
    then have "\<forall>k. start \<le> k \<and> k < Suc j \<longrightarrow> \<not> prefix sep (drop k s)"
      using "1.prems"(6) by (auto simp: less_Suc_eq)
    moreover have "split_loop s sep slots start j tokens = split_loop s sep slots' start (Suc j) tokens"
      unfolding split_loop.simps [of s sep slots start j] Let_def slots'_def [symmetric] using miss "1.prems"(1) by simp
    ultimately show ?thesis
      using "1.IH"(2) [OF _ slots'_def miss(2)] miss(1) "1.prems" sl by auto
  next
    case fin
    have "split_loop s sep slots start j tokens = Inr (tokens @ [drop start s])"
      using fin "1.prems"(1,2) by (subst split_loop.simps) (simp add: put_token_def)
    moreover have "\<not> sublist sep (drop start s)"
    proof
      assume "sublist sep (drop start s)"
      then obtain a b where ab: "drop start s = a @ sep @ b" by (auto simp: sublist_def)
      then have "prefix sep (drop (start + length a) s)"
        by (metis add.commute append_eq_conv_conj drop_drop prefixI)
      moreover have "start + length a + length sep \<le> length s"
        using arg_cong [OF ab, of length] "1.prems"(4) by simp
      then have "start + length a < j" using fin "1.prems"(1) by (cases sep) auto
      ultimately show False using "1.prems"(6) by auto
    qed
    ultimately show ?thesis using "1.prems"(5,7) by (auto simp: sdsjoinsds_snoc)
  qed
qed

lemma sdssplitlen_join:
  assumes "s \<noteq> []" and "sep \<noteq> []"
  shows "\<exists>ts. sdssplitlen s sep = Inr (Some ts) \<and> sdsjoinsds ts sep = s \<and> (\<forall>t \<in> set ts. \<not> sublist sep t)"
  using split_loop_correct [of sep "[]" 5 0 0 s] assms by (auto simp: sdssplitlen_def Suc_le_eq)

subsection \<open>The quoted notation reads back\<close>

lemma hexdigit_facts:
  assumes "d < 16"
  shows "is_hex_digit (hexdigit d)" and "hex_digit_to_int (hexdigit d) = d"
  using assms by (auto simp: is_hex_digit_def hex_digit_to_int_def hexdigit_def Let_def)

lemma is_hex_digit_not_NUL: "is_hex_digit c \<Longrightarrow> c \<noteq> NUL"
  by (auto simp: is_hex_digit_def byte_val_def)

lemma peek_simps [simp]:
  "peek (c # p) 0 = c" "peek (c # p) (Suc i) = peek p i" "peek [] i = NUL"
  by (simp_all add: peek_def)

lemma peek_numerals [simp]:
  "peek (c # p) 1 = peek p 0" "peek (c # p) 2 = peek p 1" "peek (c # p) 3 = peek p 2"
  by (simp_all add: peek_def numeral_2_eq_2 numeral_3_eq_3)

lemma splitargs_token_repr_char:
  "splitargs_token InQ (repr_char c @ p) current = splitargs_token InQ p (current @ [c])"
proof -
  let ?h = "hexdigit (byte_val c div 16)" and ?l = "hexdigit (byte_val c mod 16)"
  have h: "is_hex_digit ?h" "is_hex_digit ?l"
    "char_of (hex_digit_to_int ?h * 16 + hex_digit_to_int ?l) = c"
    using byte_val_less [of c] by (simp_all add: hexdigit_facts)
  show ?thesis
    by (subst splitargs_token.simps(1)) (auto simp: repr_char_def h unescape_def)
qed

lemma splitargs_token_repr:
  assumes "rest = [] \<or> isspace (hd rest)" "rest = [] \<or> hd rest \<noteq> NUL"
  shows "splitargs_token InQ (concat (map repr_char s) @ CHR 0x22 # rest) current = Some (current @ s, rest)"
proof (induction s arbitrary: current)
  case Nil
  show ?case using assms by (subst splitargs_token.simps(1)) (cases rest, auto)
next
  case (Cons c s)
  then show ?case by (simp add: splitargs_token_repr_char)
qed

lemma repr_char_cstring: "is_cstring (repr_char c)"
proof -
  have "hexdigit (byte_val c div 16) \<noteq> NUL" "hexdigit (byte_val c mod 16) \<noteq> NUL"
    using hexdigit_facts(1) [THEN is_hex_digit_not_NUL] byte_val_less [of c] by simp_all
  moreover have "\<not> isprint NUL" by (simp add: isprint_def byte_val_def)
  ultimately show ?thesis by (cases "isprint c") (auto simp: repr_char_def)
qed

lemma sdscatrepr_cstring: "is_cstring (sdscatrepr [] s)"
proof -
  have "is_cstring (concat (map repr_char s))"
    by (induction s) (simp_all add: repr_char_cstring)
  then show ?thesis by (simp add: sdscatrepr_def)
qed

lemma splitargs_loop_repr:
  assumes "rest = [] \<or> isspace (hd rest)" "rest = [] \<or> hd rest \<noteq> NUL"
  shows "splitargs_loop (sdscatrepr [] a @ rest) vec = splitargs_loop rest (vec @ [a])"
proof -
  have "\<not> isspace (CHR 0x22)" by (simp add: isspace_def byte_val_def)
  moreover have "splitargs_token Plain (sdscatrepr [] a @ rest) [] = Some (a, rest)"
    using splitargs_token_repr [OF assms, of a "[]"]
    by (subst splitargs_token.simps(3)) (simp add: sdscatrepr_def)
  ultimately show ?thesis by (subst splitargs_loop.simps) (simp add: sdscatrepr_def Let_def)
qed

lemma splitargs_loop_space: "splitargs_loop (CHR '' '' # p) vec = splitargs_loop p vec"
proof -
  have "isspace (CHR '' '')" by (simp add: isspace_def)
  then show ?thesis unfolding splitargs_loop.simps [of "CHR '' '' # p"] splitargs_loop.simps [of p] by simp
qed

lemma splitargs_loop_line:
  "splitargs_loop (sdsjoinsds (map (sdscatrepr []) args) '' '') vec = Some (vec @ args)"
proof (induction args arbitrary: vec)
  case (Cons a args)
  show ?case
  proof (cases args)
    case Nil
    then show ?thesis using splitargs_loop_repr [of "[]" a vec] by (simp add: splitargs_loop.simps)
  next
    case (Cons b bs)
    have sp: "isspace (CHR '' '')" by (simp add: isspace_def)
    from Cons show ?thesis
      using splitargs_loop_repr [of "CHR '' '' # sdsjoinsds (map (sdscatrepr []) args) '' ''" a vec]
        Cons.IH [of "vec @ [a]"] sp by (simp add: splitargs_loop_space)
  qed
qed (simp add: splitargs_loop.simps)

lemma sdsjoinsds_cstring:
  "(\<And>t. t \<in> set ts \<Longrightarrow> is_cstring t) \<Longrightarrow> is_cstring sep \<Longrightarrow> is_cstring (sdsjoinsds ts sep)"
proof (induction ts)
  case (Cons a ts)
  then show ?case by (cases ts) auto
qed simp

lemma sdssplitargs_repr:
  "sdssplitargs (sdsjoinsds (map (sdscatrepr []) args) '' '') = Some args"
proof -
  have "is_cstring (sdsjoinsds (map (sdscatrepr []) args) '' '')"
    by (rule sdsjoinsds_cstring) (auto simp: sdscatrepr_cstring)
  then show ?thesis by (simp add: sdssplitargs_def cstr_id splitargs_loop_line)
qed





text \<open>
  C19. Any list of byte strings, quoted by \<open>sdscatrepr\<close> and joined by spaces, is read back
  by \<open>sdssplitargs\<close> exactly, so the notation loses no byte.
\<close>

theorem splitargs_roundtrip:
  "sdssplitargs (sdsjoinsds (map (sdscatrepr []) args) '' '') = Some args"
  by (rule sdssplitargs_repr)

end
