(* ===== verification/Helper.thy ===== *)
theory Helper
  imports SdsText
begin

text \<open>
  \<open>deps/blogd/helper.c\<close>: copying an argument vector, replacing every occurrence of a text,
  concatenating, cutting a file extension, reading a whole file. Fresh blocks hold the bytes of
  \<open>junk\<close>. A length that does not fit the \<open>int\<close> the source keeps it in is reported as a fault.
\<close>

section \<open>Operations\<close>

definition convertToSds :: "string list \<Rightarrow> sds list res" where
  "convertToSds args = rmap (\<lambda>a. sdsnew (Some a)) args"

text \<open>The counting loop of \<open>strReplace\<close>; the empty pattern is excluded before it.\<close>

function replace_count :: "string \<Rightarrow> string \<Rightarrow> nat" where
  "replace_count ins rep =
     (case strstr ins rep of
        None \<Rightarrow> 0
      | Some k \<Rightarrow> if rep = [] then 0 else Suc (replace_count (drop (k + length rep) ins) rep))"
  by pat_completeness auto
termination
  by (relation "measure (\<lambda>(ins, rep). length ins)") (auto simp: neq_Nil_conv dest!: strstr_Some)

declare replace_count.simps [simp del]

text \<open>The copying loop: \<open>tmp\<close> is the offset of the write pointer in the result block \<open>m\<close>.\<close>

fun replace_loop :: "nat \<Rightarrow> string \<Rightarrow> string \<Rightarrow> string \<Rightarrow> nat \<Rightarrow> string \<Rightarrow> (string \<times> nat \<times> string) res" where
  "replace_loop 0 rep w orig tmp m = Inr (orig, tmp, m)"
| "replace_loop (Suc count) rep w orig tmp m =
     rbind (deref (strstr orig rep)) (\<lambda>len_front.
     rbind (wr_bytes m tmp (take len_front orig)) (\<lambda>m1.
     rbind (wr_bytes m1 (tmp + len_front) (w @ [NUL])) (\<lambda>m2.
     replace_loop count rep w (drop (len_front + length rep) orig) (tmp + len_front + length w) m2)))"

definition strReplace :: "(nat \<Rightarrow> char) \<Rightarrow> string option \<Rightarrow> string option \<Rightarrow> string option \<Rightarrow> string option res" where
  "strReplace junk rep0 with0 orig0 =
     (if orig0 = None \<and> rep0 = None then Inr None
      else
        rbind (deref rep0) (\<lambda>rep.
        rbind (ck_int32 (int (length rep))) (\<lambda>len_rep.
        if len_rep = 0 then Inr None
        else
          (let w = (case with0 of None \<Rightarrow> [] | Some w \<Rightarrow> w) in
           rbind (ck_int32 (int (length w))) (\<lambda>len_with.
           rbind (deref orig0) (\<lambda>orig.
           rbind (ck_int32 (int (replace_count orig rep))) (\<lambda>count.
           rbind (ck_int32 (len_with - len_rep)) (\<lambda>d.
           rbind (ck_int32 (d * count)) (\<lambda>grow.
           rbind (replace_loop (nat count) rep w orig 0
                    (mem_resize junk (to_uint64 (int (length orig) + grow + 1)) [])) (\<lambda>(orig', tmp, m).
           rbind (wr_bytes m tmp (orig' @ [NUL])) (\<lambda>result.
           rbind (rd_cstr result 0) (\<lambda>s. Inr (Some s)))))))))))))"

definition stringConcat :: "(nat \<Rightarrow> char) \<Rightarrow> string \<Rightarrow> string \<Rightarrow> string res" where
  "stringConcat junk s1 s2 =
     (let result = mem_resize junk (to_uint64 (int (length s1) + int (length s2) + 1)) [] in
      rbind (wr_bytes result 0 s1) (\<lambda>r1.
      rbind (wr_bytes r1 (length s1) (s2 @ [NUL])) (\<lambda>r2.
      rd_cstr r2 0)))"

text \<open>\<open>strrchr\<close> also finds the terminator, hence the search in the terminated copy.\<close>

definition removeFileExt :: "string option \<Rightarrow> char \<Rightarrow> char \<Rightarrow> string option res" where
  "removeFileExt mystr dot sep =
     (case mystr of
        None \<Rightarrow> Inr None
      | Some s \<Rightarrow>
          let retstr = s @ [NUL];
              lastdot = strrchr retstr dot;
              lastsep = (if sep = NUL then None else strrchr retstr sep);
              cut = (\<lambda>d. rbind (wr retstr d NUL) (\<lambda>m. rbind (rd_cstr m 0) (\<lambda>t. Inr (Some t))))
          in case lastdot of
               None \<Rightarrow> Inr (Some s)
             | Some d \<Rightarrow>
                 (case lastsep of
                    Some p \<Rightarrow> if p < d then cut d else Inr (Some s)
                  | None \<Rightarrow> cut d))"

text \<open>\<open>fgets\<close> on the bytes not read yet: at most \<open>sz - 1\<close> of them, through the first newline.\<close>

definition fgets_len :: "nat \<Rightarrow> string \<Rightarrow> nat" where
  "fgets_len sz f = min (sz - 1) (case strchr f LF of None \<Rightarrow> length f | Some i \<Rightarrow> Suc i)"

function read_loop :: "(nat \<Rightarrow> char) \<Rightarrow> string \<Rightarrow> sds \<Rightarrow> sds res" where
  "read_loop junk f content =
     (if f = [] then Inr content
      else
        (let n = fgets_len (1024 + 1) f in
         rbind (sdscat junk content (take n f)) (\<lambda>content'. read_loop junk (drop n f) content')))"
  by pat_completeness auto
termination
  by (relation "measure (\<lambda>(junk, f, content). length f)") (auto simp: fgets_len_def split: option.splits)

declare read_loop.simps [simp del]

text \<open>The file is the bytes \<open>fopen\<close> gives access to, or nothing when it cannot be opened.\<close>

definition readFileContent :: "(nat \<Rightarrow> char) \<Rightarrow> string option \<Rightarrow> sds res" where
  "readFileContent junk file =
     rbind sdsempty (\<lambda>content.
     case file of None \<Rightarrow> Inr content | Some f \<Rightarrow> read_loop junk f content)"

text \<open>\<open>stat\<close> and \<open>mkdir\<close> are the system's, over its own file system state.\<close>

definition createDir :: "('fs \<Rightarrow> string \<Rightarrow> bool) \<Rightarrow> ('fs \<Rightarrow> string \<Rightarrow> nat \<Rightarrow> 'fs) \<Rightarrow> string \<Rightarrow> nat \<Rightarrow> 'fs \<Rightarrow> 'fs" where
  "createDir stat_ok mkdir path mode fs = (if \<not> stat_ok fs path then mkdir fs path mode else fs)"

section \<open>Replacement\<close>

text \<open>Reference: the leftmost occurrence is replaced, then the rest of the text.\<close>

function replace_all :: "string \<Rightarrow> string \<Rightarrow> string \<Rightarrow> string" where
  "replace_all rep w s =
     (case strstr s rep of
        None \<Rightarrow> s
      | Some k \<Rightarrow> if rep = [] then s else take k s @ w @ replace_all rep w (drop (k + length rep) s))"
  by pat_completeness auto
termination
  by (relation "measure (\<lambda>(rep, w, s). length s)") (auto simp: neq_Nil_conv dest!: strstr_Some)

declare replace_all.simps [simp del]

lemma replace_unfold:
  assumes "rep \<noteq> []"
  shows "strstr s rep = None \<Longrightarrow> replace_all rep w s = s"
    and "strstr s rep = None \<Longrightarrow> replace_count s rep = 0"
    and "strstr s rep = Some k \<Longrightarrow> replace_all rep w s = take k s @ w @ replace_all rep w (drop (k + length rep) s)"
    and "strstr s rep = Some k \<Longrightarrow> replace_count s rep = Suc (replace_count (drop (k + length rep) s) rep)"
  using assms by (simp_all add: replace_all.simps [of rep w s] replace_count.simps [of s rep])

lemma replace_all_length:
  assumes "rep \<noteq> []"
  shows "int (length (replace_all rep w s)) =
    int (length s) + (int (length w) - int (length rep)) * int (replace_count s rep)"
  using assms
proof (induction rep w s rule: replace_all.induct)
  case (1 rep w s)
  show ?case
  proof (cases "strstr s rep")
    case None
    with "1.prems" show ?thesis by (simp add: replace_unfold)
  next
    case (Some k)
    then have "k + length rep \<le> length s" by (auto dest: strstr_Some)
    with Some 1 show ?thesis by (simp add: replace_unfold(3,4) algebra_simps of_nat_diff)
  qed
qed

lemma replace_count_le: "rep \<noteq> [] \<Longrightarrow> replace_count s rep \<le> length s"
proof (induction s rep rule: replace_count.induct)
  case (1 s rep)
  show ?case
  proof (cases "strstr s rep")
    case None
    with "1.prems" show ?thesis by (simp add: replace_unfold)
  next
    case (Some k)
    then have "k + length rep \<le> length s" by (auto dest: strstr_Some)
    moreover have "0 < length rep" using "1.prems" by simp
    moreover have "replace_count (drop (k + length rep) s) rep \<le> length s - (k + length rep)"
      using "1.IH" [OF Some] "1.prems" by simp
    ultimately show ?thesis using Some "1.prems" unfolding replace_unfold(4) [OF "1.prems" Some] by linarith
  qed
qed

lemma is_cstring_replace_all: "is_cstring w \<Longrightarrow> is_cstring s \<Longrightarrow> is_cstring (replace_all rep w s)"
proof (induction rep w s rule: replace_all.induct)
  case (1 rep w s)
  show ?case
    using 1 by (subst replace_all.simps) (auto split: option.splits)
qed

text \<open>The copying loop fills exactly the part of the block before the rest of the text.\<close>

lemma replace_loop_correct:
  assumes "rep \<noteq> []" and "tmp + length (replace_all rep w s) < length m"
  shows "\<exists>s' tmp' m'. replace_loop (replace_count s rep) rep w s tmp m = Inr (s', tmp', m') \<and>
    length m' = length m \<and> tmp' + length s' = tmp + length (replace_all rep w s) \<and>
    take tmp' m' @ s' = take tmp m @ replace_all rep w s"
  using assms
proof (induction rep w s arbitrary: tmp m rule: replace_all.induct)
  case (1 rep w s)
  show ?case
  proof (cases "strstr s rep")
    case None
    with "1.prems" show ?thesis by (simp add: replace_unfold)
  next
    case (Some k)
    let ?r = "drop (k + length rep) s"
    have k: "k + length rep \<le> length s" using Some by (auto dest: strstr_Some)
    have fit: "tmp + k + length w + length (replace_all rep w ?r) < length m"
      using "1.prems" Some k by (simp add: replace_unfold(3))
    define m1 where "m1 = take tmp m @ take k s @ drop (tmp + k) m"
    define m2 where "m2 = take (tmp + k) m1 @ (w @ [NUL]) @ drop (tmp + k + length w + 1) m1"
    have m1: "wr_bytes m tmp (take k s) = Inr m1" using fit k by (simp add: wr_bytes_def m1_def)
    have l1: "length m1 = length m" using fit k by (simp add: m1_def)
    then have m2: "wr_bytes m1 (tmp + k) (w @ [NUL]) = Inr m2" using fit by (simp add: wr_bytes_def m2_def)
    have l2: "length m2 = length m" using fit l1 by (simp add: m2_def)
    have t2: "take (tmp + k + length w) m2 = take tmp m @ take k s @ w"
      using fit k l1 by (simp add: m2_def m1_def)
    from "1.IH" [OF Some "1.prems"(1,1), of "tmp + k + length w" m2] fit l2 obtain s' tmp' m' where
      "replace_loop (replace_count ?r rep) rep w ?r (tmp + k + length w) m2 = Inr (s', tmp', m')"
      "length m' = length m" "tmp' + length s' = tmp + k + length w + length (replace_all rep w ?r)"
      "take tmp' m' @ s' = (take tmp m @ take k s @ w) @ replace_all rep w ?r"
      unfolding t2 by auto
    then show ?thesis using Some "1.prems"(1) m1 m2 k by (simp add: replace_unfold(3,4) add.assoc)
  qed
qed

lemma strReplace_ok:
  assumes "rep \<noteq> []" "is_cstring s" "is_cstring w"
    and bounds: "length rep < 2 ^ 31" "length w < 2 ^ 31" "length s < 2 ^ 31"
      "length (replace_all rep w s) < 2 ^ 31"
  shows "strReplace junk (Some rep) (Some w) (Some s) = Inr (Some (replace_all rep w s))"
proof -
  let ?r = "replace_all rep w s" and ?c = "replace_count s rep"
  let ?grow = "(int (length w) - int (length rep)) * int ?c"
  have len: "int (length ?r) = int (length s) + ?grow" using replace_all_length assms(1) by blast
  have c: "?c < 2 ^ 31" using replace_count_le [OF assms(1), of s] bounds(3) by linarith
  have ck: "ck_int32 (int (length rep)) = Inr (int (length rep))" "ck_int32 (int (length w)) = Inr (int (length w))"
    "ck_int32 (int ?c) = Inr (int ?c)" "ck_int32 (int (length w) - int (length rep)) = Inr (int (length w) - int (length rep))"
    "ck_int32 ?grow = Inr ?grow"
    using bounds c len by (simp_all add: ck_int32_def in_int32_def)
  have size: "to_uint64 (int (length s) + ?grow + 1) = Suc (length ?r)"
    using to_uint64_of_nat [of "Suc (length ?r)"] bounds(4) len by (simp add: algebra_simps)
  define m where "m = mem_resize junk (Suc (length ?r)) []"
  have "length m = Suc (length ?r)" by (simp add: m_def)
  with replace_loop_correct [OF assms(1), of 0 w s m] obtain s' tmp' m' where
    l: "replace_loop ?c rep w s 0 m = Inr (s', tmp', m')" "length m' = Suc (length ?r)"
      "tmp' + length s' = length ?r" "take tmp' m' @ s' = ?r" by auto
  define r where "r = take tmp' m' @ (s' @ [NUL]) @ drop (tmp' + length s' + 1) m'"
  have w: "wr_bytes m' tmp' (s' @ [NUL]) = Inr r" using l by (simp add: wr_bytes_def r_def)
  have "r = ?r @ [NUL]" using l by (simp add: r_def flip: append_assoc)
  then have "rd_cstr r 0 = Inr ?r"
    using is_cstring_replace_all [OF assms(3,2), of rep] by (intro rd_cstr_terminated) auto
  with assms(1) ck l(1) w show ?thesis
    unfolding strReplace_def by (simp add: size flip: m_def)
qed

lemma strReplace_null_with:
  "strReplace junk rep None s = strReplace junk rep (Some []) s"
  by (simp add: strReplace_def Let_def cong: if_cong)

lemma strReplace_empty: "strReplace junk (Some []) w s = Inr None"
  by (simp add: strReplace_def ck_int32_def in_int32_def)

section \<open>Concatenation, extensions, files\<close>

lemma stringConcat_ok:
  assumes "is_cstring a" "is_cstring b" "length a + length b + 1 < 2 ^ 64"
  shows "stringConcat junk a b = Inr (a @ b)"
proof -
  have size: "to_uint64 (int (length a) + int (length b) + 1) = length a + length b + 1"
    using to_uint64_of_nat [OF assms(3)] by (simp add: algebra_simps)
  let ?m = "mem_resize junk (length a + length b + 1) []"
  have "wr_bytes ?m 0 a = Inr (a @ drop (length a) ?m)" by (simp add: wr_bytes_def)
  moreover have "wr_bytes (a @ drop (length a) ?m) (length a) (b @ [NUL]) = Inr (a @ b @ [NUL])"
    by (simp add: wr_bytes_def)
  moreover have "rd_cstr (a @ b @ [NUL]) 0 = Inr (a @ b)"
    using assms by (intro rd_cstr_terminated) auto
  ultimately show ?thesis by (simp add: stringConcat_def Let_def size)
qed

lemma removeFileExt_cut:
  assumes "is_cstring base" "dot \<noteq> NUL" "dot \<notin> set ext" "sep \<notin> set ext" "sep \<noteq> dot"
  shows "removeFileExt (Some (base @ dot # ext)) dot sep = Inr (Some base)"
proof -
  let ?m = "(base @ dot # ext) @ [NUL]"
  have d: "strrchr ?m dot = Some (length base)" using assms strrchr_append [of dot "ext @ [NUL]" base] by simp
  have "p < length base" if "strrchr ?m sep = Some p" "sep \<noteq> NUL" for p
  proof -
    have p: "p < length ?m" "?m ! p = sep" using strrchr_Some [OF that(1)] by auto
    then show ?thesis using assms that(2) by (auto simp: nth_append nth_Cons split: if_splits nat.splits)
  qed
  moreover have "wr ?m (length base) NUL = Inr (base @ NUL # ext @ [NUL])" by (simp add: wr_def)
  moreover have "rd_cstr (base @ NUL # ext @ [NUL]) 0 = Inr base"
    using assms(1) by (intro rd_cstr_terminated) auto
  ultimately show ?thesis
    using d unfolding removeFileExt_def Let_def by (auto split: option.splits)
qed

lemma removeFileExt_keep:
  assumes "dot \<noteq> NUL" "sep \<noteq> NUL" "dot \<notin> set file" "sep \<notin> set file" "sep \<noteq> dot"
  shows "removeFileExt (Some (dir @ sep # file)) dot sep = Inr (Some (dir @ sep # file))"
proof -
  let ?m = "(dir @ sep # file) @ [NUL]"
  have s: "strrchr ?m sep = Some (length dir)" using assms strrchr_append [of sep "file @ [NUL]" dir] by simp
  have "d < length dir" if "strrchr ?m dot = Some d" for d
  proof -
    have p: "d < length ?m" "?m ! d = dot" using strrchr_Some [OF that(1)] by auto
    then show ?thesis using assms by (auto simp: nth_append nth_Cons split: if_splits nat.splits)
  qed
  with s assms(2) show ?thesis unfolding removeFileExt_def Let_def by (auto split: option.splits)
qed

lemma removeFileExt_no_dot:
  assumes "dot \<noteq> NUL" "dot \<notin> set s"
  shows "removeFileExt (Some s) dot sep = Inr (Some s)"
  using assms by (simp add: removeFileExt_def strrchr_None [THEN iffD2])

lemma fgets_len_pos: "f \<noteq> [] \<Longrightarrow> 1 < sz \<Longrightarrow> 0 < fgets_len sz f"
  by (auto simp: fgets_len_def split: option.splits)

lemma read_loop_ok:
  assumes "is_cstring f" "sds_ok c" "sdslen c + length f < 2 ^ 63"
  shows "\<exists>c'. read_loop junk f c = Inr c' \<and> sds_ok c' \<and> sdsval c' = sdsval c @ f"
  using assms
proof (induction junk f c rule: read_loop.induct)
  case (1 junk f c)
  show ?case
  proof (cases "f = []")
    case False
    let ?n = "fgets_len (1024 + 1) f"
    have t: "cstr (take ?n f) = take ?n f" using "1.prems"(1) by (simp add: cstr_id)
    have "sdslen c + length (cstr (take ?n f)) < 2 ^ 63" using "1.prems"(3) unfolding t by simp
    from sdscat_ok [OF "1.prems"(2) this, of junk] obtain c1 where
      c1: "sdscat junk c (take ?n f) = Inr c1" "sds_ok c1" "sdsval c1 = sdsval c @ take ?n f" unfolding t by auto
    have "sdslen c1 = sdslen c + length (take ?n f)"
      using length_sdsval [OF c1(2)] length_sdsval [OF "1.prems"(2)] c1(3) by simp
    then have "sdslen c1 + length (drop ?n f) < 2 ^ 63" using "1.prems"(3) by simp
    with "1.IH" [OF False refl c1(1) _ c1(2)] "1.prems"(1) obtain c' where
      "read_loop junk (drop ?n f) c1 = Inr c'" "sds_ok c'" "sdsval c' = sdsval c1 @ drop ?n f" by auto
    then show ?thesis using False c1 by (subst read_loop.simps) (simp add: Let_def)
  qed (use "1.prems" in \<open>simp add: read_loop.simps\<close>)
qed

lemma readFileContent_ok:
  assumes "\<And>f. file = Some f \<Longrightarrow> is_cstring f \<and> length f < 2 ^ 63"
  shows "\<exists>c. readFileContent junk file = Inr c \<and> sds_ok c \<and>
    sdsval c = (case file of None \<Rightarrow> [] | Some f \<Rightarrow> f)"
proof -
  obtain c where c: "sdsempty = Inr c" "sds_ok c" "sdsval c = []" using sdsempty_ok by blast
  then have "sdslen c = 0" using length_sdsval [of c] by simp
  then have "is_cstring f \<Longrightarrow> length f < 2 ^ 63 \<Longrightarrow> \<exists>c'. read_loop junk f c = Inr c' \<and> sds_ok c' \<and> sdsval c' = f" for f
    using read_loop_ok [of f c junk] c by simp
  with c assms show ?thesis
    unfolding readFileContent_def c(1) by (cases "file") simp_all
qed

lemma convertToSds_ok:
  assumes "\<And>a. a \<in> set args \<Longrightarrow> is_cstring a \<and> length a < 2 ^ 63"
  shows "\<exists>ss. convertToSds args = Inr ss \<and> list_all2 (\<lambda>a s. sds_ok s \<and> sdsval s = a) args ss"
  unfolding convertToSds_def
proof (rule rmap_ex)
  fix a assume "a \<in> set args"
  then have a: "is_cstring a" "length a < 2 ^ 63" using assms [of a] by simp_all
  then have "length a < 2 ^ 64" by simp
  from sdsnew_ok [OF this] a show "\<exists>s. sdsnew (Some a) = Inr s \<and> (sds_ok s \<and> sdsval s = a)"
    by (simp add: cstr_id)
qed

section \<open>Properties\<close>

text \<open>
  C10. \<open>strReplace\<close> computes its block size from the number of occurrences before copying: for
  every non-empty pattern that size is exactly the length of the result and its terminator, no write
  leaves the block, and the result is the text with every occurrence replaced from left to right; a null
  replacement counts as the empty text and the empty pattern gives a null pointer.
\<close>

theorem strReplace_replaces:
  assumes "is_cstring s" "is_cstring w"
    and "length rep < 2 ^ 31" "length w < 2 ^ 31" "length s < 2 ^ 31" "length (replace_all rep w s) < 2 ^ 31"
  shows "strReplace junk (Some rep) (Some w) (Some s) = Inr (if rep = [] then None else Some (replace_all rep w s)) \<and>
    strReplace junk (Some rep) None (Some s) = strReplace junk (Some rep) (Some []) (Some s)"
  using assms strReplace_ok [of rep s w junk] strReplace_empty [of junk] by (auto simp: strReplace_null_with)

theorem strReplace_replaces_witness:
  "strReplace (\<lambda>_. CHR ''z'') (Some ''{{ t }}'') (Some ''Hi'') (Some ''<b>{{ t }}</b>{{ t }}'') = Inr (Some ''<b>Hi</b>Hi'')"
proof -
  have "replace_all ''{{ t }}'' ''Hi'' ''<b>{{ t }}</b>{{ t }}'' = ''<b>Hi</b>Hi''"
    by (simp add: replace_all.simps)
  then show ?thesis
    using strReplace_replaces [of "''<b>{{ t }}</b>{{ t }}''" "''Hi''" "''{{ t }}''" "\<lambda>_. CHR ''z''"] by simp
qed

text \<open>
  C25. \<open>removeFileExt\<close> cuts the text after the last dot of the last path component, and only
  there: a dot in a directory name never counts, and a name without a dot is unchanged.
\<close>

theorem removeFileExt_strips:
  assumes "is_cstring base" "CHR ''.'' \<notin> set ext" "CHR ''/'' \<notin> set ext"
  shows "removeFileExt (Some (base @ CHR ''.'' # ext)) (CHR ''.'') (CHR ''/'') = Inr (Some base) \<and>
    removeFileExt (Some (dir @ CHR ''/'' # ext)) (CHR ''.'') (CHR ''/'') = Inr (Some (dir @ CHR ''/'' # ext)) \<and>
    removeFileExt (Some ext) (CHR ''.'') (CHR ''/'') = Inr (Some ext)"
  using assms by (simp add: removeFileExt_cut removeFileExt_keep removeFileExt_no_dot)

theorem removeFileExt_strips_witness:
  "removeFileExt (Some ''2017.posts/hello.md'') (CHR ''.'') (CHR ''/'') = Inr (Some ''2017.posts/hello'') \<and>
   removeFileExt (Some ''2017.posts/md'') (CHR ''.'') (CHR ''/'') = Inr (Some ''2017.posts/md'')"
  using removeFileExt_strips [of "''2017.posts/hello''" "''md''" "''2017.posts''"] by simp

text \<open>
  C24. Reading a file in chunks of at most 1024 bytes and appending each returns every byte of
  a file that holds no zero byte, and the empty string when the file cannot be opened: the result is never
  a null pointer.
\<close>

theorem readFileContent_whole:
  assumes "\<And>f. file = Some f \<Longrightarrow> is_cstring f \<and> length f < 2 ^ 63"
  shows "\<exists>c. readFileContent junk file = Inr c \<and> sds_ok c \<and>
    sdsval c = (case file of None \<Rightarrow> [] | Some f \<Rightarrow> f)"
  using assms by (rule readFileContent_ok)

theorem readFileContent_whole_witness:
  "\<exists>c. readFileContent (\<lambda>_. CHR ''z'') (Some (''a'' @ [LF] @ ''b'')) = Inr c \<and> sdsval c = ''a'' @ [LF] @ ''b''"
  using readFileContent_whole [of "Some (''a'' @ [LF] @ ''b'')" "\<lambda>_. CHR ''z''"] by auto

end
