(* ===== verification/Regx.thy ===== *)
theory Regx
  imports Helper
begin

text \<open>
  \<open>deps/blogd/regx.c\<close>: the wrapper around the PCRE library. The library itself is a parameter, a
  record of the three functions the wrapper calls; \<open>pcre_ok\<close> states what its manual promises of
  the vector of offsets, of which the wrapper passes \<open>OVECCOUNT\<close> elements. \<open>preg_match_all\<close> is
  never called and is not modelled.
\<close>

section \<open>The library and the wrapper\<close>

record 're pcre_lib =
  pcre_compile :: "string \<Rightarrow> 're option"
  pcre_capturecount :: "'re \<Rightarrow> nat"
  pcre_exec :: "'re \<Rightarrow> string \<Rightarrow> nat \<Rightarrow> int \<times> int list"

definition OVECCOUNT :: nat where
  "OVECCOUNT = 30"

definition preg_compile :: "'re pcre_lib \<Rightarrow> string \<Rightarrow> 're res" where
  "preg_compile lib regxp = (case pcre_compile lib regxp of None \<Rightarrow> Inl (ProcExit 1) | Some re \<Rightarrow> Inr re)"

text \<open>The codes are those of \<open>pcre.h\<close>: no match, match limit, no memory.\<close>

definition preg_error :: "int \<Rightarrow> string" where
  "preg_error rc =
     (if rc = -1 then ''No match found in string '' @ [LF]
      else if rc = -8 then ''Match is out of possible matches '' @ [LF]
      else if rc = -6 then ''Out of memory '' @ [LF]
      else ''Match error '' @ deci rc @ '' '' @ [LF])"

text \<open>
  The text of group \<open>it + 1\<close>: the block of \<open>tmpInt + 1\<close> bytes is filled by \<open>sprintf\<close> with
  \<open>tmpInt\<close> characters of the subject. An unset group has both offsets -1 and reads nothing.
\<close>

definition group_text :: "string \<Rightarrow> int list \<Rightarrow> nat \<Rightarrow> string res" where
  "group_text data ov it =
     (let i = 3 + 2 * it in
      if length ov \<le> i then Inl OutOfBounds
      else
        rbind (ck_int32 (ov ! i - ov ! (i - 1))) (\<lambda>tmpInt.
        if tmpInt < 0 then Inl OutOfBounds
        else if tmpInt = 0 then Inr []
        else if ov ! (i - 1) < 0 \<or> int (length data) < ov ! (i - 1) then Inl OutOfBounds
        else Inr (take (nat tmpInt) (drop (nat (ov ! (i - 1))) data))))"

text \<open>
  The array of pointers is allocated with \<open>OVECCOUNT * sizeof(char)\<close> bytes; storing the pointer
  \<open>it\<close> needs the eight bytes from \<open>8 * it\<close>.
\<close>

definition store_group :: "string \<Rightarrow> int list \<Rightarrow> nat \<Rightarrow> string res" where
  "store_group data ov it =
     rbind (rassert (8 * it + 8 \<le> OVECCOUNT * 1) OutOfBounds) (\<lambda>_. group_text data ov it)"

definition preg_match :: "'re pcre_lib \<Rightarrow> string \<Rightarrow> string \<Rightarrow> string list option res" where
  "preg_match lib regxp data =
     rbind (preg_compile lib regxp) (\<lambda>re.
     let groupsCount = pcre_capturecount lib re; (rc, ovector) = pcre_exec lib re data 0 in
     if rc < 0 then Inr None
     else rbind (rmap (store_group data ovector) [0..<groupsCount]) (\<lambda>results. Inr (Some results)))"

section \<open>What the manual promises\<close>

definition ovector_ok :: "nat \<Rightarrow> string \<Rightarrow> int list \<Rightarrow> bool" where
  "ovector_ok groups data ov \<longleftrightarrow>
     length ov = OVECCOUNT \<and>
     (\<forall>g \<le> groups. g < 10 \<longrightarrow>
        ov ! (2 * g) = -1 \<and> ov ! (2 * g + 1) = -1 \<or>
        0 \<le> ov ! (2 * g) \<and> ov ! (2 * g) \<le> ov ! (2 * g + 1) \<and> ov ! (2 * g + 1) \<le> int (length data))"

definition pcre_ok :: "'re pcre_lib \<Rightarrow> bool" where
  "pcre_ok lib \<longleftrightarrow>
     (\<forall>re data off. case pcre_exec lib re data off of
        (rc, ov) \<Rightarrow> 0 \<le> rc \<longrightarrow> ovector_ok (pcre_capturecount lib re) data ov)"

definition group_value :: "string \<Rightarrow> int list \<Rightarrow> nat \<Rightarrow> string" where
  "group_value data ov g =
     (if ov ! (2 * g) = -1 then []
      else take (nat (ov ! (2 * g + 1) - ov ! (2 * g))) (drop (nat (ov ! (2 * g))) data))"

lemma pcre_okD:
  "pcre_ok lib \<Longrightarrow> pcre_exec lib re data off = (rc, ov) \<Longrightarrow> 0 \<le> rc \<Longrightarrow>
    ovector_ok (pcre_capturecount lib re) data ov"
  by (fastforce simp: pcre_ok_def dest: spec [of _ re] split: prod.splits)

lemma group_text_ok:
  assumes "ovector_ok n data ov" "it < n" "it < 9" "length data < 2 ^ 31"
  shows "group_text data ov it = Inr (group_value data ov (Suc it))"
proof -
  let ?s = "ov ! (2 * Suc it)" and ?e = "ov ! (2 * Suc it + 1)"
  have i: "3 + 2 * it = 2 * Suc it + 1" "3 + 2 * it - 1 = 2 * Suc it" by simp_all
  have l: "\<not> length ov \<le> 2 * Suc it + 1" using assms by (simp add: ovector_ok_def OVECCOUNT_def)
  consider "?s = -1" "?e = -1" | "0 \<le> ?s" "?s \<le> ?e" "?e \<le> int (length data)"
  proof -
    have "Suc it \<le> n" "Suc it < 10" using assms(2,3) by simp_all
    with assms(1) that show thesis unfolding ovector_ok_def by blast
  qed
  then show ?thesis
  proof cases
    case 1
    then show ?thesis
      using l unfolding group_text_def Let_def i group_value_def by (simp add: ck_int32_def in_int32_def)
  next
    case 2
    then have "ck_int32 (?e - ?s) = Inr (?e - ?s)" using assms(4) by (simp add: ck_int32_def in_int32_def)
    with 2 l show ?thesis unfolding group_text_def Let_def i group_value_def by simp
  qed
qed

lemma preg_match_ok:
  assumes "pcre_ok lib" "pcre_compile lib p = Some re" "pcre_capturecount lib re \<le> 3" "length data < 2 ^ 31"
  shows "preg_match lib p data =
    Inr (if fst (pcre_exec lib re data 0) < 0 then None
         else Some (map (\<lambda>it. group_value data (snd (pcre_exec lib re data 0)) (Suc it))
                      [0..<pcre_capturecount lib re]))"
proof -
  obtain rc ov where e: "pcre_exec lib re data 0 = (rc, ov)" by fastforce
  have "store_group data ov it = Inr (group_value data ov (Suc it))"
    if "0 \<le> rc" "it \<in> set [0..<pcre_capturecount lib re]" for it
    using pcre_okD [OF assms(1) e that(1)] that(2) assms(3,4)
    by (simp add: store_group_def OVECCOUNT_def group_text_ok)
  then have "rmap (store_group data ov) [0..<pcre_capturecount lib re] =
      Inr (map (\<lambda>it. group_value data ov (Suc it)) [0..<pcre_capturecount lib re])" if "0 \<le> rc"
    using that by (intro rmap_Inr_map) auto
  then show ?thesis using assms(2) e by (simp add: preg_match_def preg_compile_def Let_def)
qed

lemma rmap_fails: "x \<in> set xs \<Longrightarrow> (\<And>y. f x \<noteq> Inr y) \<Longrightarrow> \<exists>e. rmap f xs = Inl e"
proof (induction xs)
  case (Cons a xs)
  show ?case
  proof (cases "f a")
    case (Inr y)
    with Cons have "x \<in> set xs" by auto
    with Cons Inr show ?thesis by auto
  qed simp
qed simp

section \<open>Properties\<close>

text \<open>
  C21. With a pattern of at most three groups the wrapper stays inside its pointer array and
  inside the subject, and returns a null pointer when the library finds no match and otherwise the text
  of every group, an unset group as the empty text.
\<close>

theorem preg_match_groups:
  assumes "pcre_ok lib" "pcre_compile lib p = Some re" "pcre_capturecount lib re \<le> 3" "length data < 2 ^ 31"
  shows "preg_match lib p data =
    Inr (if fst (pcre_exec lib re data 0) < 0 then None
         else Some (map (\<lambda>it. group_value data (snd (pcre_exec lib re data 0)) (Suc it))
                      [0..<pcre_capturecount lib re]))"
  using assms by (rule preg_match_ok)

text \<open>A library in which every pattern has \<open>k\<close> groups, matches, and captures the whole subject.\<close>

definition whole_lib :: "nat \<Rightarrow> string pcre_lib" where
  "whole_lib k = \<lparr>pcre_compile = Some, pcre_capturecount = (\<lambda>_. k),
     pcre_exec = (\<lambda>re data off. (int k + 1, map (\<lambda>i. if even i then 0 else int (length data)) [0..<30]))\<rparr>"

lemma whole_lib_ok: "pcre_ok (whole_lib k)"
  by (simp add: pcre_ok_def ovector_ok_def whole_lib_def OVECCOUNT_def del: upt_rec_numeral)

theorem preg_match_groups_witness: "preg_match (whole_lib 2) ''ab'' ''xyz'' = Inr (Some [''xyz'', ''xyz''])"
  using preg_match_groups [OF whole_lib_ok [of 2], of "''ab''" "''ab''" "''xyz''"]
  by (simp add: whole_lib_def group_value_def upt_rec [of _ 2] del: upt_rec_numeral)



end
