(* ===== verification/Content.thy ===== *)
theory Content
  imports Regx
begin

text \<open>
  \<open>deps/blogd/content.c\<close>: compiling one file into the fields of a \<open>compiledObj\<close>. The Markdown
  renderer is a parameter \<open>render\<close>, the bytes it appends to the output buffer, and \<open>slack\<close> is what
  the rest of that buffer's block holds: the source reads the block as a C string.
\<close>

section \<open>Operations\<close>

record compiledObj =
  title :: string
  meta_desc :: string
  desc :: string
  thumbnail :: string
  published_at :: string
  compiled_content :: "string option"

definition section_pattern :: "string \<Rightarrow> string" where
  "section_pattern name =
     ''@section_'' @ name @ [CHR 0x5C] @ ''s*((.|'' @ [CHR 0x5C] @ ''n)*?)'' @ [CHR 0x5C] @ ''s*@endsection''"

text \<open>The block of the output buffer: no block at all when nothing was appended.\<close>

definition compileMarkdownContent :: "(string \<Rightarrow> string) \<Rightarrow> (string \<Rightarrow> string) \<Rightarrow> string \<Rightarrow> string option" where
  "compileMarkdownContent render slack content =
     (if render content = [] then None else Some (render content @ slack content))"

definition first_match :: "string list option \<Rightarrow> string res" where
  "first_match matches =
     (case matches of None \<Rightarrow> Inr [] | Some [] \<Rightarrow> Inl UninitRead | Some (m # ms) \<Rightarrow> Inr m)"

definition read_block :: "string option \<Rightarrow> string option res" where
  "read_block p = (case p of None \<Rightarrow> Inr None | Some b \<Rightarrow> rbind (rd_cstr b 0) (\<lambda>s. Inr (Some s)))"

text \<open>The pointer \<open>content\<close>: the block it points to, with its terminator when it is a C string.\<close>

definition content_block ::
  "(string \<Rightarrow> string) \<Rightarrow> (string \<Rightarrow> string) \<Rightarrow> string list option \<Rightarrow> int \<Rightarrow> nat \<Rightarrow> string option res" where
  "content_block render slack contentMatches markdownCompile useMarkdown =
     (case contentMatches of
        None \<Rightarrow> Inr (Some [NUL])
      | Some ms \<Rightarrow>
          rbind (first_match (Some ms)) (\<lambda>m.
          if markdownCompile > 0 \<and> useMarkdown > 0 then Inr (compileMarkdownContent render slack m)
          else Inr (Some (m @ [NUL]))))"

definition compileTemplate ::
  "(nat \<Rightarrow> char) \<Rightarrow> 're pcre_lib \<Rightarrow> (string \<Rightarrow> string) \<Rightarrow> (string \<Rightarrow> string) \<Rightarrow>
   string \<Rightarrow> string \<Rightarrow> int \<Rightarrow> nat \<Rightarrow> compiledObj res" where
  "compileTemplate junk lib render slack fileContent layoutContent markdownCompile useMarkdown =
     rbind (preg_match lib (section_pattern ''title'') fileContent) (\<lambda>titleMatches.
     rbind (preg_match lib (section_pattern ''meta_description'') fileContent) (\<lambda>metaDescMatches.
     rbind (preg_match lib (section_pattern ''description'') fileContent) (\<lambda>descMatches.
     rbind (preg_match lib (section_pattern ''thumbnail'') fileContent) (\<lambda>thumbnailMatches.
     rbind (preg_match lib (section_pattern ''content'') fileContent) (\<lambda>contentMatches.
     rbind (preg_match lib (section_pattern ''published_at'') fileContent) (\<lambda>publishedAtMatches.
     rbind (first_match titleMatches) (\<lambda>t.
     rbind (first_match metaDescMatches) (\<lambda>md.
     rbind (first_match descMatches) (\<lambda>d.
     rbind (first_match thumbnailMatches) (\<lambda>th.
     rbind (first_match publishedAtMatches) (\<lambda>pa.
     rbind (content_block render slack contentMatches markdownCompile useMarkdown) (\<lambda>block.
     rbind (strReplace junk (Some ''{{ title }}'') (Some t) (Some layoutContent)) (\<lambda>c1.
     rbind (strReplace junk (Some ''{{ meta_description }}'') (Some md) c1) (\<lambda>c2.
     rbind (read_block block) (\<lambda>content.
     rbind (strReplace junk (Some ''{{ content }}'') content c2) (\<lambda>c3.
     Inr \<lparr>title = t, meta_desc = md, desc = d, thumbnail = th, published_at = pa,
          compiled_content = c3\<rparr>))))))))))))))))"

section \<open>Specification\<close>

definition section_matched :: "'re pcre_lib \<Rightarrow> string \<Rightarrow> string \<Rightarrow> bool" where
  "section_matched lib file name \<longleftrightarrow>
     (case pcre_compile lib (section_pattern name) of
        None \<Rightarrow> False | Some re \<Rightarrow> 0 \<le> fst (pcre_exec lib re file 0))"

definition section_text :: "'re pcre_lib \<Rightarrow> string \<Rightarrow> string \<Rightarrow> string" where
  "section_text lib file name =
     (case pcre_compile lib (section_pattern name) of
        None \<Rightarrow> []
      | Some re \<Rightarrow>
          case pcre_exec lib re file 0 of (rc, ov) \<Rightarrow> if rc < 0 then [] else group_value file ov 1)"

definition section_names :: "string list" where
  "section_names = [''title'', ''meta_description'', ''description'', ''thumbnail'', ''content'', ''published_at'']"

text \<open>The six patterns of the source compile and have two groups, as PCRE counts parentheses.\<close>

definition patterns_ok :: "'re pcre_lib \<Rightarrow> bool" where
  "patterns_ok lib \<longleftrightarrow>
     pcre_ok lib \<and>
     list_all (\<lambda>name. case pcre_compile lib (section_pattern name) of
       None \<Rightarrow> False | Some re \<Rightarrow> pcre_capturecount lib re = 2) section_names"

text \<open>
  Read as a C string, the rendered text goes on with the bytes behind it in its block, up to the
  first zero byte.
\<close>

definition rendered_text :: "(string \<Rightarrow> string) \<Rightarrow> (string \<Rightarrow> string) \<Rightarrow> string \<Rightarrow> string" where
  "rendered_text render slack t = (if render t = [] then [] else render t @ cstr (slack t))"

definition body_text ::
  "'re pcre_lib \<Rightarrow> (string \<Rightarrow> string) \<Rightarrow> (string \<Rightarrow> string) \<Rightarrow> string \<Rightarrow> int \<Rightarrow> nat \<Rightarrow> string" where
  "body_text lib render slack file mc um =
     (if section_matched lib file ''content'' \<and> mc > 0 \<and> um > 0
      then rendered_text render slack (section_text lib file ''content'')
      else section_text lib file ''content'')"

definition page_stage1 :: "string \<Rightarrow> string \<Rightarrow> string" where
  "page_stage1 t layout = replace_all ''{{ title }}'' t layout"

definition page_stage2 :: "string \<Rightarrow> string \<Rightarrow> string \<Rightarrow> string" where
  "page_stage2 t md layout = replace_all ''{{ meta_description }}'' md (page_stage1 t layout)"

definition page_text :: "string \<Rightarrow> string \<Rightarrow> string \<Rightarrow> string \<Rightarrow> string" where
  "page_text t md body layout = replace_all ''{{ content }}'' body (page_stage2 t md layout)"

lemma group_value_take_drop: "\<exists>i n. group_value data ov g = take n (drop i data)"
  by (metis group_value_def take0 take_0)

lemma is_cstring_group_value [simp]: "is_cstring data \<Longrightarrow> is_cstring (group_value data ov g)"
  using group_value_take_drop [of data ov g] by auto

lemma is_cstring_section_text [simp]: "is_cstring file \<Longrightarrow> is_cstring (section_text lib file name)"
  by (auto simp: section_text_def split: option.splits prod.splits)

lemma length_section_text: "length (section_text lib file name) \<le> length file"
proof -
  have "length (group_value file ov g) \<le> length file" for ov g
    using group_value_take_drop [of "file" ov g] by auto
  then show ?thesis by (auto simp: section_text_def split: option.splits prod.splits)
qed

lemma preg_match_section:
  assumes "patterns_ok lib" "name \<in> set section_names" "length file < 2 ^ 31"
  shows "\<exists>ms. preg_match lib (section_pattern name) file = Inr ms \<and>
    first_match ms = Inr (section_text lib file name) \<and> (ms \<noteq> None \<longleftrightarrow> section_matched lib file name)"
proof -
  from assms obtain re where re: "pcre_compile lib (section_pattern name) = Some re" "pcre_capturecount lib re = 2"
    by (fastforce simp: patterns_ok_def list_all_iff split: option.splits)
  have "pcre_ok lib" using assms(1) by (simp add: patterns_ok_def)
  from preg_match_ok [OF this re(1) _ assms(3)] re show ?thesis
    by (auto simp: first_match_def section_text_def section_matched_def upt_rec split: prod.splits)
qed

lemma rd_cstr_behind:
  "is_cstring r \<Longrightarrow> rd_cstr (r @ s) 0 = (if NUL \<in> set s then Inr (r @ cstr s) else Inl OutOfBounds)"
proof -
  assume r: "is_cstring r"
  then have "cstr (r @ s) = r @ cstr s"
    unfolding cstr_def is_cstring_def by (intro takeWhile_append2) metis
  with r show ?thesis by (auto simp: rd_cstr_def is_cstring_def)
qed

lemma content_read:
  assumes "is_cstring file"
    and "section_matched lib file ''content'' \<Longrightarrow> mc > 0 \<Longrightarrow> um > 0 \<Longrightarrow>
      is_cstring (render (section_text lib file ''content'')) \<and> NUL \<in> set (slack (section_text lib file ''content''))"
    and ms: "first_match ms = Inr (section_text lib file ''content'')" "ms \<noteq> None \<longleftrightarrow> section_matched lib file ''content''"
  shows "\<exists>b. content_block render slack ms mc um = Inr b \<and>
    (read_block b = Inr (Some (body_text lib render slack file mc um)) \<or>
     read_block b = Inr None \<and> body_text lib render slack file mc um = [])"
proof (cases ms)
  case None
  then have "section_text lib file ''content'' = []" using ms(1) by (simp add: first_match_def)
  with None ms(2) show ?thesis by (simp add: content_block_def read_block_def rd_cstr_def body_text_def)
next
  case (Some l)
  let ?t = "section_text lib file ''content''"
  have m: "section_matched lib file ''content''" using Some ms(2) by simp
  have plain: "rd_cstr (?t @ [NUL]) 0 = Inr ?t" using assms(1) by (simp add: rd_cstr_behind)
  have "rd_cstr (render ?t @ slack ?t) 0 = Inr (render ?t @ cstr (slack ?t))" if "mc > 0" "um > 0"
    using assms(2) [OF m that] by (simp add: rd_cstr_behind)
  with plain show ?thesis
    using Some m ms(1)
    by (auto simp: content_block_def read_block_def body_text_def rendered_text_def compileMarkdownContent_def)
qed

lemma strReplace_stage:
  assumes "is_cstring w" "is_cstring s" "rep \<noteq> []" "length rep < 2 ^ 31" "length w < 2 ^ 31" "length s < 2 ^ 31"
    "length (replace_all rep w s) < 2 ^ 31"
  shows "strReplace junk (Some rep) (Some w) (Some s) = Inr (Some (replace_all rep w s))"
  using assms by (intro strReplace_ok)

definition sizes_ok :: "string \<Rightarrow> string \<Rightarrow> string \<Rightarrow> string \<Rightarrow> bool" where
  "sizes_ok t md body layout \<longleftrightarrow>
     length layout < 2 ^ 31 \<and> length (page_stage1 t layout) < 2 ^ 31 \<and>
     length (page_stage2 t md layout) < 2 ^ 31 \<and> length body < 2 ^ 31 \<and>
     length (page_text t md body layout) < 2 ^ 31"

text \<open>Everything up to reading the rendered block.\<close>

lemma compileTemplate_stages:
  assumes "patterns_ok lib" "is_cstring file" "is_cstring layout" "length file < 2 ^ 31"
    and t: "t = section_text lib file ''title''" and md: "md = section_text lib file ''meta_description''"
    and sz: "length layout < 2 ^ 31" "length (page_stage1 t layout) < 2 ^ 31" "length (page_stage2 t md layout) < 2 ^ 31"
  shows "\<exists>ms. first_match ms = Inr (section_text lib file ''content'') \<and>
    (ms \<noteq> None \<longleftrightarrow> section_matched lib file ''content'') \<and>
    compileTemplate junk lib render slack file layout mc um =
      rbind (content_block render slack ms mc um) (\<lambda>block.
      rbind (read_block block) (\<lambda>content.
      rbind (strReplace junk (Some ''{{ content }}'') content (Some (page_stage2 t md layout))) (\<lambda>c3.
      Inr \<lparr>title = t, meta_desc = md, desc = section_text lib file ''description'',
        thumbnail = section_text lib file ''thumbnail'', published_at = section_text lib file ''published_at'',
        compiled_content = c3\<rparr>)))"
proof -
  note pm = preg_match_section [OF assms(1) _ assms(4)]
  obtain m1 m2 m3 m4 m5 m6 where m:
    "preg_match lib (section_pattern ''title'') file = Inr m1" "first_match m1 = Inr (section_text lib file ''title'')"
    "preg_match lib (section_pattern ''meta_description'') file = Inr m2" "first_match m2 = Inr (section_text lib file ''meta_description'')"
    "preg_match lib (section_pattern ''description'') file = Inr m3" "first_match m3 = Inr (section_text lib file ''description'')"
    "preg_match lib (section_pattern ''thumbnail'') file = Inr m4" "first_match m4 = Inr (section_text lib file ''thumbnail'')"
    "preg_match lib (section_pattern ''content'') file = Inr m5" "first_match m5 = Inr (section_text lib file ''content'')"
    "m5 \<noteq> None \<longleftrightarrow> section_matched lib file ''content''"
    "preg_match lib (section_pattern ''published_at'') file = Inr m6" "first_match m6 = Inr (section_text lib file ''published_at'')"
    using pm [of "''title''"] pm [of "''meta_description''"] pm [of "''description''"] pm [of "''thumbnail''"]
      pm [of "''content''"] pm [of "''published_at''"] by (auto simp: section_names_def)
  have small: "length t < 2 ^ 31" "length md < 2 ^ 31"
    using assms(4) length_section_text le_less_trans unfolding t md by blast+
  have c: "is_cstring t" "is_cstring md" "is_cstring (page_stage1 t layout)"
    using assms(2,3) by (simp_all add: t md page_stage1_def is_cstring_replace_all)
  have s1: "strReplace junk (Some ''{{ title }}'') (Some t) (Some layout) = Inr (Some (page_stage1 t layout))"
    unfolding page_stage1_def
    by (rule strReplace_stage) (use c small sz assms(3) in \<open>simp_all add: page_stage1_def\<close>)
  have s2: "strReplace junk (Some ''{{ meta_description }}'') (Some md) (Some (page_stage1 t layout)) =
      Inr (Some (page_stage2 t md layout))"
    unfolding page_stage2_def
    by (rule strReplace_stage) (use c small sz in \<open>simp_all add: page_stage2_def\<close>)
  show ?thesis
    apply (intro exI [of _ m5] conjI m(10,11))
    apply (cases "content_block render slack m5 mc um")
    apply (simp_all add: compileTemplate_def m s1 s2 flip: t md)
    done
qed

lemma is_cstring_stage2:
  "is_cstring t \<Longrightarrow> is_cstring md \<Longrightarrow> is_cstring layout \<Longrightarrow> is_cstring (page_stage2 t md layout)"
  by (simp add: page_stage2_def page_stage1_def is_cstring_replace_all)

lemma is_cstring_body:
  assumes "is_cstring file" and "section_matched lib file ''content'' \<Longrightarrow> mc > 0 \<Longrightarrow> um > 0 \<Longrightarrow>
      is_cstring (render (section_text lib file ''content''))"
  shows "is_cstring (body_text lib render slack file mc um)"
  using assms by (auto simp: body_text_def rendered_text_def)

section \<open>Properties\<close>



text \<open>
  C23. With Markdown on, if the renderer's block is full, or holds no zero byte behind
  the rendered text, compiling the file reads past the end of the block.
\<close>

theorem compileTemplate_unterminated:
  assumes "patterns_ok lib" "is_cstring file" "is_cstring layout" "length file < 2 ^ 31"
    and "section_matched lib file ''content''" "mc > 0" "um > 0"
    and "render (section_text lib file ''content'') \<noteq> []" "is_cstring (render (section_text lib file ''content''))"
      "is_cstring (slack (section_text lib file ''content''))"
    and "sizes_ok (section_text lib file ''title'') (section_text lib file ''meta_description'') [] layout"
  shows "compileTemplate junk lib render slack file layout mc um = Inl OutOfBounds"
proof -
  note sz = assms(11) [unfolded sizes_ok_def]
  from compileTemplate_stages [OF assms(1-4) refl refl, of junk render slack mc um] sz obtain ms where
    ms: "first_match ms = Inr (section_text lib file ''content'')" "ms \<noteq> None \<longleftrightarrow> section_matched lib file ''content''"
    and comp: "\<exists>k. compileTemplate junk lib render slack file layout mc um =
      rbind (content_block render slack ms mc um) (\<lambda>block. rbind (read_block block) k)" by blast
  from ms(2) assms(5) obtain l where "ms = Some l" by blast
  then have "content_block render slack ms mc um =
      Inr (Some (render (section_text lib file ''content'') @ slack (section_text lib file ''content'')))"
    using ms(1) assms(6-8) by (simp add: content_block_def compileMarkdownContent_def)
  with comp assms(9,10) show ?thesis
    by (auto simp: read_block_def rd_cstr_behind is_cstring_def)
qed

theorem compileTemplate_unterminated_witness:
  "compileTemplate (\<lambda>_. CHR ''z'') (whole_lib 2) (\<lambda>s. s @ ''!'') (\<lambda>_. ''stale'') ''Hi'' ''{{ content }}'' 1 2 = Inl OutOfBounds"
proof -
  let ?lib = "whole_lib 2"
  have st: "section_text ?lib ''Hi'' name = ''Hi''" "section_matched ?lib ''Hi'' name" for name
    by (simp_all add: section_text_def section_matched_def whole_lib_def group_value_def del: upt_rec_numeral)
  have ok: "patterns_ok ?lib" using whole_lib_ok [of 2] by (simp add: patterns_ok_def section_names_def whole_lib_def)
  have p: "page_stage1 ''Hi'' ''{{ content }}'' = ''{{ content }}''"
    "page_stage2 ''Hi'' ''Hi'' ''{{ content }}'' = ''{{ content }}''" "page_text ''Hi'' ''Hi'' [] ''{{ content }}'' = []"
    by (simp_all add: page_stage1_def page_stage2_def page_text_def replace_all.simps)
  show ?thesis
    using compileTemplate_unterminated [OF ok, of "''Hi''" "''{{ content }}''" 1 2 "\<lambda>s. s @ ''!''" "\<lambda>_. ''stale''" "\<lambda>_. CHR ''z''"]
    by (simp add: st p sizes_ok_def)
qed

end
