(* ===== verification/Store.thy ===== *)
theory Store
  imports Prelude
begin

text \<open>
  The interface of a key-value store, as the keyspace uses its dictionary: lookup, adding a key that
  must be new, replacing, deleting. A step of the interface is a \<open>kv_op\<close>; \<open>kv_spec\<close> runs a sequence
  of steps on a finite map and \<open>kv_run\<close> runs it on an implementation. The locale states what the
  implementation of each operation promises; its lemma lifts the promises to sequences of operations.
\<close>

datatype ('k, 'v) kv_op = KvFind 'k | KvAdd 'k 'v | KvReplace 'k 'v | KvDelete 'k

datatype 'v kv_ans = Value "'v option" | Outcome bool

fun kv_spec_step :: "('k, 'v) kv_op \<Rightarrow> ('k \<rightharpoonup> 'v) \<Rightarrow> 'v kv_ans \<times> ('k \<rightharpoonup> 'v)" where
  "kv_spec_step (KvFind k) m = (Value (m k), m)"
| "kv_spec_step (KvAdd k v) m = (if m k = None then (Outcome True, m(k \<mapsto> v)) else (Outcome False, m))"
| "kv_spec_step (KvReplace k v) m = (Outcome (m k = None), m(k \<mapsto> v))"
| "kv_spec_step (KvDelete k) m = (Outcome (m k \<noteq> None), m(k := None))"

fun kv_spec :: "('k, 'v) kv_op list \<Rightarrow> ('k \<rightharpoonup> 'v) \<Rightarrow> 'v kv_ans list \<times> ('k \<rightharpoonup> 'v)" where
  "kv_spec [] m = ([], m)"
| "kv_spec (p # ps) m =
     (case kv_spec_step p m of (a, m') \<Rightarrow> case kv_spec ps m' of (as, m'') \<Rightarrow> (a # as, m''))"

fun kv_step :: "('s \<Rightarrow> 'k \<Rightarrow> ('v option \<times> 's) res) \<Rightarrow> ('s \<Rightarrow> 'k \<Rightarrow> 'v \<Rightarrow> (bool \<times> 's) res) \<Rightarrow>
    ('s \<Rightarrow> 'k \<Rightarrow> 'v \<Rightarrow> (bool \<times> 's) res) \<Rightarrow> ('s \<Rightarrow> 'k \<Rightarrow> (bool \<times> 's) res) \<Rightarrow>
    ('k, 'v) kv_op \<Rightarrow> 's \<Rightarrow> ('v kv_ans \<times> 's) res" where
  "kv_step fnd add rep del (KvFind k) s = rbind (fnd s k) (\<lambda>(v, s'). Inr (Value v, s'))"
| "kv_step fnd add rep del (KvAdd k v) s = rbind (add s k v) (\<lambda>(b, s'). Inr (Outcome b, s'))"
| "kv_step fnd add rep del (KvReplace k v) s = rbind (rep s k v) (\<lambda>(b, s'). Inr (Outcome b, s'))"
| "kv_step fnd add rep del (KvDelete k) s = rbind (del s k) (\<lambda>(b, s'). Inr (Outcome b, s'))"

fun kv_run :: "('s \<Rightarrow> 'k \<Rightarrow> ('v option \<times> 's) res) \<Rightarrow> ('s \<Rightarrow> 'k \<Rightarrow> 'v \<Rightarrow> (bool \<times> 's) res) \<Rightarrow>
    ('s \<Rightarrow> 'k \<Rightarrow> 'v \<Rightarrow> (bool \<times> 's) res) \<Rightarrow> ('s \<Rightarrow> 'k \<Rightarrow> (bool \<times> 's) res) \<Rightarrow>
    ('k, 'v) kv_op list \<Rightarrow> 's \<Rightarrow> ('v kv_ans list \<times> 's) res" where
  "kv_run fnd add rep del [] s = Inr ([], s)"
| "kv_run fnd add rep del (p # ps) s =
     rbind (kv_step fnd add rep del p s) (\<lambda>(a, s').
     rbind (kv_run fnd add rep del ps s') (\<lambda>(as, s''). Inr (a # as, s'')))"

locale kv_store =
  fixes fnd :: "'s \<Rightarrow> 'k \<Rightarrow> ('v option \<times> 's) res"
    and add rep :: "'s \<Rightarrow> 'k \<Rightarrow> 'v \<Rightarrow> (bool \<times> 's) res"
    and del :: "'s \<Rightarrow> 'k \<Rightarrow> (bool \<times> 's) res"
    and abs_map :: "'s \<Rightarrow> 'k \<rightharpoonup> 'v"
    and ok :: "'s \<Rightarrow> bool"
    and card_of :: "'s \<Rightarrow> nat"
    and cap :: nat
  assumes fnd_law: "ok s \<Longrightarrow> \<exists>s'. fnd s k = Inr (abs_map s k, s') \<and> ok s' \<and> abs_map s' = abs_map s \<and> card_of s' = card_of s"
    and add_law: "ok s \<Longrightarrow> card_of s < cap \<Longrightarrow> \<exists>s'. add s k v = Inr (abs_map s k = None, s') \<and> ok s' \<and>
      abs_map s' = (if abs_map s k = None then (abs_map s)(k \<mapsto> v) else abs_map s) \<and>
      card_of s' = (if abs_map s k = None then Suc (card_of s) else card_of s)"
    and rep_law: "ok s \<Longrightarrow> card_of s < cap \<Longrightarrow> \<exists>s'. rep s k v = Inr (abs_map s k = None, s') \<and> ok s' \<and>
      abs_map s' = (abs_map s)(k \<mapsto> v) \<and> card_of s' = (if abs_map s k = None then Suc (card_of s) else card_of s)"
    and del_law: "ok s \<Longrightarrow> \<exists>s'. del s k = Inr (abs_map s k \<noteq> None, s') \<and> ok s' \<and>
      abs_map s' = (abs_map s)(k := None) \<and> card_of s' = (if abs_map s k = None then card_of s else card_of s - 1)"
begin

lemma step_refines:
  assumes "ok s" "card_of s < cap"
  shows "\<exists>s'. kv_step fnd add rep del p s = Inr (fst (kv_spec_step p (abs_map s)), s') \<and> ok s' \<and>
    abs_map s' = snd (kv_spec_step p (abs_map s)) \<and> card_of s' \<le> Suc (card_of s)"
proof (cases p)
  case (KvFind k)
  then show ?thesis using fnd_law [OF assms(1), of k] by auto
next
  case (KvAdd k v)
  obtain s' where s': "add s k v = Inr (abs_map s k = None, s')" "ok s'"
    "abs_map s' = (if abs_map s k = None then (abs_map s)(k \<mapsto> v) else abs_map s)"
    "card_of s' = (if abs_map s k = None then Suc (card_of s) else card_of s)" using add_law [OF assms, of k v] by blast
  then have "kv_step fnd add rep del p s = Inr (fst (kv_spec_step p (abs_map s)), s')" using KvAdd by auto
  then show ?thesis using KvAdd s' by auto
next
  case (KvReplace k v)
  obtain s' where "rep s k v = Inr (abs_map s k = None, s')" "ok s'" "abs_map s' = (abs_map s)(k \<mapsto> v)"
    "card_of s' = (if abs_map s k = None then Suc (card_of s) else card_of s)" using rep_law [OF assms, of k v] by blast
  then show ?thesis using KvReplace by auto
next
  case (KvDelete k)
  obtain s' where "del s k = Inr (abs_map s k \<noteq> None, s')" "ok s'" "abs_map s' = (abs_map s)(k := None)"
    "card_of s' = (if abs_map s k = None then card_of s else card_of s - 1)" using del_law [OF assms(1), of k] by blast
  then show ?thesis using KvDelete by auto
qed

lemma run_refines:
  assumes "ok s" "card_of s + length ps \<le> cap"
  shows "\<exists>s'. kv_run fnd add rep del ps s = Inr (fst (kv_spec ps (abs_map s)), s') \<and> ok s' \<and>
    abs_map s' = snd (kv_spec ps (abs_map s)) \<and> card_of s' \<le> card_of s + length ps"
  using assms
proof (induction ps arbitrary: s)
  case Nil
  then show ?case by simp
next
  case (Cons p ps)
  have "card_of s < cap" using Cons.prems(2) by simp
  from step_refines [OF Cons.prems(1) this, of p] obtain s1 where
    s1: "kv_step fnd add rep del p s = Inr (fst (kv_spec_step p (abs_map s)), s1)" "ok s1"
      "abs_map s1 = snd (kv_spec_step p (abs_map s))" "card_of s1 \<le> Suc (card_of s)" by blast
  from s1(4) have "card_of s1 + length ps \<le> cap" using Cons.prems(2) by simp
  from Cons.IH [OF s1(2) this] obtain s2 where
    s2: "kv_run fnd add rep del ps s1 = Inr (fst (kv_spec ps (abs_map s1)), s2)" "ok s2"
      "abs_map s2 = snd (kv_spec ps (abs_map s1))" "card_of s2 \<le> card_of s1 + length ps" by blast
  show ?case using s1 s2 by (simp add: split_beta)
qed

text \<open>What a client reads back: the value it stored last.\<close>

lemma find_after_replace:
  assumes "ok s" "card_of s < cap"
  shows "\<exists>b s1 s2. rep s k v = Inr (b, s1) \<and> fnd s1 k' = Inr ((if k' = k then Some v else abs_map s k'), s2) \<and> ok s2"
proof -
  obtain s1 where s1: "rep s k v = Inr (abs_map s k = None, s1)" "ok s1" "abs_map s1 = (abs_map s)(k \<mapsto> v)"
    using rep_law [OF assms] by blast
  obtain s2 where "fnd s1 k' = Inr (abs_map s1 k', s2)" "ok s2" using fnd_law [OF s1(2)] by blast
  then show ?thesis using s1 by auto
qed

end

end
