(* ===== verification/Dict.thy ===== *)
theory Dict
  imports Store "HOL-Library.Multiset"
begin

text \<open>
  The hash tables of \<open>src/dict.c\<close>: chained buckets, two tables while an incremental rehash is under
  way, power-of-two sizes, the hash functions, iteration. A key is compared by value; \<open>hash\<close> is the
  hash function of the dictionary's type, a 32-bit number; \<open>can_resize\<close> is the global switch.
  An entry is a pair of key and value and a bucket is its chain from the first entry on.
\<close>

unbundle bit_operations_syntax

section \<open>Hash functions\<close>

definition dictIntHashFunction :: "32 word \<Rightarrow> 32 word" where
  "dictIntHashFunction key =
     (let k1 = key + NOT (push_bit 15 key);
          k2 = k1 XOR drop_bit 10 k1;
          k3 = k2 + push_bit 3 k2;
          k4 = k3 XOR drop_bit 6 k3;
          k5 = k4 + NOT (push_bit 11 k4);
          k6 = k5 XOR drop_bit 16 k5
      in k6)"

definition byte_word :: "char \<Rightarrow> 32 word" where
  "byte_word c = of_nat (byte_val c)"

definition murmur_m :: "32 word" where
  "murmur_m = 0x5bd1e995"

text \<open>The loop over four bytes, read little-endian, and the switch on the bytes left.\<close>

fun murmur_loop :: "32 word \<Rightarrow> string \<Rightarrow> 32 word" where
  "murmur_loop h (a # b # c # d # data) =
     (let k = byte_word a + push_bit 8 (byte_word b) + push_bit 16 (byte_word c) + push_bit 24 (byte_word d);
          k1 = k * murmur_m;
          k2 = k1 XOR drop_bit 24 k1;
          k3 = k2 * murmur_m
      in murmur_loop (h * murmur_m XOR k3) data)"
| "murmur_loop h [a, b, c] =
     ((h XOR push_bit 16 (byte_word c)) XOR push_bit 8 (byte_word b) XOR byte_word a) * murmur_m"
| "murmur_loop h [a, b] = ((h XOR push_bit 8 (byte_word b)) XOR byte_word a) * murmur_m"
| "murmur_loop h [a] = (h XOR byte_word a) * murmur_m"
| "murmur_loop h [] = h"

definition dictGenHashFunction :: "32 word \<Rightarrow> string \<Rightarrow> 32 word" where
  "dictGenHashFunction seed key =
     (let h = murmur_loop (seed XOR of_nat (length key)) key;
          h1 = h XOR drop_bit 13 h;
          h2 = h1 * murmur_m
      in h2 XOR drop_bit 15 h2)"

fun case_hash_loop :: "32 word \<Rightarrow> string \<Rightarrow> 32 word" where
  "case_hash_loop hash [] = hash"
| "case_hash_loop hash (c # cs) = case_hash_loop ((push_bit 5 hash + hash) + byte_word (tolower c)) cs"

definition dictGenCaseHashFunction :: "32 word \<Rightarrow> string \<Rightarrow> 32 word" where
  "dictGenCaseHashFunction seed key = case_hash_loop seed key"

section \<open>Tables\<close>

record ('k, 'v) dictht =
  buckets :: "('k \<times> 'v) list list option"
  ht_size :: nat
  sizemask :: nat
  used :: nat

record ('k, 'v) dict =
  ht0 :: "('k, 'v) dictht"
  ht1 :: "('k, 'v) dictht"
  rehashidx :: int
  iterators :: int

definition DICT_HT_INITIAL_SIZE :: nat where
  "DICT_HT_INITIAL_SIZE = 4"

definition dict_force_resize_ratio :: nat where
  "dict_force_resize_ratio = 5"

definition dictReset :: "('k, 'v) dictht" where
  "dictReset = \<lparr>buckets = None, ht_size = 0, sizemask = 0, used = 0\<rparr>"

definition dictCreate :: "('k, 'v) dict" where
  "dictCreate = \<lparr>ht0 = dictReset, ht1 = dictReset, rehashidx = -1, iterators = 0\<rparr>"

definition dictIsRehashing :: "('k, 'v) dict \<Rightarrow> bool" where
  "dictIsRehashing d \<longleftrightarrow> rehashidx d \<noteq> -1"

definition dictSize :: "('k, 'v) dict \<Rightarrow> nat" where
  "dictSize d = used (ht0 d) + used (ht1 d)"

function next_power :: "nat \<Rightarrow> nat \<Rightarrow> nat" where
  "next_power sz i = (if i \<ge> sz \<or> i = 0 then i else next_power sz (i * 2))"
  by pat_completeness auto
termination by (relation "measure (\<lambda>(sz, i). sz - i)") auto

declare next_power.simps [simp del]

definition dictNextPower :: "nat \<Rightarrow> nat" where
  "dictNextPower sz = (if sz \<ge> 2 ^ 63 - 1 then 2 ^ 63 - 1 else next_power sz DICT_HT_INITIAL_SIZE)"

text \<open>The answer is whether the dictionary was expanded.\<close>

definition dictExpand :: "('k, 'v) dict \<Rightarrow> nat \<Rightarrow> bool \<times> ('k, 'v) dict" where
  "dictExpand d sz =
     (let realsize = dictNextPower sz in
      if dictIsRehashing d \<or> used (ht0 d) > sz then (False, d)
      else if realsize = ht_size (ht0 d) then (False, d)
      else
        (let n = \<lparr>buckets = Some (replicate realsize []), ht_size = realsize, sizemask = realsize - 1, used = 0\<rparr> in
         if buckets (ht0 d) = None then (True, d\<lparr>ht0 := n\<rparr>)
         else (True, d\<lparr>ht1 := n, rehashidx := 0\<rparr>)))"

definition dictResize :: "bool \<Rightarrow> ('k, 'v) dict \<Rightarrow> bool \<times> ('k, 'v) dict" where
  "dictResize can_resize d =
     (if \<not> can_resize \<or> dictIsRehashing d then (False, d)
      else
        (let minimal = (if used (ht0 d) < DICT_HT_INITIAL_SIZE then DICT_HT_INITIAL_SIZE else used (ht0 d))
         in dictExpand d minimal))"

section \<open>Incremental rehashing\<close>

text \<open>
  The scan for the next bucket that is not empty: the index found and the visits left, or the index
  it stopped at when the visits ran out.
\<close>

datatype scan_result = Found nat nat | GaveUp nat

function skip_empty :: "'b list list \<Rightarrow> nat \<Rightarrow> nat \<Rightarrow> scan_result res" where
  "skip_empty bs i visits =
     (if length bs \<le> i then Inl OutOfBounds
      else if bs ! i \<noteq> [] then Inr (Found i visits)
      else if visits - 1 = 0 then Inr (GaveUp (Suc i))
      else skip_empty bs (Suc i) (visits - 1))"
  by pat_completeness auto
termination by (relation "measure (\<lambda>(bs, i, visits). length bs - i)") auto

declare skip_empty.simps [simp del]

text \<open>Moving the chain of one bucket, first entry first, to the heads of the new chains.\<close>

fun move_bucket :: "('k \<Rightarrow> nat) \<Rightarrow> nat \<Rightarrow> ('k \<times> 'v) list \<Rightarrow> ('k \<times> 'v) list list \<Rightarrow> ('k \<times> 'v) list list res" where
  "move_bucket hash msk [] bs = Inr bs"
| "move_bucket hash msk (e # es) bs =
     (let h = hash (fst e) AND msk in
      if h < length bs then move_bucket hash msk es (bs[h := e # bs ! h]) else Inl OutOfBounds)"

definition rehash_done :: "('k, 'v) dict \<Rightarrow> bool \<times> ('k, 'v) dict" where
  "rehash_done d =
     (if used (ht0 d) = 0 then (False, d\<lparr>ht0 := ht1 d, ht1 := dictReset, rehashidx := -1\<rparr>) else (True, d))"

fun rehash_loop :: "('k \<Rightarrow> nat) \<Rightarrow> nat \<Rightarrow> nat \<Rightarrow> ('k, 'v) dict \<Rightarrow> (bool \<times> ('k, 'v) dict) res" where
  "rehash_loop hash 0 visits d = Inr (rehash_done d)"
| "rehash_loop hash (Suc n) visits d =
     (if used (ht0 d) = 0 then Inr (rehash_done d)
      else
        rbind (rassert (int (ht_size (ht0 d)) > rehashidx d) AssertFail) (\<lambda>_.
        rbind (deref (buckets (ht0 d))) (\<lambda>bs0.
        rbind (skip_empty bs0 (nat (rehashidx d)) visits) (\<lambda>r.
        case r of
          GaveUp i \<Rightarrow> Inr (True, d\<lparr>rehashidx := int i\<rparr>)
        | Found i visits' \<Rightarrow>
            rbind (deref (buckets (ht1 d))) (\<lambda>bs1.
            rbind (move_bucket hash (sizemask (ht1 d)) (bs0 ! i) bs1) (\<lambda>bs1'.
            let k = length (bs0 ! i);
                d' = d\<lparr>ht0 := (ht0 d)\<lparr>buckets := Some (bs0[i := []]), used := used (ht0 d) - k\<rparr>,
                       ht1 := (ht1 d)\<lparr>buckets := Some bs1', used := used (ht1 d) + k\<rparr>,
                       rehashidx := int (Suc i)\<rparr>
            in rehash_loop hash n visits' d'))))))"

definition dictRehash :: "('k \<Rightarrow> nat) \<Rightarrow> ('k, 'v) dict \<Rightarrow> nat \<Rightarrow> (bool \<times> ('k, 'v) dict) res" where
  "dictRehash hash d n =
     (if \<not> dictIsRehashing d then Inr (False, d) else rehash_loop hash n (n * 10) d)"

definition dictRehashStep :: "('k \<Rightarrow> nat) \<Rightarrow> ('k, 'v) dict \<Rightarrow> ('k, 'v) dict res" where
  "dictRehashStep hash d =
     (if iterators d = 0 then rbind (dictRehash hash d 1) (\<lambda>(more, d'). Inr d') else Inr d)"

definition rehash_if :: "('k \<Rightarrow> nat) \<Rightarrow> ('k, 'v) dict \<Rightarrow> ('k, 'v) dict res" where
  "rehash_if hash d = (if dictIsRehashing d then dictRehashStep hash d else Inr d)"

section \<open>Searching, adding, removing\<close>

text \<open>The chain a key belongs to in one table.\<close>

definition ht_chain :: "('k \<Rightarrow> nat) \<Rightarrow> ('k, 'v) dictht \<Rightarrow> 'k \<Rightarrow> (nat \<times> ('k \<times> 'v) list) res" where
  "ht_chain hash t key =
     (let idx = hash key AND sizemask t in
      rbind (deref (buckets t)) (\<lambda>bs. if idx < length bs then Inr (idx, bs ! idx) else Inl OutOfBounds))"

definition dictFind :: "('k \<Rightarrow> nat) \<Rightarrow> ('k, 'v) dict \<Rightarrow> 'k \<Rightarrow> ('v option \<times> ('k, 'v) dict) res" where
  "dictFind hash d0 key =
     (if used (ht0 d0) + used (ht1 d0) = 0 then Inr (None, d0)
      else
        rbind (rehash_if hash d0) (\<lambda>d.
        rbind (ht_chain hash (ht0 d) key) (\<lambda>(i0, c0).
        case map_of c0 key of
          Some v \<Rightarrow> Inr (Some v, d)
        | None \<Rightarrow>
            if \<not> dictIsRehashing d then Inr (None, d)
            else rbind (ht_chain hash (ht1 d) key) (\<lambda>(i1, c1). Inr (map_of c1 key, d)))))"

definition dictFetchValue :: "('k \<Rightarrow> nat) \<Rightarrow> ('k, 'v) dict \<Rightarrow> 'k \<Rightarrow> ('v option \<times> ('k, 'v) dict) res" where
  "dictFetchValue hash d key = dictFind hash d key"

definition dictExpandIfNeeded :: "bool \<Rightarrow> ('k, 'v) dict \<Rightarrow> bool \<times> ('k, 'v) dict" where
  "dictExpandIfNeeded can_resize d =
     (if dictIsRehashing d then (True, d)
      else if ht_size (ht0 d) = 0 then dictExpand d DICT_HT_INITIAL_SIZE
      else if used (ht0 d) \<ge> ht_size (ht0 d) \<and>
              (can_resize \<or> used (ht0 d) div ht_size (ht0 d) > dict_force_resize_ratio)
      then dictExpand d (used (ht0 d) * 2)
      else (True, d))"

text \<open>No index is the answer -1 of \<open>_dictKeyIndex\<close>: the key exists, or the table cannot grow.\<close>

definition dictKeyIndex :: "bool \<Rightarrow> ('k \<Rightarrow> nat) \<Rightarrow> ('k, 'v) dict \<Rightarrow> 'k \<Rightarrow> (nat option \<times> ('k, 'v) dict) res" where
  "dictKeyIndex can_resize hash d0 key =
     (case dictExpandIfNeeded can_resize d0 of (ok, d) \<Rightarrow>
      if \<not> ok then Inr (None, d)
      else
        rbind (ht_chain hash (ht0 d) key) (\<lambda>(i0, c0).
        if map_of c0 key \<noteq> None then Inr (None, d)
        else if \<not> dictIsRehashing d then Inr (Some i0, d)
        else rbind (ht_chain hash (ht1 d) key) (\<lambda>(i1, c1).
             if map_of c1 key \<noteq> None then Inr (None, d) else Inr (Some i1, d))))"

definition ht_insert :: "('k, 'v) dictht \<Rightarrow> nat \<Rightarrow> 'k \<times> 'v \<Rightarrow> ('k, 'v) dictht res" where
  "ht_insert t idx e =
     rbind (deref (buckets t)) (\<lambda>bs.
     if idx < length bs then Inr (t\<lparr>buckets := Some (bs[idx := e # bs ! idx]), used := Suc (used t)\<rparr>)
     else Inl OutOfBounds)"

text \<open>\<open>dictAddRaw\<close> with the value its caller \<open>dictAdd\<close> puts in the entry.\<close>

definition dictAdd :: "bool \<Rightarrow> ('k \<Rightarrow> nat) \<Rightarrow> ('k, 'v) dict \<Rightarrow> 'k \<Rightarrow> 'v \<Rightarrow> (bool \<times> ('k, 'v) dict) res" where
  "dictAdd can_resize hash d0 key val =
     rbind (rehash_if hash d0) (\<lambda>d1.
     rbind (dictKeyIndex can_resize hash d1 key) (\<lambda>(index, d).
     case index of
       None \<Rightarrow> Inr (False, d)
     | Some idx \<Rightarrow>
         if dictIsRehashing d
         then rbind (ht_insert (ht1 d) idx (key, val)) (\<lambda>t. Inr (True, d\<lparr>ht1 := t\<rparr>))
         else rbind (ht_insert (ht0 d) idx (key, val)) (\<lambda>t. Inr (True, d\<lparr>ht0 := t\<rparr>))))"

text \<open>Assignment to the value of the first entry of a chain with the key.\<close>

fun chain_set :: "'k \<Rightarrow> 'v \<Rightarrow> ('k \<times> 'v) list \<Rightarrow> ('k \<times> 'v) list" where
  "chain_set key v [] = []"
| "chain_set key v (e # es) = (if fst e = key then (fst e, v) # es else e # chain_set key v es)"

definition ht_set :: "('k \<Rightarrow> nat) \<Rightarrow> ('k, 'v) dictht \<Rightarrow> 'k \<Rightarrow> 'v \<Rightarrow> ('k, 'v) dictht res" where
  "ht_set hash t key v =
     rbind (ht_chain hash t key) (\<lambda>(i, c).
     rbind (deref (buckets t)) (\<lambda>bs. Inr (t\<lparr>buckets := Some (bs[i := chain_set key v c])\<rparr>)))"

text \<open>Assignment through the entry \<open>dictFind\<close> returned, which is in the first table that has the key.\<close>

definition entry_set :: "('k \<Rightarrow> nat) \<Rightarrow> ('k, 'v) dict \<Rightarrow> 'k \<Rightarrow> 'v \<Rightarrow> ('k, 'v) dict res" where
  "entry_set hash d key v =
     rbind (ht_chain hash (ht0 d) key) (\<lambda>(i0, c0).
     if map_of c0 key \<noteq> None then rbind (ht_set hash (ht0 d) key v) (\<lambda>t. Inr (d\<lparr>ht0 := t\<rparr>))
     else rbind (ht_set hash (ht1 d) key v) (\<lambda>t. Inr (d\<lparr>ht1 := t\<rparr>)))"

definition dictReplace :: "bool \<Rightarrow> ('k \<Rightarrow> nat) \<Rightarrow> ('k, 'v) dict \<Rightarrow> 'k \<Rightarrow> 'v \<Rightarrow> (bool \<times> ('k, 'v) dict) res" where
  "dictReplace can_resize hash d0 key val =
     rbind (dictAdd can_resize hash d0 key val) (\<lambda>(added, d1).
     if added then Inr (True, d1)
     else
       rbind (dictFind hash d1 key) (\<lambda>(entry, d).
       rbind (deref entry) (\<lambda>_.
       rbind (entry_set hash d key val) (\<lambda>d'. Inr (False, d')))))"

fun chain_del :: "'k \<Rightarrow> ('k \<times> 'v) list \<Rightarrow> ('k \<times> 'v) list" where
  "chain_del key [] = []"
| "chain_del key (e # es) = (if fst e = key then es else e # chain_del key es)"

definition ht_unlink :: "('k, 'v) dictht \<Rightarrow> nat \<Rightarrow> ('k \<times> 'v) list \<Rightarrow> ('k, 'v) dictht res" where
  "ht_unlink t i c =
     rbind (deref (buckets t)) (\<lambda>bs. Inr (t\<lparr>buckets := Some (bs[i := c]), used := used t - 1\<rparr>))"

definition dictDelete :: "('k \<Rightarrow> nat) \<Rightarrow> ('k, 'v) dict \<Rightarrow> 'k \<Rightarrow> (bool \<times> ('k, 'v) dict) res" where
  "dictDelete hash d0 key =
     (if ht_size (ht0 d0) = 0 then Inr (False, d0)
      else
        rbind (rehash_if hash d0) (\<lambda>d.
        rbind (ht_chain hash (ht0 d) key) (\<lambda>(i0, c0).
        if map_of c0 key \<noteq> None then
          rbind (ht_unlink (ht0 d) i0 (chain_del key c0)) (\<lambda>t. Inr (True, d\<lparr>ht0 := t\<rparr>))
        else if \<not> dictIsRehashing d then Inr (False, d)
        else
          rbind (ht_chain hash (ht1 d) key) (\<lambda>(i1, c1).
          if map_of c1 key \<noteq> None then
            rbind (ht_unlink (ht1 d) i1 (chain_del key c1)) (\<lambda>t. Inr (True, d\<lparr>ht1 := t\<rparr>))
          else Inr (False, d)))))"

definition dictEmpty :: "('k, 'v) dict \<Rightarrow> ('k, 'v) dict" where
  "dictEmpty d = d\<lparr>ht0 := dictReset, ht1 := dictReset, rehashidx := -1, iterators := 0\<rparr>"

section \<open>Iteration\<close>

text \<open>
  The position of an iterator: the table, the index in it, and the saved chain behind the entry
  returned last. \<open>next_bucket\<close> is the \<open>while\<close> loop of \<open>dictNext\<close> over empty buckets.
\<close>

record ('k, 'v) dictIterator =
  it_table :: nat
  it_index :: int
  it_safe :: bool
  it_chain :: "('k \<times> 'v) list"

definition dictGetIterator :: "bool \<Rightarrow> ('k, 'v) dictIterator" where
  "dictGetIterator safe = \<lparr>it_table = 0, it_index = -1, it_safe = safe, it_chain = []\<rparr>"

definition iter_ht :: "('k, 'v) dict \<Rightarrow> nat \<Rightarrow> ('k, 'v) dictht" where
  "iter_ht d t = (if t = 0 then ht0 d else ht1 d)"

function next_bucket :: "('k, 'v) dict \<Rightarrow> nat \<Rightarrow> nat \<Rightarrow> (nat \<times> nat \<times> ('k \<times> 'v) list) res" where
  "next_bucket d t i =
     (if i \<ge> ht_size (iter_ht d t) then
        (if dictIsRehashing d \<and> t = 0 then
           rbind (deref (buckets (ht1 d))) (\<lambda>bs. if bs = [] then Inl OutOfBounds else next_bucket d 1 0)
         else Inr (t, i, []))
      else
        rbind (deref (buckets (iter_ht d t))) (\<lambda>bs.
        if length bs \<le> i then Inl OutOfBounds
        else if bs ! i \<noteq> [] then Inr (t, i, bs ! i)
        else next_bucket d t (Suc i)))"
  by pat_completeness auto
termination
  by (relation "measures [\<lambda>(d, t, i). 1 - t, \<lambda>(d, t, i). ht_size (iter_ht d t) - i]") auto

declare next_bucket.simps [simp del]

text \<open>The fingerprint that guards unsafe iterators is made of addresses and is left out.\<close>

definition dictNext :: "('k, 'v) dict \<Rightarrow> ('k, 'v) dictIterator \<Rightarrow>
    (('k \<times> 'v) option \<times> ('k, 'v) dict \<times> ('k, 'v) dictIterator) res" where
  "dictNext d it =
     (case it_chain it of
        e # es \<Rightarrow> Inr (Some e, d, it\<lparr>it_chain := es\<rparr>)
      | [] \<Rightarrow>
          let d1 = (if it_index it = -1 \<and> it_table it = 0 \<and> it_safe it then d\<lparr>iterators := iterators d + 1\<rparr> else d) in
          rbind (next_bucket d (it_table it) (nat (it_index it + 1))) (\<lambda>(t, i, c).
          let it1 = it\<lparr>it_table := t, it_index := int i\<rparr> in
          case c of
            [] \<Rightarrow> Inr (None, d1, it1)
          | e # es \<Rightarrow> Inr (Some e, d1, it1\<lparr>it_chain := es\<rparr>)))"

definition dictReleaseIterator :: "('k, 'v) dict \<Rightarrow> ('k, 'v) dictIterator \<Rightarrow> ('k, 'v) dict" where
  "dictReleaseIterator d it =
     (if \<not> (it_index it = -1 \<and> it_table it = 0) \<and> it_safe it then d\<lparr>iterators := iterators d - 1\<rparr> else d)"

section \<open>Invariant and abstraction\<close>

definition bucket_list :: "('k, 'v) dictht \<Rightarrow> ('k \<times> 'v) list list" where
  "bucket_list t = (case buckets t of None \<Rightarrow> [] | Some bs \<Rightarrow> bs)"

definition dict_entries :: "('k, 'v) dict \<Rightarrow> ('k \<times> 'v) list" where
  "dict_entries d = concat (bucket_list (ht0 d)) @ concat (bucket_list (ht1 d))"

definition dict_map :: "('k, 'v) dict \<Rightarrow> 'k \<rightharpoonup> 'v" where
  "dict_map d = map_of (dict_entries d)"

definition placed :: "('k \<Rightarrow> nat) \<Rightarrow> nat \<Rightarrow> ('k \<times> 'v) list list \<Rightarrow> bool" where
  "placed hash m bs \<longleftrightarrow> (\<forall>i < length bs. \<forall>e \<in> set (bs ! i). hash (fst e) AND m = i)"

definition ht_ok :: "('k \<Rightarrow> nat) \<Rightarrow> ('k, 'v) dictht \<Rightarrow> bool" where
  "ht_ok hash t \<longleftrightarrow>
     (case buckets t of
        None \<Rightarrow> ht_size t = 0 \<and> sizemask t = 0 \<and> used t = 0
      | Some bs \<Rightarrow>
          (\<exists>k. ht_size t = 2 ^ k) \<and> sizemask t = ht_size t - 1 \<and> length bs = ht_size t \<and>
          used t = length (concat bs) \<and> placed hash (sizemask t) bs)"

definition dict_ok :: "('k \<Rightarrow> nat) \<Rightarrow> ('k, 'v) dict \<Rightarrow> bool" where
  "dict_ok hash d \<longleftrightarrow>
     ht_ok hash (ht0 d) \<and> ht_ok hash (ht1 d) \<and> distinct (map fst (dict_entries d)) \<and>
     (if rehashidx d = -1 then buckets (ht1 d) = None
      else 0 \<le> rehashidx d \<and> buckets (ht0 d) \<noteq> None \<and> buckets (ht1 d) \<noteq> None \<and>
        (\<forall>i < nat (rehashidx d). i < length (bucket_list (ht0 d)) \<longrightarrow> bucket_list (ht0 d) ! i = []))"

lemma and_size_less: "(h AND (2 ^ k - 1) :: nat) < 2 ^ k"
proof -
  have "h AND (2 ^ k - 1) = take_bit k h" by (simp add: take_bit_eq_mask mask_eq_exp_minus_1)
  then show ?thesis by (simp add: take_bit_nat_less_exp)
qed

lemma ht_ok_Some:
  assumes "ht_ok hash t" "buckets t = Some bs"
  shows "length bs = ht_size t" "used t = length (concat bs)" "placed hash (sizemask t) bs"
    "hash key AND sizemask t < length bs" "bucket_list t = bs" "0 < ht_size t"
proof -
  from assms obtain k where k: "ht_size t = 2 ^ k" "sizemask t = 2 ^ k - 1" by (auto simp: ht_ok_def)
  then show "hash key AND sizemask t < length bs" "0 < ht_size t"
    using and_size_less [of "hash key" k] assms by (auto simp: ht_ok_def)
qed (use assms in \<open>auto simp: ht_ok_def bucket_list_def\<close>)

lemma ht_ok_None: "ht_ok hash t \<Longrightarrow> buckets t = None \<Longrightarrow> t = dictReset"
  by (cases t) (auto simp: ht_ok_def dictReset_def)

lemma ht_ok_reset [simp]: "ht_ok hash dictReset"
  by (simp add: ht_ok_def dictReset_def)

lemma bucket_list_simps [simp]:
  "buckets t = None \<Longrightarrow> bucket_list t = []" "buckets t = Some bs \<Longrightarrow> bucket_list t = bs"
  "bucket_list dictReset = []"
  by (simp_all add: bucket_list_def dictReset_def)

lemma mset_concat_update:
  "i < length bs \<Longrightarrow> mset (concat (bs[i := b])) + mset (bs ! i) = mset (concat bs) + mset b"
proof (induction bs arbitrary: i)
  case (Cons a bs)
  then show ?case by (cases i) (simp_all add: ac_simps)
qed simp

lemma length_concat_update:
  "i < length bs \<Longrightarrow> length (concat (bs[i := b])) + length (bs ! i) = length (concat bs) + length b"
  using arg_cong [OF mset_concat_update [of i bs b], of size] by simp

lemma placed_update:
  assumes "placed hash m bs" "i < length bs" "\<And>e. e \<in> set b \<Longrightarrow> hash (fst e) AND m = i"
  shows "placed hash m (bs[i := b])"
  using assms by (auto simp: placed_def nth_list_update)

lemma dict_map_cong:
  assumes "mset (dict_entries d') = mset (dict_entries d)" "distinct (map fst (dict_entries d))"
  shows "dict_map d' = dict_map d" "distinct (map fst (dict_entries d'))"
proof -
  have "mset (map fst (dict_entries d')) = mset (map fst (dict_entries d))" using assms(1) by simp
  then show dst: "distinct (map fst (dict_entries d'))" using assms(2) mset_eq_imp_distinct_iff by blast
  have "set (dict_entries d') = set (dict_entries d)" using assms(1) by (metis set_mset_mset)
  then show "dict_map d' = dict_map d"
    unfolding dict_map_def using map_of_inject_set [OF dst assms(2)] by blast
qed

lemma map_of_concat_None: "(\<And>b. b \<in> set bs \<Longrightarrow> map_of b key = None) \<Longrightarrow> map_of (concat bs) key = None"
  by (induction bs) (auto simp: map_add_def)

lemma map_of_concat_at:
  assumes "i < length bs" "\<And>j. j < length bs \<Longrightarrow> j \<noteq> i \<Longrightarrow> map_of (bs ! j) key = None"
  shows "map_of (concat bs) key = map_of (bs ! i) key"
proof -
  have "map_of (concat (take i bs)) key = None"
    using assms by (intro map_of_concat_None) (auto simp: in_set_conv_nth)
  moreover have "map_of (concat (drop (Suc i) bs)) key = None"
    using assms by (intro map_of_concat_None) (auto simp: in_set_conv_nth)
  moreover have "concat bs = concat (take i bs) @ bs ! i @ concat (drop (Suc i) bs)"
    using assms(1) by (metis concat.simps(2) concat_append id_take_nth_drop)
  ultimately show ?thesis by (auto simp: map_add_def split: option.splits)
qed

lemma map_of_placed:
  assumes "placed hash m bs" "hash key AND m < length bs"
  shows "map_of (concat bs) key = map_of (bs ! (hash key AND m)) key"
proof (rule map_of_concat_at [OF assms(2)])
  fix j assume "j < length bs" "j \<noteq> hash key AND m"
  then have "key \<notin> fst ` set (bs ! j)" using assms(1) by (auto simp: placed_def)
  then show "map_of (bs ! j) key = None" by (simp add: map_of_eq_None_iff)
qed

lemma ht_chain_ok:
  assumes "ht_ok hash t" "buckets t = Some bs"
  shows "ht_chain hash t key = Inr (hash key AND sizemask t, bs ! (hash key AND sizemask t))"
    and "map_of (bs ! (hash key AND sizemask t)) key = map_of (concat (bucket_list t)) key"
  using ht_ok_Some [OF assms] assms(2) by (simp_all add: ht_chain_def Let_def map_of_placed)

subsection \<open>Rehashing keeps every entry\<close>

lemma skip_empty_ok:
  assumes "i \<le> length bs" "concat (drop i bs) \<noteq> []" "0 < visits"
  shows "\<exists>r. skip_empty bs i visits = Inr r \<and>
    (case r of Found j v \<Rightarrow> i \<le> j \<and> j < length bs \<and> bs ! j \<noteq> [] \<and> 0 < v \<and> (\<forall>k. i \<le> k \<and> k < j \<longrightarrow> bs ! k = [])
     | GaveUp j \<Rightarrow> i < j \<and> j < length bs \<and> (\<forall>k. i \<le> k \<and> k < j \<longrightarrow> bs ! k = []))"
  using assms
proof (induction bs i visits rule: skip_empty.induct)
  case (1 bs i visits)
  have i: "i < length bs" using "1.prems" by (metis concat.simps(1) drop_all le_neq_implies_less)
  show ?case
  proof (cases "bs ! i = []")
    case False
    then show ?thesis using i "1.prems" by (subst skip_empty.simps) auto
  next
    case True
    have d: "concat (drop (Suc i) bs) \<noteq> []"
      using "1.prems"(2) True i by (metis append_Nil concat.simps(2) Cons_nth_drop_Suc)
    then have si: "Suc i < length bs" by (metis concat.simps(1) drop_all not_less)
    show ?thesis
    proof (cases "visits - 1 = 0")
      case t: True
      then show ?thesis using True i si by (subst skip_empty.simps) (auto simp: le_less_Suc_eq)
    next
      case False
      from "1.IH" [OF _ _ False _ d] i True si False obtain r where
        r: "skip_empty bs (Suc i) (visits - 1) = Inr r"
        "case r of Found j v \<Rightarrow> Suc i \<le> j \<and> j < length bs \<and> bs ! j \<noteq> [] \<and> 0 < v \<and> (\<forall>k. Suc i \<le> k \<and> k < j \<longrightarrow> bs ! k = [])
         | GaveUp j \<Rightarrow> Suc i < j \<and> j < length bs \<and> (\<forall>k. Suc i \<le> k \<and> k < j \<longrightarrow> bs ! k = [])" by auto
      have "skip_empty bs i visits = Inr r" using i True False r(1) by (subst skip_empty.simps) simp
      moreover have "bs ! k = []" if "i \<le> k" "k < j" "\<forall>k. Suc i \<le> k \<and> k < j \<longrightarrow> bs ! k = []" for j k
        using that True by (cases "k = i") auto
      ultimately show ?thesis using r(2) by (cases r) auto
    qed
  qed
qed

lemma move_bucket_ok:
  assumes "placed hash m bs" "\<And>h. h AND m < length bs"
  shows "\<exists>bs'. move_bucket hash m es bs = Inr bs' \<and> length bs' = length bs \<and> placed hash m bs' \<and>
    mset (concat bs') = mset (concat bs) + mset es"
  using assms
proof (induction hash m es bs rule: move_bucket.induct)
  case (2 hash m e es bs)
  let ?h = "hash (fst e) AND m"
  let ?bs = "bs[?h := e # bs ! ?h]"
  have h: "?h < length bs" using "2.prems"(2) .
  have p: "placed hash m ?bs"
    using "2.prems"(1) h by (intro placed_update) (auto simp: placed_def)
  have ms: "mset (concat ?bs) = add_mset e (mset (concat bs))" using mset_concat_update [OF h, of "e # bs ! ?h"] by simp
  from "2.IH" [OF refl h p] "2.prems"(2) obtain bs' where
    "move_bucket hash m es ?bs = Inr bs'" "length bs' = length ?bs" "placed hash m bs'"
    "mset (concat bs') = mset (concat ?bs) + mset es" by auto
  with h ms show ?case by (simp add: Let_def)
qed simp

lemma ht_ok_move_from:
  assumes "ht_ok hash t" "buckets t = Some bs" "i < length bs"
  shows "ht_ok hash (t\<lparr>buckets := Some (bs[i := []]), used := used t - length (bs ! i)\<rparr>)"
proof -
  have "length (concat (bs[i := []])) = length (concat bs) - length (bs ! i)"
    using length_concat_update [OF assms(3), of "[]"] by simp
  moreover have "placed hash (sizemask t) (bs[i := []])"
    using ht_ok_Some(3) [OF assms(1,2)] assms(3) by (intro placed_update) auto
  ultimately show ?thesis using assms by (simp add: ht_ok_def)
qed

lemma ht_ok_move_to:
  assumes "ht_ok hash t" "buckets t = Some bs" "length bs' = length bs" "placed hash (sizemask t) bs'"
    "mset (concat bs') = mset (concat bs) + mset es"
  shows "ht_ok hash (t\<lparr>buckets := Some bs', used := used t + length es\<rparr>)"
proof -
  have "length (concat bs') = length (concat bs) + length es" using arg_cong [OF assms(5), of size] by simp
  then show ?thesis using assms by (simp add: ht_ok_def)
qed

lemma dict_ok_rehashing:
  assumes "dict_ok hash d" "dictIsRehashing d"
  obtains b0 b1 where "buckets (ht0 d) = Some b0" "buckets (ht1 d) = Some b1" "0 \<le> rehashidx d"
    "\<And>i. i < nat (rehashidx d) \<Longrightarrow> i < length b0 \<Longrightarrow> b0 ! i = []" "ht_ok hash (ht0 d)" "ht_ok hash (ht1 d)"
  using assms by (auto simp: dict_ok_def dictIsRehashing_def)

lemma rehash_done_ok:
  assumes "dict_ok hash d" "dictIsRehashing d"
  shows "\<exists>more d'. rehash_done d = (more, d') \<and> dict_ok hash d' \<and> mset (dict_entries d') = mset (dict_entries d) \<and>
    iterators d' = iterators d \<and> (\<exists>b. buckets (ht0 d') = Some b) \<and> dictIsRehashing d' = more \<and> (more \<longrightarrow> d' = d)"
proof (cases "used (ht0 d) = 0")
  case True
  obtain b0 b1 where b: "buckets (ht0 d) = Some b0" "buckets (ht1 d) = Some b1" "ht_ok hash (ht0 d)" "ht_ok hash (ht1 d)"
    using dict_ok_rehashing [OF assms] by metis
  have "concat b0 = []" using ht_ok_Some(2) [OF b(3,1)] True by simp
  then have e: "dict_entries d = concat b1" using b by (simp add: dict_entries_def)
  let ?d = "d\<lparr>ht0 := ht1 d, ht1 := dictReset, rehashidx := -1\<rparr>"
  have "dict_entries ?d = dict_entries d" using e b(2) by (simp add: dict_entries_def)
  moreover have "dict_ok hash ?d"
    using assms(1) b(4) calculation by (simp add: dict_ok_def) (simp add: dictReset_def)
  moreover have "rehash_done d = (False, ?d)" "\<not> dictIsRehashing ?d"
    using True by (simp_all add: rehash_done_def dictIsRehashing_def)
  ultimately show ?thesis using b(2) by (intro exI [of _ False] exI [of _ ?d]) simp
next
  case False
  then have "rehash_done d = (True, d)" by (simp add: rehash_done_def)
  moreover obtain b where "buckets (ht0 d) = Some b" using dict_ok_rehashing [OF assms] by metis
  ultimately show ?thesis using assms by (intro exI [of _ True] exI [of _ d]) simp
qed

lemma concat_drop_ne:
  assumes "concat bs \<noteq> []" "\<And>i. i < n \<Longrightarrow> i < length bs \<Longrightarrow> bs ! i = []"
  shows "concat (drop n bs) \<noteq> []" "n < length bs"
proof -
  have "concat (take n bs) = []" using assms(2) by (auto simp: in_set_conv_nth)
  then show ne: "concat (drop n bs) \<noteq> []" using assms(1) by (metis append_Nil append_take_drop_id concat_append)
  then show "n < length bs" by (metis concat.simps(1) drop_all not_less)
qed

lemma rehash_loop_ok:
  assumes "dict_ok hash d" "dictIsRehashing d" "0 < visits"
  shows "\<exists>more d'. rehash_loop hash n visits d = Inr (more, d') \<and> dict_ok hash d' \<and>
    mset (dict_entries d') = mset (dict_entries d) \<and> iterators d' = iterators d \<and> (\<exists>b. buckets (ht0 d') = Some b) \<and>
    dictIsRehashing d' = more \<and>
    (more \<longrightarrow> ht_size (ht0 d') = ht_size (ht0 d) \<and> rehashidx d + (if n = 0 then 0 else 1) \<le> rehashidx d')"
  using assms
proof (induction n arbitrary: visits d)
  case 0
  then show ?case using rehash_done_ok by fastforce
next
  case (Suc n)
  obtain b0 b1 where b: "buckets (ht0 d) = Some b0" "buckets (ht1 d) = Some b1" "0 \<le> rehashidx d"
    "\<And>i. i < nat (rehashidx d) \<Longrightarrow> i < length b0 \<Longrightarrow> b0 ! i = []" "ht_ok hash (ht0 d)" "ht_ok hash (ht1 d)"
    using dict_ok_rehashing [OF Suc.prems(1,2)] by blast
  note t0 = ht_ok_Some [OF b(5,1)] and t1 = ht_ok_Some [OF b(6,2)]
  show ?case
  proof (cases "used (ht0 d) = 0")
    case True
    then have "fst (rehash_done d) = False" "rehash_loop hash (Suc n) visits d = Inr (rehash_done d)"
      by (simp_all add: rehash_done_def)
    then show ?thesis using rehash_done_ok [OF Suc.prems(1,2)] by (auto simp del: rehash_loop.simps)
  next
    case False
    then have "concat b0 \<noteq> []" using t0(2) by auto
    note ne = concat_drop_ne [OF this, of "nat (rehashidx d)", OF b(4)]
    have as: "int (ht_size (ht0 d)) > rehashidx d" using ne(2) t0(1) b(3) by simp
    obtain r where r: "skip_empty b0 (nat (rehashidx d)) visits = Inr r"
      "case r of Found j v \<Rightarrow> nat (rehashidx d) \<le> j \<and> j < length b0 \<and> b0 ! j \<noteq> [] \<and> 0 < v \<and>
          (\<forall>k. nat (rehashidx d) \<le> k \<and> k < j \<longrightarrow> b0 ! k = [])
       | GaveUp j \<Rightarrow> nat (rehashidx d) < j \<and> j < length b0 \<and> (\<forall>k. nat (rehashidx d) \<le> k \<and> k < j \<longrightarrow> b0 ! k = [])"
      using skip_empty_ok [OF less_imp_le [OF ne(2)] ne(1) Suc.prems(3)] by blast
    show ?thesis
    proof (cases r)
      case (GaveUp j)
      then have empty: "b0 ! k = []" if "k < j" "k < length b0" for k
        using r(2) b(4) that by (cases "k < nat (rehashidx d)") auto
      have "rehash_loop hash (Suc n) visits d = Inr (True, d\<lparr>rehashidx := int j\<rparr>)"
        using False as b(1) r(1) GaveUp by simp
      moreover have "dict_ok hash (d\<lparr>rehashidx := int j\<rparr>)"
        using Suc.prems(1,2) b empty by (simp add: dict_ok_def dict_entries_def)
      moreover have adv: "rehashidx d + 1 \<le> int j" using GaveUp r(2) b(3) by auto
      ultimately show ?thesis
        by (intro exI [of _ True] exI [of _ "d\<lparr>rehashidx := int j\<rparr>"]) (use adv in \<open>simp add: dict_entries_def b(1) dictIsRehashing_def del: rehash_loop.simps\<close>)
    next
      case (Found i v)
      then have i: "nat (rehashidx d) \<le> i" "i < length b0" "0 < v" "\<forall>k. nat (rehashidx d) \<le> k \<and> k < i \<longrightarrow> b0 ! k = []"
        using r(2) by auto
      have less: "h AND sizemask (ht1 d) < length b1" for h
      proof -
        from b(6,2) obtain k where "ht_size (ht1 d) = 2 ^ k" "sizemask (ht1 d) = 2 ^ k - 1" by (auto simp: ht_ok_def)
        then show ?thesis using and_size_less [of h k] t1(1) by simp
      qed
      obtain bs' where m: "move_bucket hash (sizemask (ht1 d)) (b0 ! i) b1 = Inr bs'" "length bs' = length b1"
        "placed hash (sizemask (ht1 d)) bs'" "mset (concat bs') = mset (concat b1) + mset (b0 ! i)"
        using move_bucket_ok [OF t1(3) less] by blast
      define d' where "d' = d\<lparr>ht0 := (ht0 d)\<lparr>buckets := Some (b0[i := []]), used := used (ht0 d) - length (b0 ! i)\<rparr>,
                       ht1 := (ht1 d)\<lparr>buckets := Some bs', used := used (ht1 d) + length (b0 ! i)\<rparr>,
                       rehashidx := int (Suc i)\<rparr>"
      have ms: "mset (dict_entries d') = mset (dict_entries d)"
        using mset_concat_update [OF i(2), of "[]"] m(4) b(1,2) by (simp add: d'_def dict_entries_def)
      have empty: "b0[i := []] ! k = []" if "k < Suc i" "k < length b0" for k
        using that i(4) b(4) by (cases "k = i"; cases "k < nat (rehashidx d)") auto
      have "dict_ok hash d'"
      proof -
        have "distinct (map fst (dict_entries d))" using Suc.prems(1) by (simp add: dict_ok_def)
        from dict_map_cong(2) [OF ms this] show ?thesis
          using ht_ok_move_from [OF b(5,1) i(2)] ht_ok_move_to [OF b(6,2) m(2-4)] empty
          by (simp add: dict_ok_def d'_def)
      qed
      moreover have "dictIsRehashing d'" by (simp add: d'_def dictIsRehashing_def)
      ultimately obtain more d'' where
        "rehash_loop hash n v d' = Inr (more, d'')" "dict_ok hash d''" "mset (dict_entries d'') = mset (dict_entries d')"
        "iterators d'' = iterators d'" "\<exists>b. buckets (ht0 d'') = Some b"
        "dictIsRehashing d'' = more" "more \<longrightarrow> ht_size (ht0 d'') = ht_size (ht0 d') \<and> rehashidx d' + (if n = 0 then 0 else 1) \<le> rehashidx d''"
        using Suc.IH [of d' v] i(3) by blast
      moreover have "rehash_loop hash (Suc n) visits d = rehash_loop hash n v d'"
        using False as b(1,2) r(1) Found m(1) by (simp add: d'_def Let_def)
      moreover have "rehashidx d + 1 \<le> rehashidx d'" "ht_size (ht0 d') = ht_size (ht0 d)" "iterators d' = iterators d"
        using i(1) b(3) by (auto simp: d'_def)
      ultimately show ?thesis using ms
        by (intro exI [of _ more] exI [of _ d'']) (auto simp del: rehash_loop.simps split: if_splits)
    qed
  qed
qed

lemma rehash_if_ok:
  assumes "dict_ok hash d"
  shows "\<exists>d'. rehash_if hash d = Inr d' \<and> dict_ok hash d' \<and> mset (dict_entries d') = mset (dict_entries d) \<and>
    iterators d' = iterators d \<and> (buckets (ht0 d) \<noteq> None \<longrightarrow> buckets (ht0 d') \<noteq> None)"
proof (cases "dictIsRehashing d \<and> iterators d = 0")
  case True
  then obtain more d' where "rehash_loop hash 1 10 d = Inr (more, d')" "dict_ok hash d'"
    "mset (dict_entries d') = mset (dict_entries d)" "iterators d' = iterators d" "\<exists>b. buckets (ht0 d') = Some b"
    using rehash_loop_ok [OF assms, of 10 1] by auto
  moreover from this have "rehash_if hash d = Inr d'"
    using True by (simp add: rehash_if_def dictRehashStep_def dictRehash_def del: rehash_loop.simps)
  ultimately show ?thesis by auto
next
  case False
  then show ?thesis using assms by (auto simp: rehash_if_def dictRehashStep_def)
qed

lemma dictSize_entries: "dict_ok hash d \<Longrightarrow> dictSize d = length (dict_entries d)"
proof -
  assume d: "dict_ok hash d"
  have "used t = length (concat (bucket_list t))" if "ht_ok hash t" for t :: "('a, 'b) dictht"
    using that by (auto simp: ht_ok_def bucket_list_def split: option.splits)
  with d show ?thesis by (simp add: dictSize_def dict_entries_def dict_ok_def)
qed

subsection \<open>Lookup\<close>

lemma dict_map_two:
  "dict_map d key = (case map_of (concat (bucket_list (ht0 d))) key of
     Some v \<Rightarrow> Some v | None \<Rightarrow> map_of (concat (bucket_list (ht1 d))) key)"
  by (simp add: dict_map_def dict_entries_def map_add_def)

lemma dict_ok_not_rehashing:
  assumes "dict_ok hash d" "\<not> dictIsRehashing d"
  shows "ht1 d = dictReset" "dict_entries d = concat (bucket_list (ht0 d))"
  using assms ht_ok_None [of hash "ht1 d"] by (auto simp: dict_ok_def dictIsRehashing_def dict_entries_def)

lemma dictFind_ok:
  assumes "dict_ok hash d"
  shows "\<exists>d'. dictFind hash d key = Inr (dict_map d key, d') \<and> dict_ok hash d' \<and>
    mset (dict_entries d') = mset (dict_entries d) \<and> iterators d' = iterators d"
proof (cases "used (ht0 d) + used (ht1 d) = 0")
  case True
  then have "dict_entries d = []" using dictSize_entries [OF assms] by (simp add: dictSize_def)
  with True assms show ?thesis by (simp add: dictFind_def dict_map_def)
next
  case False
  obtain d' where d': "rehash_if hash d = Inr d'" "dict_ok hash d'" "mset (dict_entries d') = mset (dict_entries d)"
    "iterators d' = iterators d" using rehash_if_ok [OF assms] by blast
  have "distinct (map fst (dict_entries d))" using assms by (simp add: dict_ok_def)
  note same = dict_map_cong(1) [OF d'(3) this]
  have "dict_entries d \<noteq> []" using dictSize_entries [OF assms] False by (auto simp: dictSize_def)
  then have ne: "dict_entries d' \<noteq> []" using d'(3) by (metis mset_zero_iff)
  obtain b0 where b0: "buckets (ht0 d') = Some b0"
  proof (cases "dictIsRehashing d'")
    case True
    then show ?thesis using that dict_ok_rehashing [OF d'(2)] by metis
  next
    case nr: False
    then show ?thesis using that ne dict_ok_not_rehashing(2) [OF d'(2)] by (cases "buckets (ht0 d')") auto
  qed
  have ok: "ht_ok hash (ht0 d')" "ht_ok hash (ht1 d')" using d'(2) by (simp_all add: dict_ok_def)
  note c0 = ht_chain_ok [OF ok(1) b0]
  show ?thesis
  proof (cases "dictIsRehashing d'")
    case True
    then obtain b1 where b1: "buckets (ht1 d') = Some b1" using dict_ok_rehashing [OF d'(2)] by metis
    note c1 = ht_chain_ok [OF ok(2) b1]
    have "dictFind hash d key = Inr (dict_map d' key, d')"
      using False d'(1) True unfolding dictFind_def dict_map_two [of d']
      by (auto simp: c0(1) c1(1) c0(2) [of key] c1(2) [of key] split: option.split)
    with d' same show ?thesis by simp
  next
    case nr: False
    then have "bucket_list (ht1 d') = []" using dict_ok_not_rehashing(1) [OF d'(2)] by simp
    then have "dictFind hash d key = Inr (dict_map d' key, d')"
      using False d'(1) nr unfolding dictFind_def dict_map_two [of d']
      by (auto simp: c0(1) c0(2) [of key] split: option.split)
    with d' same show ?thesis by simp
  qed
qed

subsection \<open>Adding, replacing, removing\<close>

lemma map_of_insert:
  assumes "mset xs = add_mset (k, v) (mset ys)" "distinct (map fst xs)"
  shows "map_of xs = (map_of ys)(k \<mapsto> v)" "map_of ys k = None" "distinct (map fst ys)"
proof -
  have m: "mset xs = mset ((k, v) # ys)" using assms(1) by simp
  then have "mset (map fst xs) = mset (map fst ((k, v) # ys))" by (simp only: mset_map)
  then have d: "distinct (map fst ((k, v) # ys))" using assms(2) mset_eq_imp_distinct_iff by blast
  have "set xs = set ((k, v) # ys)" using m by (metis set_mset_mset)
  then have "map_of xs = map_of ((k, v) # ys)" using map_of_inject_set [OF assms(2) d] by blast
  then show "map_of xs = (map_of ys)(k \<mapsto> v)" by simp
  show "map_of ys k = None" "distinct (map fst ys)" using d by (auto simp: map_of_eq_None_iff)
qed

lemma chain_del_ok: "map_of c key = Some v \<Longrightarrow> mset c = add_mset (key, v) (mset (chain_del key c))"
  by (induction c) (auto split: if_splits)

lemma chain_set_ok: "map_of c key \<noteq> None \<Longrightarrow> mset (chain_set key w c) = add_mset (key, w) (mset (chain_del key c))"
  by (induction c) (auto split: if_splits)

lemma set_chain_del: "e \<in> set (chain_del key c) \<Longrightarrow> e \<in> set c"
  by (induction c) (auto split: if_splits)

lemma set_chain_set: "e \<in> set (chain_set key w c) \<Longrightarrow> fst e = key \<or> e \<in> set c"
  by (induction c) (auto split: if_splits)

lemma ht_insert_ok:
  assumes "ht_ok hash t" "buckets t = Some bs"
  shows "\<exists>t'. ht_insert t (hash key AND sizemask t) (key, v) = Inr t' \<and> ht_ok hash t' \<and> buckets t' \<noteq> None \<and>
    mset (concat (bucket_list t')) = add_mset (key, v) (mset (concat (bucket_list t)))"
proof -
  let ?i = "hash key AND sizemask t"
  let ?bs = "bs[?i := (key, v) # bs ! ?i]"
  let ?t = "t\<lparr>buckets := Some ?bs, used := Suc (used t)\<rparr>"
  note t = ht_ok_Some [OF assms]
  have m: "mset (concat ?bs) = add_mset (key, v) (mset (concat bs))"
    using mset_concat_update [OF t(4), of key "(key, v) # bs ! ?i"] by simp
  moreover have "placed hash (sizemask t) ?bs"
    using t(3,4) by (intro placed_update) (auto simp: placed_def)
  moreover have "length (concat ?bs) = Suc (length (concat bs))" using arg_cong [OF m, of size] by simp
  ultimately have "ht_ok hash ?t" using assms by (simp add: ht_ok_def)
  then show ?thesis using t(4,5) assms(2) m by (simp add: ht_insert_def)
qed

text \<open>Replacing a chain by one with other entries of the same bucket.\<close>

lemma ht_rechain_ok:
  assumes "ht_ok hash t" "buckets t = Some bs" "i = hash key AND sizemask t"
    and "\<And>e. e \<in> set c \<Longrightarrow> fst e = key \<or> e \<in> set (bs ! i)" "u + length (bs ! i) = used t + length c"
  shows "ht_ok hash (t\<lparr>buckets := Some (bs[i := c]), used := u\<rparr>)"
    and "mset (concat (bs[i := c])) + mset (bs ! i) = mset (concat bs) + mset c"
proof -
  note t = ht_ok_Some [OF assms(1,2)]
  have i: "i < length bs" using t(4) assms(3) by simp
  show "mset (concat (bs[i := c])) + mset (bs ! i) = mset (concat bs) + mset c" using mset_concat_update [OF i] .
  have "placed hash (sizemask t) (bs[i := c])"
    using t(3) i assms(3,4) by (intro placed_update) (auto simp: placed_def)
  moreover have "u = length (concat (bs[i := c]))"
    using length_concat_update [OF i, of c] assms(5) t(2) by linarith
  ultimately show "ht_ok hash (t\<lparr>buckets := Some (bs[i := c]), used := u\<rparr>)"
    using assms(1,2) by (simp add: ht_ok_def)
qed

lemma next_power_ok: "\<exists>k. next_power sz (2 ^ j) = 2 ^ k \<and> sz \<le> 2 ^ k \<and> j \<le> k"
proof (induction "sz - 2 ^ j" arbitrary: j rule: less_induct)
  case less
  show ?case
  proof (cases "2 ^ j \<ge> sz")
    case True
    then show ?thesis by (subst next_power.simps) auto
  next
    case False
    moreover have "(2 :: nat) ^ j < 2 ^ Suc j" by simp
    ultimately have "sz - 2 ^ Suc j < sz - 2 ^ j" by linarith
    from less [OF this] obtain k where "next_power sz (2 ^ Suc j) = 2 ^ k" "sz \<le> 2 ^ k" "Suc j \<le> k" by blast
    then show ?thesis using False by (subst next_power.simps) (auto simp: mult.commute)
  qed
qed

lemma dictNextPower_ok: "sz < 2 ^ 63 - 1 \<Longrightarrow> \<exists>k. dictNextPower sz = 2 ^ k \<and> sz \<le> 2 ^ k"
  using next_power_ok [of sz 2] by (auto simp: dictNextPower_def DICT_HT_INITIAL_SIZE_def)

lemma dictExpand_ok:
  assumes "dict_ok hash d" "dictExpand d sz = (b, d')" "sz < 2 ^ 63 - 1"
  shows "dict_ok hash d'" "dict_entries d' = dict_entries d" "iterators d' = iterators d"
    "b \<Longrightarrow> buckets (ht0 d') \<noteq> None"
proof -
  obtain k where k: "dictNextPower sz = 2 ^ k" using dictNextPower_ok [OF assms(3)] by blast
  let ?n = "\<lparr>buckets = Some (replicate (2 ^ k) []), ht_size = 2 ^ k, sizemask = 2 ^ k - 1, used = 0\<rparr> :: ('a, 'b) dictht"
  have n: "ht_ok hash ?n" by (auto simp: ht_ok_def placed_def)
  have c: "concat (replicate m []) = []" for m by simp
  show "dict_ok hash d'" "dict_entries d' = dict_entries d" "iterators d' = iterators d" "b \<Longrightarrow> buckets (ht0 d') \<noteq> None"
    using assms(1,2) k n
    by (auto simp: dictExpand_def Let_def dict_ok_def dictIsRehashing_def dict_entries_def c split: if_splits)
qed

lemma dictExpandIfNeeded_ok:
  assumes "dict_ok hash d" "used (ht0 d) < 2 ^ 62 - 1"
  shows "\<exists>d'. dictExpandIfNeeded cr d = (True, d') \<and> dict_ok hash d' \<and> dict_entries d' = dict_entries d \<and>
    iterators d' = iterators d \<and> buckets (ht0 d') \<noteq> None"
proof -
  let ?t = "ht0 d"
  have t: "ht_ok hash ?t" using assms(1) by (simp add: dict_ok_def)
  consider (reh) "dictIsRehashing d" | (init) "\<not> dictIsRehashing d" "ht_size ?t = 0"
    | (grow) "\<not> dictIsRehashing d" "ht_size ?t \<noteq> 0"
        "used ?t \<ge> ht_size ?t \<and> (cr \<or> used ?t div ht_size ?t > dict_force_resize_ratio)"
    | (keep) "\<not> dictIsRehashing d" "ht_size ?t \<noteq> 0"
        "\<not> (used ?t \<ge> ht_size ?t \<and> (cr \<or> used ?t div ht_size ?t > dict_force_resize_ratio))" by blast
  then show ?thesis
  proof cases
    case reh
    then show ?thesis using assms(1) by (auto simp: dictExpandIfNeeded_def dict_ok_def dictIsRehashing_def)
  next
    case init
    then have "?t = dictReset" using t ht_ok_None [OF t] ht_ok_Some(6) [OF t] by (cases "buckets ?t") auto
    moreover obtain k where "dictNextPower 4 = 2 ^ k" using dictNextPower_ok [of 4] by auto
    ultimately obtain d' where d': "dictExpand d 4 = (True, d')"
      using init by (auto simp: dictExpand_def Let_def dictReset_def)
    then show ?thesis
      using init dictExpand_ok [OF assms(1) d'] by (auto simp: dictExpandIfNeeded_def DICT_HT_INITIAL_SIZE_def)
  next
    case grow
    have small: "used ?t * 2 < 2 ^ 63 - 1" using assms(2) by simp
    obtain k where k: "dictNextPower (used ?t * 2) = 2 ^ k" "used ?t * 2 \<le> 2 ^ k" using dictNextPower_ok [OF small] by blast
    then have "(2 :: nat) ^ k \<noteq> ht_size ?t" using grow by linarith
    then obtain d' where d': "dictExpand d (used ?t * 2) = (True, d')"
      using grow k(1) by (cases "buckets ?t") (auto simp: dictExpand_def Let_def)
    then show ?thesis using grow dictExpand_ok [OF assms(1) d' small] by (auto simp: dictExpandIfNeeded_def)
  next
    case keep
    then obtain b where b: "buckets ?t = Some b" using ht_ok_None [OF t] by (cases "buckets ?t") (simp_all add: dictReset_def)
    have "dictExpandIfNeeded cr d = (True, d)" unfolding dictExpandIfNeeded_def if_not_P [OF keep(3)] using keep(1,2) by simp
    then show ?thesis using b assms(1) by simp
  qed
qed

lemma dict_ok_ht1_Some: "dict_ok hash d \<Longrightarrow> dictIsRehashing d \<Longrightarrow> \<exists>b1. buckets (ht1 d) = Some b1"
  by (auto simp: dict_ok_def dictIsRehashing_def)

lemma dictKeyIndex_ok:
  assumes "dict_ok hash d" "used (ht0 d) < 2 ^ 62 - 1"
  shows "\<exists>d'. dictKeyIndex cr hash d key =
      Inr (if dict_map d key = None then Some (hash key AND sizemask (if dictIsRehashing d' then ht1 d' else ht0 d')) else None, d') \<and>
    dict_ok hash d' \<and> dict_entries d' = dict_entries d \<and> iterators d' = iterators d \<and> buckets (ht0 d') \<noteq> None"
proof -
  obtain d' b0 where d': "dictExpandIfNeeded cr d = (True, d')" "dict_ok hash d'" "dict_entries d' = dict_entries d"
    "iterators d' = iterators d" "buckets (ht0 d') = Some b0"
    using dictExpandIfNeeded_ok [OF assms, of cr] by blast
  have ok: "ht_ok hash (ht0 d')" "ht_ok hash (ht1 d')" using d'(2) by (simp_all add: dict_ok_def)
  note c0 = ht_chain_ok [OF ok(1) d'(5)]
  have same: "dict_map d' = dict_map d" using d'(3) by (simp add: dict_map_def)
  show ?thesis
  proof (cases "dictIsRehashing d'")
    case True
    then obtain b1 where b1: "buckets (ht1 d') = Some b1" using dict_ok_ht1_Some [OF d'(2)] by blast
    note c1 = ht_chain_ok [OF ok(2) b1]
    have "dictKeyIndex cr hash d key = Inr (if dict_map d' key = None then Some (hash key AND sizemask (ht1 d')) else None, d')"
      using d'(1) True unfolding dictKeyIndex_def dict_map_two [of d']
      by (simp add: c0(1) c1(1) c0(2) [of key] c1(2) [of key] split: option.split)
    with d' same True show ?thesis by simp
  next
    case False
    then have "bucket_list (ht1 d') = []" using dict_ok_not_rehashing(1) [OF d'(2)] by simp
    then have "dictKeyIndex cr hash d key = Inr (if dict_map d' key = None then Some (hash key AND sizemask (ht0 d')) else None, d')"
      using d'(1) False unfolding dictKeyIndex_def dict_map_two [of d']
      by (simp add: c0(1) c0(2) [of key] split: option.split)
    with d' same False show ?thesis by simp
  qed
qed

lemma used_le_size: "used (ht0 d) \<le> dictSize d"
  by (simp add: dictSize_def)

lemma dict_ok_ht0:
  assumes "dict_ok hash d" "buckets (ht0 d) \<noteq> None" "ht_ok hash t" "buckets t \<noteq> None"
    and "distinct (map fst (dict_entries (d\<lparr>ht0 := t\<rparr>)))"
    and "dictIsRehashing d \<Longrightarrow> length (bucket_list t) = length (bucket_list (ht0 d)) \<and>
      (\<forall>i < length (bucket_list t). bucket_list (ht0 d) ! i = [] \<longrightarrow> bucket_list t ! i = [])"
  shows "dict_ok hash (d\<lparr>ht0 := t\<rparr>)"
  using assms by (auto simp: dict_ok_def dictIsRehashing_def)

lemma dict_ok_ht1:
  assumes "dict_ok hash d" "dictIsRehashing d" "ht_ok hash t" "buckets t \<noteq> None"
    and "distinct (map fst (dict_entries (d\<lparr>ht1 := t\<rparr>)))"
  shows "dict_ok hash (d\<lparr>ht1 := t\<rparr>)"
  using assms by (auto simp: dict_ok_def dictIsRehashing_def)

lemma dictAdd_ok:
  assumes "dict_ok hash d" "dictSize d < 2 ^ 62 - 1"
  shows "\<exists>d'. dictAdd cr hash d key v = Inr (dict_map d key = None, d') \<and> dict_ok hash d' \<and>
    dict_map d' = (if dict_map d key = None then (dict_map d)(key \<mapsto> v) else dict_map d) \<and>
    dictSize d' = (if dict_map d key = None then Suc (dictSize d) else dictSize d) \<and> iterators d' = iterators d"
proof -
  have dst: "distinct (map fst (dict_entries d))" using assms(1) by (simp add: dict_ok_def)
  obtain d1 where d1: "rehash_if hash d = Inr d1" "dict_ok hash d1" "mset (dict_entries d1) = mset (dict_entries d)"
    "iterators d1 = iterators d" using rehash_if_ok [OF assms(1)] by blast
  have m1: "dict_map d1 = dict_map d" using dict_map_cong(1) [OF d1(3) dst] .
  have s1: "dictSize d1 = dictSize d"
    using arg_cong [OF d1(3), of size] dictSize_entries assms(1) d1(2) by (metis size_mset)
  have "used (ht0 d1) < 2 ^ 62 - 1" using used_le_size [of d1] s1 assms(2) by simp
  from dictKeyIndex_ok [OF d1(2) this, of cr key] obtain d2 where
    d2: "dictKeyIndex cr hash d1 key = Inr (if dict_map d key = None then Some (hash key AND sizemask (if dictIsRehashing d2 then ht1 d2 else ht0 d2)) else None, d2)"
      "dict_ok hash d2" "dict_entries d2 = dict_entries d1" "iterators d2 = iterators d" "buckets (ht0 d2) \<noteq> None"
    using m1 d1(4) by auto
  have m2: "dict_map d2 = dict_map d" using d2(3) m1 by (simp add: dict_map_def)
  have s2: "dictSize d2 = dictSize d" using d2(3) s1 dictSize_entries d2(2) d1(2) by metis
  show ?thesis
  proof (cases "dict_map d key = None")
    case False
    then have "dictAdd cr hash d key v = Inr (False, d2)" using d1(1) d2(1) by (auto simp: dictAdd_def)
    then show ?thesis using False d2(2,4) m2 s2 by auto
  next
    case True
    have fresh: "key \<notin> fst ` set (dict_entries d2)" using True m2 by (metis dict_map_def map_of_eq_None_iff)
    have fin: ?thesis if t: "dictAdd cr hash d key v = Inr (True, d3)" "dict_ok hash d3" "iterators d3 = iterators d"
      "mset (dict_entries d3) = add_mset (key, v) (mset (dict_entries d2))" for d3
    proof -
      have "distinct (map fst (dict_entries d3))" using t(2) by (simp add: dict_ok_def)
      from map_of_insert(1) [OF t(4) this] have "dict_map d3 = (dict_map d)(key \<mapsto> v)"
        using m2 by (simp add: dict_map_def)
      moreover have "dictSize d3 = Suc (dictSize d)"
        using arg_cong [OF t(4), of size] dictSize_entries [OF t(2)] dictSize_entries [OF d2(2)] s2 by simp
      ultimately show ?thesis using t True by simp
    qed
    have dst2: "distinct (map fst (dict_entries d2))" using d2(2) by (simp add: dict_ok_def)
    have dist: "distinct (map fst es)" if "mset es = add_mset (key, v) (mset (dict_entries d2))" for es
    proof -
      have "mset (map fst es) = mset (key # map fst (dict_entries d2))" using arg_cong [OF that, of "image_mset fst"] by simp
      moreover have "distinct (key # map fst (dict_entries d2))" using fresh dst2 by simp
      ultimately show ?thesis using mset_eq_imp_distinct_iff by blast
    qed
    show ?thesis
    proof (cases "dictIsRehashing d2")
      case re: True
      then obtain b1 where b1: "buckets (ht1 d2) = Some b1" using dict_ok_ht1_Some [OF d2(2)] by blast
      have "ht_ok hash (ht1 d2)" using d2(2) by (simp add: dict_ok_def)
      from ht_insert_ok [OF this b1, of key v] obtain t where
        t: "ht_insert (ht1 d2) (hash key AND sizemask (ht1 d2)) (key, v) = Inr t" "ht_ok hash t" "buckets t \<noteq> None"
          "mset (concat (bucket_list t)) = add_mset (key, v) (mset (concat (bucket_list (ht1 d2))))" by blast
      have ms: "mset (dict_entries (d2\<lparr>ht1 := t\<rparr>)) = add_mset (key, v) (mset (dict_entries d2))"
        using t(4) by (simp add: dict_entries_def)
      show ?thesis
        using fin [of "d2\<lparr>ht1 := t\<rparr>"] dict_ok_ht1 [OF d2(2) re t(2,3) dist [OF ms]] ms t(1) d1(1) d2(1,4) True re
        by (simp add: dictAdd_def)
    next
      case re: False
      obtain b0 where b0: "buckets (ht0 d2) = Some b0" using d2(5) by blast
      have "ht_ok hash (ht0 d2)" using d2(2) by (simp add: dict_ok_def)
      from ht_insert_ok [OF this b0, of key v] obtain t where
        t: "ht_insert (ht0 d2) (hash key AND sizemask (ht0 d2)) (key, v) = Inr t" "ht_ok hash t" "buckets t \<noteq> None"
          "mset (concat (bucket_list t)) = add_mset (key, v) (mset (concat (bucket_list (ht0 d2))))" by blast
      have ms: "mset (dict_entries (d2\<lparr>ht0 := t\<rparr>)) = add_mset (key, v) (mset (dict_entries d2))"
        using t(4) by (simp add: dict_entries_def)
      show ?thesis
        using fin [of "d2\<lparr>ht0 := t\<rparr>"] dict_ok_ht0 [OF d2(2,5) t(2,3) dist [OF ms]] ms t(1) d1(1) d2(1,4) True re
        by (simp add: dictAdd_def)
    qed
  qed
qed

text \<open>An entry that is in the dictionary sits in one chain of one table; rewriting that chain keeps the invariant.\<close>

lemma two_chain_cases:
  assumes "dict_map d key = Some v"
  obtains (first) "map_of (concat (bucket_list (ht0 d))) key = Some v"
  | (second) "map_of (concat (bucket_list (ht0 d))) key = None" "map_of (concat (bucket_list (ht1 d))) key = Some v"
  using assms by (auto simp: dict_map_two split: option.splits)

lemma ht_used_pos:
  assumes "ht_ok hash t" "buckets t = Some bs" "map_of (bs ! (hash key AND sizemask t)) key = Some v"
  shows "used t - 1 + length (bs ! (hash key AND sizemask t)) =
    used t + length (chain_del key (bs ! (hash key AND sizemask t)))"
proof -
  let ?i = "hash key AND sizemask t"
  note t = ht_ok_Some [OF assms(1,2)]
  have "length (bs ! ?i) = Suc (length (chain_del key (bs ! ?i)))"
    using arg_cong [OF chain_del_ok [OF assms(3)], of size] by simp
  moreover have "length (bs ! ?i) \<le> used t" using t(2) length_concat_update [OF t(4), of key "[]"] by simp
  ultimately show ?thesis by simp
qed

lemma rechain_empty:
  assumes "bs ! j = []" "f [] = []"
  shows "bs[i := f (bs ! i)] ! j = []"
  using assms by (cases "i < length bs") (auto simp: nth_list_update list_update_beyond)

lemma ht_unlink_ok:
  assumes "ht_ok hash t" "buckets t = Some bs" "map_of (concat bs) key = Some v" "i = hash key AND sizemask t"
  shows "\<exists>t'. ht_unlink t i (chain_del key (bs ! i)) = Inr t' \<and> ht_ok hash t' \<and> buckets t' \<noteq> None \<and>
    mset (concat (bucket_list t)) = add_mset (key, v) (mset (concat (bucket_list t'))) \<and>
    length (bucket_list t') = length (bucket_list t) \<and>
    (\<forall>j < length (bucket_list t'). bucket_list t ! j = [] \<longrightarrow> bucket_list t' ! j = [])"
proof -
  let ?c = "chain_del key (bs ! i)"
  note t = ht_ok_Some [OF assms(1,2)]
  have here: "map_of (bs ! i) key = Some v"
    using ht_chain_ok(2) [OF assms(1,2), of key] assms(2,3,4) by simp
  note m = chain_del_ok [OF here]
  have i: "i < length bs" using t(4) assms(4) by simp
  have u: "used t - 1 + length (bs ! i) = used t + length ?c"
    using ht_used_pos [OF assms(1,2)] here assms(4) by metis
  have "ht_ok hash (t\<lparr>buckets := Some (bs[i := ?c]), used := used t - 1\<rparr>)"
    using ht_rechain_ok(1) [OF assms(1,2,4) _ u] set_chain_del by fast
  moreover have "mset (concat bs) = add_mset (key, v) (mset (concat (bs[i := ?c])))"
    using mset_concat_update [OF i, of ?c] m by simp
  ultimately show ?thesis
    using t(5) assms(2) by (auto simp: ht_unlink_def rechain_empty)
qed

lemma ht_set_ok:
  assumes "ht_ok hash t" "buckets t = Some bs" "map_of (concat bs) key = Some v"
  shows "\<exists>t' rest. ht_set hash t key w = Inr t' \<and> ht_ok hash t' \<and> buckets t' \<noteq> None \<and>
    mset (concat (bucket_list t)) = add_mset (key, v) rest \<and>
    mset (concat (bucket_list t')) = add_mset (key, w) rest \<and>
    length (bucket_list t') = length (bucket_list t) \<and>
    (\<forall>j < length (bucket_list t'). bucket_list t ! j = [] \<longrightarrow> bucket_list t' ! j = [])"
proof -
  let ?i = "hash key AND sizemask t"
  let ?c = "chain_set key w (bs ! ?i)"
  let ?rest = "mset (concat (bs[?i := chain_del key (bs ! ?i)]))"
  note t = ht_ok_Some [OF assms(1,2)]
  note c = ht_chain_ok [OF assms(1,2), of key]
  have here: "map_of (bs ! ?i) key = Some v" using c(2) assms(2,3) by simp
  note m = chain_del_ok [OF here]
  have ms: "mset ?c = add_mset (key, w) (mset (chain_del key (bs ! ?i)))" using chain_set_ok here by force
  have l: "used t + length (bs ! ?i) = used t + length ?c"
    using arg_cong [OF m, of size] arg_cong [OF ms, of size] by simp
  have "ht_ok hash (t\<lparr>buckets := Some (bs[?i := ?c]), used := used t\<rparr>)"
    using ht_rechain_ok(1) [OF assms(1,2) refl _ l] set_chain_set by fast
  then have "ht_ok hash (t\<lparr>buckets := Some (bs[?i := ?c])\<rparr>)" by simp
  moreover have "mset (concat bs) = add_mset (key, v) ?rest"
    using mset_concat_update [OF t(4), of key "chain_del key (bs ! ?i)"] m by simp
  moreover have "mset (concat (bs[?i := ?c])) = add_mset (key, w) ?rest"
    using mset_concat_update [OF t(4), of key ?c] calculation(2) m ms by simp
  ultimately show ?thesis
    using t(5) assms(2) c(1) by (auto simp: ht_set_def rechain_empty intro!: exI [of _ ?rest])
qed

lemma map_of_swap:
  assumes "mset xs = add_mset (k, v) r" "mset ys = add_mset (k, w) r" "distinct (map fst xs)"
  shows "distinct (map fst ys)" "map_of ys = (map_of xs)(k \<mapsto> w)" "length ys = length xs"
proof -
  obtain zs where r: "r = mset zs" using ex_mset by metis
  have "mset (map fst ys) = mset (map fst xs)" using assms(1,2) by (simp del: map_map)
  then show d: "distinct (map fst ys)" using assms(3) mset_eq_imp_distinct_iff by blast
  show "map_of ys = (map_of xs)(k \<mapsto> w)"
    using map_of_insert(1) [of xs k v zs] map_of_insert(1) [of ys k w zs] assms d r by simp
  show "length ys = length xs" using assms(1,2) by (metis size_add_mset size_mset)
qed

lemma entry_set_ok:
  assumes "dict_ok hash d" "dict_map d key = Some v"
  shows "\<exists>d'. entry_set hash d key w = Inr d' \<and> dict_ok hash d' \<and> dict_map d' = (dict_map d)(key \<mapsto> w) \<and>
    dictSize d' = dictSize d \<and> iterators d' = iterators d"
proof -
  have ok: "ht_ok hash (ht0 d)" "ht_ok hash (ht1 d)" and dst: "distinct (map fst (dict_entries d))"
    using assms(1) by (simp_all add: dict_ok_def)
  have fin: "dict_map d' = (dict_map d)(key \<mapsto> w)" "distinct (map fst (dict_entries d'))"
    "dict_ok hash d' \<Longrightarrow> dictSize d' = dictSize d"
    if "mset (dict_entries d) = add_mset (key, v) r" "mset (dict_entries d') = add_mset (key, w) r" for d' r
    using map_of_swap [OF that dst] dictSize_entries [of hash d'] dictSize_entries [OF assms(1)] by (auto simp: dict_map_def)
  have b0: "\<exists>b0. buckets (ht0 d) = Some b0"
  proof (cases "dictIsRehashing d")
    case True
    then show ?thesis using dict_ok_rehashing [OF assms(1)] by metis
  next
    case False
    then show ?thesis using assms(2) dict_ok_not_rehashing(1) [OF assms(1)]
      by (cases "buckets (ht0 d)") (auto simp: dict_map_two)
  qed
  then obtain b0 where b0: "buckets (ht0 d) = Some b0" by blast
  note c0 = ht_chain_ok [OF ok(1) b0, of key]
  from assms(2) show ?thesis
  proof (cases rule: two_chain_cases)
    case first
    then have "map_of (concat b0) key = Some v" using b0 by simp
    from ht_set_ok [OF ok(1) b0 this, of w] obtain t r where
      t: "ht_set hash (ht0 d) key w = Inr t" "ht_ok hash t" "buckets t \<noteq> None"
        "mset (concat (bucket_list (ht0 d))) = add_mset (key, v) r" "mset (concat (bucket_list t)) = add_mset (key, w) r"
        "length (bucket_list t) = length (bucket_list (ht0 d))"
        "\<forall>j < length (bucket_list t). bucket_list (ht0 d) ! j = [] \<longrightarrow> bucket_list t ! j = []" by blast
    let ?d = "d\<lparr>ht0 := t\<rparr>"
    note f = fin [of "r + mset (concat (bucket_list (ht1 d)))" ?d]
    have ms: "mset (dict_entries d) = add_mset (key, v) (r + mset (concat (bucket_list (ht1 d))))"
      "mset (dict_entries ?d) = add_mset (key, w) (r + mset (concat (bucket_list (ht1 d))))"
      using t(4,5) by (simp_all add: dict_entries_def)
    have "dict_ok hash ?d" using dict_ok_ht0 [OF assms(1) _ t(2,3) f(2) [OF ms]] b0 t(6,7) by simp
    then show ?thesis using f(1,3) [OF ms] t(1) c0 first by (simp add: entry_set_def)
  next
    case second
    then have re: "dictIsRehashing d" using dict_ok_not_rehashing(1) [OF assms(1)] by force
    then obtain b1 where b1: "buckets (ht1 d) = Some b1" using dict_ok_ht1_Some [OF assms(1)] by blast
    then have "map_of (concat b1) key = Some v" using second by simp
    from ht_set_ok [OF ok(2) b1 this, of w] obtain t r where
      t: "ht_set hash (ht1 d) key w = Inr t" "ht_ok hash t" "buckets t \<noteq> None"
        "mset (concat (bucket_list (ht1 d))) = add_mset (key, v) r" "mset (concat (bucket_list t)) = add_mset (key, w) r"
      by blast
    let ?d = "d\<lparr>ht1 := t\<rparr>"
    note f = fin [of "r + mset (concat (bucket_list (ht0 d)))" ?d]
    have ms: "mset (dict_entries d) = add_mset (key, v) (r + mset (concat (bucket_list (ht0 d))))"
      "mset (dict_entries ?d) = add_mset (key, w) (r + mset (concat (bucket_list (ht0 d))))"
      using t(4,5) by (simp_all add: dict_entries_def)
    have "dict_ok hash ?d" using dict_ok_ht1 [OF assms(1) re t(2,3) f(2) [OF ms]] .
    then show ?thesis using f(1,3) [OF ms] t(1) c0 second by (simp add: entry_set_def)
  qed
qed

lemma dictFind_map:
  assumes "dict_ok hash d"
  shows "\<exists>d'. dictFind hash d key = Inr (dict_map d key, d') \<and> dict_ok hash d' \<and> dict_map d' = dict_map d \<and>
    dictSize d' = dictSize d \<and> iterators d' = iterators d"
proof -
  obtain d' where d': "dictFind hash d key = Inr (dict_map d key, d')" "dict_ok hash d'"
    "mset (dict_entries d') = mset (dict_entries d)" "iterators d' = iterators d" using dictFind_ok [OF assms] by blast
  have "distinct (map fst (dict_entries d))" using assms by (simp add: dict_ok_def)
  from dict_map_cong(1) [OF d'(3) this] have "dict_map d' = dict_map d" .
  moreover have "dictSize d' = dictSize d"
    using dictSize_entries assms d'(2,3) by (metis size_mset)
  ultimately show ?thesis using d' by blast
qed

lemma dictReplace_ok:
  assumes "dict_ok hash d" "dictSize d < 2 ^ 62 - 1"
  shows "\<exists>d'. dictReplace cr hash d key v = Inr (dict_map d key = None, d') \<and> dict_ok hash d' \<and>
    dict_map d' = (dict_map d)(key \<mapsto> v) \<and>
    dictSize d' = (if dict_map d key = None then Suc (dictSize d) else dictSize d) \<and> iterators d' = iterators d"
proof -
  obtain d1 where d1: "dictAdd cr hash d key v = Inr (dict_map d key = None, d1)" "dict_ok hash d1"
    "dict_map d1 = (if dict_map d key = None then (dict_map d)(key \<mapsto> v) else dict_map d)"
    "dictSize d1 = (if dict_map d key = None then Suc (dictSize d) else dictSize d)" "iterators d1 = iterators d"
    using dictAdd_ok [OF assms] by blast
  show ?thesis
  proof (cases "dict_map d key")
    case None
    then show ?thesis using d1 by (simp add: dictReplace_def)
  next
    case (Some x)
    obtain d2 where d2: "dictFind hash d1 key = Inr (dict_map d1 key, d2)" "dict_ok hash d2" "dict_map d2 = dict_map d1"
      "dictSize d2 = dictSize d1" "iterators d2 = iterators d1" using dictFind_map [OF d1(2)] by blast
    have x: "dict_map d2 key = Some x" using d1(3) d2(3) Some by simp
    obtain d3 where d3: "entry_set hash d2 key v = Inr d3" "dict_ok hash d3" "dict_map d3 = (dict_map d2)(key \<mapsto> v)"
      "dictSize d3 = dictSize d2" "iterators d3 = iterators d2" using entry_set_ok [OF d2(2) x] by blast
    have "dictReplace cr hash d key v = Inr (False, d3)"
      using d1(1,3) d2(1) d3(1) Some by (simp add: dictReplace_def)
    then show ?thesis using d1 d2 d3 Some by simp
  qed
qed

lemma dict_del_fin:
  assumes "dict_ok hash d" "dict_ok hash d'" "mset (dict_entries d) = add_mset (key, v) (mset (dict_entries d'))"
  shows "dict_map d' = (dict_map d)(key := None)" "dictSize d = Suc (dictSize d')" "dict_map d key = Some v"
proof -
  have "distinct (map fst (dict_entries d))" using assms(1) by (simp add: dict_ok_def)
  note m = map_of_insert [OF assms(3) this]
  show "dict_map d' = (dict_map d)(key := None)" "dict_map d key = Some v" using m(1,2) by (auto simp: dict_map_def)
  show "dictSize d = Suc (dictSize d')"
    using arg_cong [OF assms(3), of size] dictSize_entries [OF assms(1)] dictSize_entries [OF assms(2)] by simp
qed

lemma dictDelete_ok:
  assumes "dict_ok hash d"
  shows "\<exists>d'. dictDelete hash d key = Inr (dict_map d key \<noteq> None, d') \<and> dict_ok hash d' \<and>
    dict_map d' = (dict_map d)(key := None) \<and>
    dictSize d' = (if dict_map d key = None then dictSize d else dictSize d - 1) \<and> iterators d' = iterators d"
proof (cases "ht_size (ht0 d) = 0")
  case True
  have "ht_ok hash (ht0 d)" using assms by (simp add: dict_ok_def)
  then have n: "buckets (ht0 d) = None" using True ht_ok_Some(6) by (cases "buckets (ht0 d)") fastforce+
  then have "\<not> dictIsRehashing d" using dict_ok_rehashing [OF assms] by (metis option.distinct(1))
  then have "dict_map d = Map.empty"
    using n dict_ok_not_rehashing(1) [OF assms] by (auto simp: dict_map_def dict_entries_def)
  then show ?thesis using True assms by (auto simp: dictDelete_def)
next
  case False
  obtain d1 where d1: "rehash_if hash d = Inr d1" "dict_ok hash d1" "mset (dict_entries d1) = mset (dict_entries d)"
    "iterators d1 = iterators d" "buckets (ht0 d) \<noteq> None \<longrightarrow> buckets (ht0 d1) \<noteq> None" using rehash_if_ok [OF assms] by blast
  have "distinct (map fst (dict_entries d))" using assms by (simp add: dict_ok_def)
  note m1 = dict_map_cong(1) [OF d1(3) this]
  have s1: "dictSize d1 = dictSize d" using dictSize_entries assms d1(2,3) by (metis size_mset)
  have dst: "distinct (map fst (dict_entries d1))" and ok: "ht_ok hash (ht0 d1)" "ht_ok hash (ht1 d1)"
    using d1(2) by (simp_all add: dict_ok_def)
  have sub: "distinct (map fst es)" if "mset (dict_entries d1) = add_mset (key, v) (mset es)" for v es
    using map_of_insert(3) [OF that dst] .
  obtain b0 where b0: "buckets (ht0 d1) = Some b0" using d1(5) False assms ht_ok_None [of hash "ht0 d"] by (cases "buckets (ht0 d)") (auto simp: dict_ok_def dictReset_def)
  note c0 = ht_chain_ok [OF ok(1) b0, of key]
  show ?thesis
  proof (cases "dict_map d1 key")
    case None
    have "dictDelete hash d key = Inr (False, d1)"
    proof (cases "dictIsRehashing d1")
      case True
      then obtain b1 where b1: "buckets (ht1 d1) = Some b1" using dict_ok_ht1_Some [OF d1(2)] by blast
      show ?thesis using True None False d1(1) c0 ht_chain_ok [OF ok(2) b1, of key]
        by (auto simp: dictDelete_def dict_map_two split: option.splits)
    next
      case nr: False
      then show ?thesis using None False d1(1) c0 by (auto simp: dictDelete_def dict_map_two split: option.splits)
    qed
    moreover have "dict_map d key = None" using None m1 by simp
    ultimately show ?thesis using d1 m1 s1 by (auto simp: fun_upd_idem_iff)
  next
    case (Some v)
    have fin: ?thesis if "dictDelete hash d key = Inr (True, d2)" "dict_ok hash d2" "iterators d2 = iterators d1"
      "mset (dict_entries d1) = add_mset (key, v) (mset (dict_entries d2))" for d2
      using dict_del_fin [OF d1(2) that(2,4)] that d1 m1 s1 by simp
    from Some show ?thesis
    proof (cases rule: two_chain_cases)
      case first
      then have "map_of (concat b0) key = Some v" using b0 by simp
      from ht_unlink_ok [OF ok(1) b0 this refl] obtain t where
        t: "ht_unlink (ht0 d1) (hash key AND sizemask (ht0 d1)) (chain_del key (b0 ! (hash key AND sizemask (ht0 d1)))) = Inr t"
          "ht_ok hash t" "buckets t \<noteq> None" "mset (concat (bucket_list (ht0 d1))) = add_mset (key, v) (mset (concat (bucket_list t)))"
          "length (bucket_list t) = length (bucket_list (ht0 d1))"
          "\<forall>j < length (bucket_list t). bucket_list (ht0 d1) ! j = [] \<longrightarrow> bucket_list t ! j = []" by blast
      let ?d = "d1\<lparr>ht0 := t\<rparr>"
      have ms: "mset (dict_entries d1) = add_mset (key, v) (mset (dict_entries ?d))" using t(4) by (simp add: dict_entries_def)
      have "dict_ok hash ?d" using dict_ok_ht0 [OF d1(2) _ t(2,3) sub [OF ms]] b0 t(5,6) by simp
      moreover have "dictDelete hash d key = Inr (True, ?d)" using False d1(1) c0 first t(1) by (simp add: dictDelete_def)
      ultimately show ?thesis using fin [of ?d] ms by simp
    next
      case second
      then have re: "dictIsRehashing d1" using dict_ok_not_rehashing(1) [OF d1(2)] by force
      then obtain b1 where b1: "buckets (ht1 d1) = Some b1" using dict_ok_ht1_Some [OF d1(2)] by blast
      note c1 = ht_chain_ok [OF ok(2) b1, of key]
      have "map_of (concat b1) key = Some v" using second b1 by simp
      from ht_unlink_ok [OF ok(2) b1 this refl] obtain t where
        t: "ht_unlink (ht1 d1) (hash key AND sizemask (ht1 d1)) (chain_del key (b1 ! (hash key AND sizemask (ht1 d1)))) = Inr t"
          "ht_ok hash t" "buckets t \<noteq> None" "mset (concat (bucket_list (ht1 d1))) = add_mset (key, v) (mset (concat (bucket_list t)))"
        by blast
      let ?d = "d1\<lparr>ht1 := t\<rparr>"
      have ms: "mset (dict_entries d1) = add_mset (key, v) (mset (dict_entries ?d))" using t(4) by (simp add: dict_entries_def)
      have "dict_ok hash ?d" using dict_ok_ht1 [OF d1(2) re t(2,3) sub [OF ms]] .
      moreover have "dictDelete hash d key = Inr (True, ?d)"
        using False d1(1) c0 c1 second re t(1) by (simp add: dictDelete_def)
      ultimately show ?thesis using fin [of ?d] ms by simp
    qed
  qed
qed

subsection \<open>Iteration visits every entry once\<close>

definition rest_from :: "('k, 'v) dict \<Rightarrow> nat \<Rightarrow> nat \<Rightarrow> ('k \<times> 'v) list" where
  "rest_from d t i =
     (if t = 0 then concat (drop i (bucket_list (ht0 d))) @ concat (bucket_list (ht1 d))
      else concat (drop i (bucket_list (ht1 d))))"

definition it_rest :: "('k, 'v) dict \<Rightarrow> ('k, 'v) dictIterator \<Rightarrow> ('k \<times> 'v) list" where
  "it_rest d it = it_chain it @ rest_from d (it_table it) (nat (it_index it + 1))"

definition it_ok :: "('k, 'v) dict \<Rightarrow> ('k, 'v) dictIterator \<Rightarrow> bool" where
  "it_ok d it \<longleftrightarrow> it_table it \<le> 1 \<and> (it_table it = 1 \<longrightarrow> dictIsRehashing d) \<and> -1 \<le> it_index it"

lemma rest_from_step:
  assumes "i < length (bucket_list (iter_ht d t))" "t \<le> 1"
  shows "rest_from d t i = bucket_list (iter_ht d t) ! i @ rest_from d t (Suc i)"
  using assms by (auto simp: rest_from_def iter_ht_def Cons_nth_drop_Suc [symmetric] split: if_splits)

lemma next_bucket_ok:
  assumes "dict_ok hash d" "t \<le> 1" "t = 1 \<longrightarrow> dictIsRehashing d"
  shows "\<exists>t' i' c. next_bucket d t i = Inr (t', i', c) \<and> t' \<le> 1 \<and> (t' = 1 \<longrightarrow> dictIsRehashing d) \<and>
    rest_from d t i = c @ rest_from d t' (Suc i') \<and> (c = [] \<longrightarrow> rest_from d t' (Suc i') = [])"
  using assms
proof (induction d t i rule: next_bucket.induct)
  case (1 d t i)
  let ?h = "iter_ht d t"
  have ok: "ht_ok hash (ht0 d)" "ht_ok hash (ht1 d)" using "1.prems"(1) by (simp_all add: dict_ok_def)
  then have h: "ht_ok hash ?h" by (simp add: iter_ht_def)
  have len: "length (bucket_list ?h) = ht_size ?h"
    using h ht_ok_Some(1) [OF h] ht_ok_None [OF h] by (cases "buckets ?h") (auto simp: dictReset_def)
  consider (over) "ht_size ?h \<le> i" "dictIsRehashing d" "t = 0"
    | (ended) "ht_size ?h \<le> i" "\<not> (dictIsRehashing d \<and> t = 0)" | (inside) "i < ht_size ?h" by linarith
  then show ?case
  proof cases
    case over
    then obtain b1 where b1: "buckets (ht1 d) = Some b1" using dict_ok_ht1_Some [OF "1.prems"(1)] by blast
    then have "b1 \<noteq> []" using ht_ok_Some(1,6) [OF ok(2) b1] by auto
    moreover have "rest_from d t i = rest_from d 1 0" using over len b1 by (simp add: rest_from_def iter_ht_def)
    moreover have "next_bucket d t i = next_bucket d 1 0"
      using over b1 calculation(1) by (subst next_bucket.simps) simp
    ultimately show ?thesis using "1.IH"(1) [of b1] over b1 "1.prems" by (simp add: over)
  next
    case ended
    have "rest_from d t i = []" "rest_from d t (Suc i) = []"
      using ended len "1.prems" dict_ok_not_rehashing(1) [OF "1.prems"(1)] by (auto simp: rest_from_def iter_ht_def)
    moreover have "next_bucket d t i = Inr (t, i, [])" using ended by (subst next_bucket.simps) auto
    ultimately show ?thesis using "1.prems" by simp
  next
    case inside
    then obtain bs where bs: "buckets ?h = Some bs" using len by (cases "buckets ?h") auto
    then have l: "i < length bs" using inside len by simp
    note step = rest_from_step [of i d t, unfolded bucket_list_simps(2) [OF bs], OF l "1.prems"(2)]
    show ?thesis
    proof (cases "bs ! i = []")
      case True
      have "next_bucket d t i = next_bucket d t (Suc i)"
        using inside bs l True by (subst next_bucket.simps) simp
      then show ?thesis using "1.IH"(2) [of bs] inside bs l True step "1.prems" by simp
    next
      case False
      have "next_bucket d t i = Inr (t, i, bs ! i)"
        using inside bs l False by (subst next_bucket.simps) simp
      then show ?thesis using step False "1.prems" by simp
    qed
  qed
qed

lemma dictNext_ok:
  assumes "dict_ok hash d" "it_ok d it"
  shows "\<exists>it' n. dictNext d it = Inr ((case it_rest d it of [] \<Rightarrow> None | e # es \<Rightarrow> Some e), d\<lparr>iterators := n\<rparr>, it') \<and>
    it_ok d it' \<and> it_rest d it' = tl (it_rest d it)"
proof (cases "it_chain it")
  case (Cons e es)
  have "d = d\<lparr>iterators := iterators d\<rparr>" by simp
  moreover have "dictNext d it = Inr (Some e, d, it\<lparr>it_chain := es\<rparr>)" using Cons by (simp add: dictNext_def)
  moreover have "it_ok d (it\<lparr>it_chain := es\<rparr>)" using assms(2) by (simp add: it_ok_def)
  moreover have "it_rest d it = e # it_rest d (it\<lparr>it_chain := es\<rparr>)" using Cons by (simp add: it_rest_def)
  ultimately show ?thesis by (metis list.case(2) list.sel(3))
next
  case Nil
  obtain t i c where n: "next_bucket d (it_table it) (nat (it_index it + 1)) = Inr (t, i, c)" "t \<le> 1" "t = 1 \<longrightarrow> dictIsRehashing d"
    "rest_from d (it_table it) (nat (it_index it + 1)) = c @ rest_from d t (Suc i)" "c = [] \<longrightarrow> rest_from d t (Suc i) = []"
    using next_bucket_ok [OF assms(1), of "it_table it" "nat (it_index it + 1)"] assms(2) by (auto simp: it_ok_def)
  have idx: "nat (int i + 1) = Suc i" by simp
  let ?it = "\<lparr>it_table = t, it_index = int i, it_safe = it_safe it, it_chain = tl c\<rparr>"
  have it: "it\<lparr>it_table := t, it_index := int i, it_chain := tl c\<rparr> = ?it" by simp
  have ok: "it_ok d ?it" using n(2,3) by (auto simp: it_ok_def)
  have rest: "it_rest d it = c @ rest_from d t (Suc i)" "it_rest d ?it = tl (it_rest d it)"
    using Nil n(4,5) by (cases c; simp add: it_rest_def idx)+
  show ?thesis
  proof (rule exI [of _ ?it], cases "it_index it = -1 \<and> it_table it = 0 \<and> it_safe it")
    case True
    then show "\<exists>n. dictNext d it = Inr ((case it_rest d it of [] \<Rightarrow> None | e # es \<Rightarrow> Some e), d\<lparr>iterators := n\<rparr>, ?it) \<and>
        it_ok d ?it \<and> it_rest d ?it = tl (it_rest d it)"
      using Nil n ok rest by (intro exI [of _ "iterators d + 1"]) (cases c; cases it; simp add: dictNext_def)
  next
    case False
    then show "\<exists>n. dictNext d it = Inr ((case it_rest d it of [] \<Rightarrow> None | e # es \<Rightarrow> Some e), d\<lparr>iterators := n\<rparr>, ?it) \<and>
        it_ok d ?it \<and> it_rest d ?it = tl (it_rest d it)"
      using Nil n ok rest unfolding dictNext_def if_not_P [OF False]
      by (intro exI [of _ "iterators d"]) (cases c; cases it; simp)
  qed
qed

text \<open>A whole walk, as the callers write it: \<open>while ((de = dictNext(di)) != NULL)\<close>, with a bound on the rounds.\<close>

fun dict_walk :: "nat \<Rightarrow> ('k, 'v) dict \<Rightarrow> ('k, 'v) dictIterator \<Rightarrow> (('k \<times> 'v) list \<times> ('k, 'v) dict \<times> ('k, 'v) dictIterator) option res" where
  "dict_walk 0 d it = Inr None"
| "dict_walk (Suc n) d it =
     rbind (dictNext d it) (\<lambda>(e, d1, it1).
     case e of
       None \<Rightarrow> Inr (Some ([], d1, it1))
     | Some x \<Rightarrow> rbind (dict_walk n d1 it1) (\<lambda>r. Inr (map_option (\<lambda>(es, d2, it2). (x # es, d2, it2)) r)))"

lemma dict_ok_iterators [simp]: "dict_ok hash (d\<lparr>iterators := n\<rparr>) = dict_ok hash d"
  "dict_entries (d\<lparr>iterators := n\<rparr>) = dict_entries d" "dictIsRehashing (d\<lparr>iterators := n\<rparr>) = dictIsRehashing d"
  "it_ok (d\<lparr>iterators := n\<rparr>) it = it_ok d it" "it_rest (d\<lparr>iterators := n\<rparr>) it = it_rest d it"
  by (simp_all add: dict_ok_def dict_entries_def dictIsRehashing_def it_ok_def it_rest_def rest_from_def)

lemma dict_walk_ok:
  assumes "dict_ok hash d" "it_ok d it" "length (it_rest d it) < n"
  shows "\<exists>k it'. dict_walk n d it = Inr (Some (it_rest d it, d\<lparr>iterators := k\<rparr>, it'))"
  using assms
proof (induction n arbitrary: d it)
  case (Suc n)
  obtain it1 k where s: "dictNext d it = Inr ((case it_rest d it of [] \<Rightarrow> None | e # es \<Rightarrow> Some e), d\<lparr>iterators := k\<rparr>, it1)"
    "it_ok d it1" "it_rest d it1 = tl (it_rest d it)" using dictNext_ok [OF Suc.prems(1,2)] by blast
  show ?case
  proof (cases "it_rest d it")
    case Nil
    then show ?thesis using s(1) by auto
  next
    case (Cons e es)
    then have "length (it_rest (d\<lparr>iterators := k\<rparr>) it1) < n" using s(3) Suc.prems(3) by simp
    from Suc.IH [OF _ _ this] obtain k' it' where
      "dict_walk n (d\<lparr>iterators := k\<rparr>) it1 = Inr (Some (it_rest d it1, d\<lparr>iterators := k'\<rparr>, it'))"
      using Suc.prems(1) s(2) by auto
    then show ?thesis using s Cons by auto
  qed
qed simp

lemma dict_walk_start:
  assumes "dict_ok hash d"
  shows "\<exists>k it'. dict_walk (Suc (dictSize d)) d (dictGetIterator safe) = Inr (Some (dict_entries d, d\<lparr>iterators := k\<rparr>, it'))"
proof -
  have "it_rest d (dictGetIterator safe) = dict_entries d"
    by (simp add: it_rest_def dictGetIterator_def rest_from_def dict_entries_def)
  moreover have "it_ok d (dictGetIterator safe)" by (simp add: it_ok_def dictGetIterator_def)
  ultimately show ?thesis using dict_walk_ok [OF assms] dictSize_entries [OF assms] by (metis lessI)
qed

section \<open>The dictionary is a map\<close>

interpretation dict_store: kv_store "dictFind hash" "dictAdd cr hash" "dictReplace cr hash" "dictDelete hash"
    dict_map "dict_ok hash" dictSize "2 ^ 62 - 1" for hash cr
proof
  fix s :: "('a, 'b) dict" and k v
  show "\<exists>s'. dictFind hash s k = Inr (dict_map s k, s') \<and> dict_ok hash s' \<and> dict_map s' = dict_map s \<and> dictSize s' = dictSize s"
    if "dict_ok hash s" using dictFind_map [OF that] by blast
  show "\<exists>s'. dictAdd cr hash s k v = Inr (dict_map s k = None, s') \<and> dict_ok hash s' \<and>
      dict_map s' = (if dict_map s k = None then (dict_map s)(k \<mapsto> v) else dict_map s) \<and>
      dictSize s' = (if dict_map s k = None then Suc (dictSize s) else dictSize s)"
    if "dict_ok hash s" "dictSize s < 2 ^ 62 - 1" using dictAdd_ok [OF that] by blast
  show "\<exists>s'. dictReplace cr hash s k v = Inr (dict_map s k = None, s') \<and> dict_ok hash s' \<and>
      dict_map s' = (dict_map s)(k \<mapsto> v) \<and> dictSize s' = (if dict_map s k = None then Suc (dictSize s) else dictSize s)"
    if "dict_ok hash s" "dictSize s < 2 ^ 62 - 1" using dictReplace_ok [OF that] by blast
  show "\<exists>s'. dictDelete hash s k = Inr (dict_map s k \<noteq> None, s') \<and> dict_ok hash s' \<and>
      dict_map s' = (dict_map s)(k := None) \<and> dictSize s' = (if dict_map s k = None then dictSize s else dictSize s - 1)"
    if "dict_ok hash s" using dictDelete_ok [OF that] by blast
qed

lemma dictCreate_ok [simp]: "dict_ok hash dictCreate" "dict_map dictCreate = Map.empty" "dictSize dictCreate = 0"
  by (simp_all add: dict_ok_def dictCreate_def dict_map_def dict_entries_def dictSize_def)
    (simp_all add: dictReset_def)

abbreviation dict_run :: "bool \<Rightarrow> ('k \<Rightarrow> nat) \<Rightarrow> ('k, 'v) kv_op list \<Rightarrow> ('k, 'v) dict \<Rightarrow> ('v kv_ans list \<times> ('k, 'v) dict) res" where
  "dict_run cr hash \<equiv> kv_run (dictFind hash) (dictAdd cr hash) (dictReplace cr hash) (dictDelete hash)"



text \<open>
  C13. An iteration over a dictionary ends, returns every entry once and
  finds what the dictionary maps, also while a rehashing leaves the entries in two tables.
\<close>

theorem dict_iteration_complete:
  assumes "length ps < 2 ^ 62 - 1" "dict_run cr hash ps dictCreate = Inr (as, d)"
  shows "\<exists>es k it. dict_walk (Suc (dictSize d)) d (dictGetIterator safe) = Inr (Some (es, d\<lparr>iterators := k\<rparr>, it)) \<and>
    distinct (map fst es) \<and> length es = dictSize d \<and> map_of es = snd (kv_spec ps Map.empty)"
proof -
  obtain d' where "dict_run cr hash ps dictCreate = Inr (fst (kv_spec ps Map.empty), d')" "dict_ok hash d'"
    "dict_map d' = snd (kv_spec ps Map.empty)" using dict_store.run_refines [of hash dictCreate ps cr] assms(1) by auto
  then have d: "dict_ok hash d" "dict_map d = snd (kv_spec ps Map.empty)" using assms(2) by auto
  have "distinct (map fst (dict_entries d))" using d(1) by (simp add: dict_ok_def)
  then show ?thesis using dict_walk_start [OF d(1), of safe] dictSize_entries [OF d(1)] d(2) by (auto simp: dict_map_def)
qed

lemma dict_run_two:
  "\<exists>d. dict_run True (\<lambda>k. k) [KvAdd (3 :: nat) ''a'', KvAdd 7 ''b''] dictCreate = Inr ([Outcome True, Outcome True], d)"
  using dict_store.run_refines [of "\<lambda>k. k" dictCreate "[KvAdd (3 :: nat) ''a'', KvAdd 7 ''b'']" True] by auto

theorem dict_iteration_complete_witness:
  "\<exists>d es k it. dict_run True (\<lambda>k. k) [KvAdd (3 :: nat) ''a'', KvAdd 7 ''b''] dictCreate = Inr ([Outcome True, Outcome True], d) \<and>
    dict_walk (Suc (dictSize d)) d (dictGetIterator False) = Inr (Some (es, d\<lparr>iterators := k\<rparr>, it)) \<and>
    map_of es = [3 \<mapsto> ''a'', 7 \<mapsto> ''b'']"
  using dict_run_two dict_iteration_complete [of "[KvAdd (3 :: nat) ''a'', KvAdd 7 ''b'']" "\<lambda>k. k" True "[Outcome True, Outcome True]" _ False]
  by (fastforce simp del: kv_run.simps)

text \<open>Rehashing one step at a time, as \<open>_dictRehashStep\<close> is called by each operation.\<close>

fun rehash_steps :: "('k \<Rightarrow> nat) \<Rightarrow> nat \<Rightarrow> ('k, 'v) dict \<Rightarrow> ('k, 'v) dict res" where
  "rehash_steps hash 0 d = Inr d"
| "rehash_steps hash (Suc n) d = rbind (rehash_if hash d) (rehash_steps hash n)"

lemma rehash_if_progress:
  assumes "dict_ok hash d" "dictIsRehashing d" "iterators d = 0"
  shows "\<exists>d'. rehash_if hash d = Inr d' \<and> dict_ok hash d' \<and> mset (dict_entries d') = mset (dict_entries d) \<and> iterators d' = 0 \<and>
    (dictIsRehashing d' \<longrightarrow> nat (int (ht_size (ht0 d')) - rehashidx d') < nat (int (ht_size (ht0 d)) - rehashidx d))"
proof -
  obtain more d' where l: "rehash_loop hash 1 10 d = Inr (more, d')" "dict_ok hash d'"
    "mset (dict_entries d') = mset (dict_entries d)" "iterators d' = iterators d" "dictIsRehashing d' = more"
    "more \<longrightarrow> ht_size (ht0 d') = ht_size (ht0 d) \<and> rehashidx d + (if (1 :: nat) = 0 then 0 else 1) \<le> rehashidx d'"
    using rehash_loop_ok [OF assms(1,2), of 10 1] by fastforce
  have eq: "rehash_if hash d = Inr d'"
    using l(1) assms(2,3) by (simp add: rehash_if_def dictRehashStep_def dictRehash_def del: rehash_loop.simps)
  have "int (ht_size (ht0 d)) > rehashidx d" if more
  proof (rule ccontr)
    assume "\<not> int (ht_size (ht0 d)) > rehashidx d"
    then have "rehash_loop hash 1 10 d = (if used (ht0 d) = 0 then Inr (rehash_done d) else Inl AssertFail)" by simp
    then show False using l(1) that by (auto simp: rehash_done_def split: if_splits)
  qed
  then show ?thesis using eq l assms(3) by auto
qed

lemma rehash_steps_idle: "\<not> dictIsRehashing d \<Longrightarrow> rehash_steps hash n d = Inr d"
  by (induction n) (simp_all add: rehash_if_def)

lemma rehash_steps_finish:
  assumes "dict_ok hash d" "iterators d = 0" "nat (int (ht_size (ht0 d)) - rehashidx d) < n"
  shows "\<exists>d'. rehash_steps hash n d = Inr d' \<and> dict_ok hash d' \<and> \<not> dictIsRehashing d' \<and>
    mset (dict_entries d') = mset (dict_entries d)"
  using assms
proof (induction n arbitrary: d)
  case (Suc n)
  show ?case
  proof (cases "dictIsRehashing d")
    case True
    obtain d1 where d1: "rehash_if hash d = Inr d1" "dict_ok hash d1" "mset (dict_entries d1) = mset (dict_entries d)" "iterators d1 = 0"
      "dictIsRehashing d1 \<longrightarrow> nat (int (ht_size (ht0 d1)) - rehashidx d1) < nat (int (ht_size (ht0 d)) - rehashidx d)"
      using rehash_if_progress [OF Suc.prems(1) True Suc.prems(2)] by blast
    show ?thesis
    proof (cases "dictIsRehashing d1")
      case re: True
      then have "nat (int (ht_size (ht0 d1)) - rehashidx d1) < n" using d1(5) Suc.prems(3) by linarith
      from Suc.IH [OF d1(2,4) this] show ?thesis using d1(1,3) by simp
    next
      case False
      then show ?thesis using d1 rehash_steps_idle [of d1] by simp
    qed
  next
    case False
    then show ?thesis using Suc.prems(1) rehash_steps_idle [OF False, of hash "Suc n"] by auto
  qed
qed simp

text \<open>
  C12. Incremental rehashing completes. When no safe iterator blocks it, as many
  single steps as the old table has buckets, and one more, leave the dictionary with one table and
  the same contents, and no step faults.
\<close>

theorem rehash_completes:
  assumes "dict_ok hash d" "iterators d = 0"
  shows "\<exists>d'. rehash_steps hash (Suc (ht_size (ht0 d))) d = Inr d' \<and> dict_ok hash d' \<and> \<not> dictIsRehashing d' \<and>
    dict_map d' = dict_map d \<and> dictSize d' = dictSize d"
proof -
  have "nat (int (ht_size (ht0 d)) - rehashidx d) < Suc (ht_size (ht0 d)) \<or> \<not> dictIsRehashing d"
    using assms(1) by (auto simp: dict_ok_def dictIsRehashing_def)
  then obtain d' where d': "rehash_steps hash (Suc (ht_size (ht0 d))) d = Inr d'" "dict_ok hash d'" "\<not> dictIsRehashing d'"
    "mset (dict_entries d') = mset (dict_entries d)"
    using rehash_steps_finish [OF assms] rehash_steps_idle [of d hash] assms(1) by metis
  have "distinct (map fst (dict_entries d))" using assms(1) by (simp add: dict_ok_def)
  from dict_map_cong(1) [OF d'(4) this] show ?thesis using d' dictSize_entries assms(1) by (metis size_mset)
qed

definition mid_rehash :: "(nat, string) dict" where
  "mid_rehash =
     \<lparr>ht0 = \<lparr>buckets = Some [[(2, ''a'')], [(1, ''b''), (3, ''c'')]], ht_size = 2, sizemask = 1, used = 3\<rparr>,
      ht1 = \<lparr>buckets = Some [[], [], [], []], ht_size = 4, sizemask = 3, used = 0\<rparr>, rehashidx = 0, iterators = 0\<rparr>"

lemma mid_rehash_ok: "dict_ok (\<lambda>k. k) mid_rehash"
proof -
  have "\<exists>k. (2 :: nat) = 2 ^ k" "\<exists>k. (4 :: nat) = 2 ^ k" by (rule exI [of _ 1], simp) (rule exI [of _ 2], simp)
  then show ?thesis
    by (auto simp: dict_ok_def mid_rehash_def ht_ok_def placed_def bucket_list_def dict_entries_def less_Suc_eq eval_nat_numeral mod_Suc)
qed

theorem rehash_completes_witness:
  "iterators mid_rehash = 0 \<and> dictIsRehashing mid_rehash \<and>
   (\<exists>d'. rehash_steps (\<lambda>k. k) (Suc (ht_size (ht0 mid_rehash))) mid_rehash = Inr d' \<and> \<not> dictIsRehashing d' \<and>
     dict_map d' = dict_map mid_rehash)"
proof -
  have i: "iterators mid_rehash = 0" "dictIsRehashing mid_rehash" by (simp_all add: mid_rehash_def dictIsRehashing_def)
  then show ?thesis using rehash_completes [OF mid_rehash_ok i(1)] by blast
qed

end
