(* ===== verification/Object.thy ===== *)
theory Object
  imports SdsText
begin

text \<open>
  Redis objects (\<open>src/object.c\<close>): creation, reference counts, the compact encodings of strings and
  the functions that read a string object whatever its encoding. Objects are values: an operation
  returns the object it leaves. \<open>clock\<close> is the LRU clock, \<open>junk\<close> what the allocator leaves in a
  block. Aggregates (lists, sets, hashes) only appear by type and encoding.
\<close>

section \<open>Objects\<close>

datatype objtype = OBJ_STRING | OBJ_LIST | OBJ_SET | OBJ_ZSET | OBJ_HASH

datatype encoding =
    OBJ_ENCODING_RAW
  | OBJ_ENCODING_INT
  | OBJ_ENCODING_HT
  | OBJ_ENCODING_ZIPMAP
  | OBJ_ENCODING_LINKEDLIST
  | OBJ_ENCODING_ZIPLIST
  | OBJ_ENCODING_INTSET
  | OBJ_ENCODING_SKIPLIST
  | OBJ_ENCODING_EMBSTR
  | OBJ_ENCODING_QUICKLIST

text \<open>What \<open>ptr\<close> holds: a string, a \<open>long\<close> cast to a pointer, or an aggregate.\<close>

datatype objptr = PSds sds | PInt int | PAgg nat

record robj =
  otype :: objtype
  oenc :: encoding
  optr :: objptr
  refcount :: int
  lru :: nat

definition createObject :: "nat \<Rightarrow> objtype \<Rightarrow> objptr \<Rightarrow> robj" where
  "createObject clock type ptr =
     \<lparr>otype = type, oenc = OBJ_ENCODING_RAW, optr = ptr, refcount = 1, lru = clock\<rparr>"

definition createRawStringObject :: "nat \<Rightarrow> string option \<Rightarrow> nat \<Rightarrow> robj res" where
  "createRawStringObject clock ptr len =
     rbind (sdsnewlen ptr len) (\<lambda>s. Inr (createObject clock OBJ_STRING (PSds s)))"

text \<open>The string behind the object's header has an eight-bit length whatever \<open>len\<close> is.\<close>

definition createEmbeddedStringObject :: "nat \<Rightarrow> string option \<Rightarrow> nat \<Rightarrow> robj res" where
  "createEmbeddedStringObject clock ptr len =
     rbind (case ptr of None \<Rightarrow> Inr (replicate len NUL) | Some p \<Rightarrow> rd_bytes p 0 len) (\<lambda>body.
     Inr \<lparr>otype = OBJ_STRING, oenc = OBJ_ENCODING_EMBSTR,
          optr = PSds \<lparr>hdr_type = SDS_TYPE_8, hdr_len = len mod 256, hdr_alloc = len mod 256,
                       hdr_buf = body @ [NUL]\<rparr>,
          refcount = 1, lru = clock\<rparr>)"

definition OBJ_ENCODING_EMBSTR_SIZE_LIMIT :: nat where
  "OBJ_ENCODING_EMBSTR_SIZE_LIMIT = 44"

definition createStringObject :: "nat \<Rightarrow> string option \<Rightarrow> nat \<Rightarrow> robj res" where
  "createStringObject clock ptr len =
     (if len \<le> OBJ_ENCODING_EMBSTR_SIZE_LIMIT then createEmbeddedStringObject clock ptr len
      else createRawStringObject clock ptr len)"

definition OBJ_SHARED_INTEGERS :: int where
  "OBJ_SHARED_INTEGERS = 10000"

text \<open>An element of \<open>shared.integers\<close>, as \<open>createSharedObjects\<close> makes it.\<close>

definition shared_integer :: "nat \<Rightarrow> int \<Rightarrow> robj" where
  "shared_integer clock v = (createObject clock OBJ_STRING (PInt v))\<lparr>oenc := OBJ_ENCODING_INT\<rparr>"

definition incrRefCount :: "robj \<Rightarrow> robj" where
  "incrRefCount o' = o'\<lparr>refcount := refcount o' + 1\<rparr>"

definition createStringObjectFromLongLong :: "nat \<Rightarrow> int \<Rightarrow> robj res" where
  "createStringObjectFromLongLong clock v =
     (if 0 \<le> v \<and> v < OBJ_SHARED_INTEGERS then Inr (incrRefCount (shared_integer clock v))
      else if - (2 ^ 63) \<le> v \<and> v \<le> 2 ^ 63 - 1 then
        Inr ((createObject clock OBJ_STRING (PInt 0))\<lparr>oenc := OBJ_ENCODING_INT, optr := PInt v\<rparr>)
      else rbind (sdsfromlonglong v) (\<lambda>t.
           rbind (sdsnewlen (Some t) (length t)) (\<lambda>s. Inr (createObject clock OBJ_STRING (PSds s)))))"

definition sds_of :: "robj \<Rightarrow> sds res" where
  "sds_of o' = (case optr o' of PSds s \<Rightarrow> Inr s | _ \<Rightarrow> Inl OutOfBounds)"

definition long_of :: "robj \<Rightarrow> int res" where
  "long_of o' = (case optr o' of PInt n \<Rightarrow> Inr n | _ \<Rightarrow> Inl OutOfBounds)"

definition sdsEncodedObject :: "robj \<Rightarrow> bool" where
  "sdsEncodedObject o' \<longleftrightarrow> oenc o' = OBJ_ENCODING_RAW \<or> oenc o' = OBJ_ENCODING_EMBSTR"

definition dupStringObject :: "nat \<Rightarrow> robj \<Rightarrow> robj res" where
  "dupStringObject clock o' =
     rbind (rassert (otype o' = OBJ_STRING) AssertFail) (\<lambda>_.
     case oenc o' of
       OBJ_ENCODING_RAW \<Rightarrow>
         rbind (sds_of o') (\<lambda>s. createRawStringObject clock (Some (hdr_buf s)) (sdslen s))
     | OBJ_ENCODING_EMBSTR \<Rightarrow>
         rbind (sds_of o') (\<lambda>s. createEmbeddedStringObject clock (Some (hdr_buf s)) (sdslen s))
     | OBJ_ENCODING_INT \<Rightarrow>
         Inr ((createObject clock OBJ_STRING (PInt 0))\<lparr>oenc := OBJ_ENCODING_INT, optr := optr o'\<rparr>)
     | _ \<Rightarrow> Inl Panic)"

section \<open>Reference counts\<close>

definition freeStringObject :: "robj \<Rightarrow> unit res" where
  "freeStringObject o' =
     (if oenc o' = OBJ_ENCODING_RAW then rbind (sds_of o') (\<lambda>_. Inr ()) else Inr ())"

definition freeListObject :: "robj \<Rightarrow> unit res" where
  "freeListObject o' = (if oenc o' = OBJ_ENCODING_QUICKLIST then Inr () else Inl Panic)"

definition freeSetObject :: "robj \<Rightarrow> unit res" where
  "freeSetObject o' = (if oenc o' \<in> {OBJ_ENCODING_HT, OBJ_ENCODING_INTSET} then Inr () else Inl Panic)"

definition freeZsetObject :: "robj \<Rightarrow> unit res" where
  "freeZsetObject o' = (if oenc o' \<in> {OBJ_ENCODING_SKIPLIST, OBJ_ENCODING_ZIPLIST} then Inr () else Inl Panic)"

definition freeHashObject :: "robj \<Rightarrow> unit res" where
  "freeHashObject o' = (if oenc o' \<in> {OBJ_ENCODING_HT, OBJ_ENCODING_ZIPLIST} then Inr () else Inl Panic)"

text \<open>No object is left when the last reference goes.\<close>

definition decrRefCount :: "robj \<Rightarrow> robj option res" where
  "decrRefCount o' =
     (if refcount o' \<le> 0 then Inl Panic
      else if refcount o' = 1 then
        rbind (case otype o' of
            OBJ_STRING \<Rightarrow> freeStringObject o'
          | OBJ_LIST \<Rightarrow> freeListObject o'
          | OBJ_SET \<Rightarrow> freeSetObject o'
          | OBJ_ZSET \<Rightarrow> freeZsetObject o'
          | OBJ_HASH \<Rightarrow> freeHashObject o') (\<lambda>_. Inr None)
      else Inr (Some (o'\<lparr>refcount := refcount o' - 1\<rparr>)))"

definition resetRefCount :: "robj \<Rightarrow> robj" where
  "resetRefCount o' = o'\<lparr>refcount := 0\<rparr>"

section \<open>Encodings\<close>

datatype maxmemory_policy =
    MAXMEMORY_VOLATILE_LRU
  | MAXMEMORY_VOLATILE_TTL
  | MAXMEMORY_VOLATILE_RANDOM
  | MAXMEMORY_ALLKEYS_LRU
  | MAXMEMORY_ALLKEYS_RANDOM
  | MAXMEMORY_NO_EVICTION

definition isObjectRepresentableAsLongLong :: "robj \<Rightarrow> int option res" where
  "isObjectRepresentableAsLongLong o' =
     rbind (rassert (otype o' = OBJ_STRING) AssertFail) (\<lambda>_.
     if oenc o' = OBJ_ENCODING_INT then rbind (long_of o') (\<lambda>n. Inr (Some n))
     else rbind (sds_of o') (\<lambda>s. Inr (string2ll (take (sdslen s) (hdr_buf s)))))"

definition tryObjectEncoding ::
  "(nat \<Rightarrow> char) \<Rightarrow> nat \<Rightarrow> nat \<Rightarrow> maxmemory_policy \<Rightarrow> robj \<Rightarrow> robj res" where
  "tryObjectEncoding junk clock maxmemory policy o' =
     rbind (rassert (otype o' = OBJ_STRING) AssertFail) (\<lambda>_.
     if \<not> sdsEncodedObject o' then Inr o'
     else if refcount o' > 1 then Inr o'
     else
       rbind (sds_of o') (\<lambda>s.
       let len = sdslen s; l = string2l (take len (hdr_buf s)) in
       if len \<le> 20 \<and> l \<noteq> None then
         (let v = the l in
          if (maxmemory = 0 \<or> policy \<noteq> MAXMEMORY_VOLATILE_LRU \<and> policy \<noteq> MAXMEMORY_ALLKEYS_LRU) \<and>
             0 \<le> v \<and> v < OBJ_SHARED_INTEGERS
          then rbind (decrRefCount o') (\<lambda>_. Inr (incrRefCount (shared_integer clock v)))
          else Inr (o'\<lparr>oenc := OBJ_ENCODING_INT, optr := PInt v\<rparr>))
       else if len \<le> OBJ_ENCODING_EMBSTR_SIZE_LIMIT then
         (if oenc o' = OBJ_ENCODING_EMBSTR then Inr o'
          else
            rbind (createEmbeddedStringObject clock (Some (hdr_buf s)) len) (\<lambda>emb.
            rbind (decrRefCount o') (\<lambda>_. Inr emb)))
       else if oenc o' = OBJ_ENCODING_RAW \<and> sdsavail s > len div 10 then
         rbind (sdsRemoveFreeSpace junk s) (\<lambda>s'. Inr (o'\<lparr>optr := PSds s'\<rparr>))
       else Inr o'))"

text \<open>The buffer on the stack holds anything before \<open>ll2string\<close> fills it.\<close>

definition getDecodedObject :: "(nat \<Rightarrow> char) \<Rightarrow> nat \<Rightarrow> robj \<Rightarrow> robj res" where
  "getDecodedObject junk clock o' =
     (if sdsEncodedObject o' then Inr (incrRefCount o')
      else if otype o' = OBJ_STRING \<and> oenc o' = OBJ_ENCODING_INT then
        rbind (long_of o') (\<lambda>n.
        rbind (ll2string (mem_resize junk 32 []) 32 n) (\<lambda>(len, buf).
        rbind (rd_cstr buf 0) (\<lambda>t. createStringObject clock (Some buf) (length t))))
      else Inl Panic)"

text \<open>The bytes and length \<open>compareStringObjectsWithFlags\<close> works on, from the object or a stack buffer.\<close>

definition cmp_text :: "(nat \<Rightarrow> char) \<Rightarrow> robj \<Rightarrow> string res" where
  "cmp_text junk o' =
     (if sdsEncodedObject o' then rbind (sds_of o') (\<lambda>s. rd_bytes (hdr_buf s) 0 (sdslen s))
      else rbind (long_of o') (\<lambda>n.
           rbind (ll2string (mem_resize junk 128 []) 128 n) (\<lambda>(len, buf). rd_bytes buf 0 len)))"

text \<open>Binary comparison of two distinct objects.\<close>

definition compareStringObjects :: "(nat \<Rightarrow> char) \<Rightarrow> robj \<Rightarrow> robj \<Rightarrow> int res" where
  "compareStringObjects junk a b =
     rbind (rassert (otype a = OBJ_STRING \<and> otype b = OBJ_STRING) AssertFail) (\<lambda>_.
     rbind (cmp_text junk a) (\<lambda>astr.
     rbind (cmp_text junk b) (\<lambda>bstr.
     let minlen = (if length astr < length bstr then length astr else length bstr);
         cmp = memcmp (take minlen astr) (take minlen bstr)
     in Inr (if cmp = 0 then to_int32 (int (length astr) - int (length bstr)) else cmp))))"

definition equalStringObjects :: "(nat \<Rightarrow> char) \<Rightarrow> robj \<Rightarrow> robj \<Rightarrow> bool res" where
  "equalStringObjects junk a b =
     (if oenc a = OBJ_ENCODING_INT \<and> oenc b = OBJ_ENCODING_INT then Inr (optr a = optr b)
      else rbind (compareStringObjects junk a b) (\<lambda>cmp. Inr (cmp = 0)))"

definition stringObjectLen :: "robj \<Rightarrow> nat res" where
  "stringObjectLen o' =
     rbind (rassert (otype o' = OBJ_STRING) AssertFail) (\<lambda>_.
     if sdsEncodedObject o' then rbind (sds_of o') (\<lambda>s. Inr (sdslen s))
     else rbind (long_of o') (\<lambda>n. Inr (sdigits10 n)))"

text \<open>A missing object counts as zero; no value is an error the caller reports.\<close>

definition getLongLongFromObject :: "robj option \<Rightarrow> int option res" where
  "getLongLongFromObject p =
     (case p of
        None \<Rightarrow> Inr (Some 0)
      | Some o' \<Rightarrow>
          rbind (rassert (otype o' = OBJ_STRING) AssertFail) (\<lambda>_.
          if sdsEncodedObject o' then rbind (sds_of o') (\<lambda>s. Inr (string2ll (take (sdslen s) (hdr_buf s))))
          else if oenc o' = OBJ_ENCODING_INT then rbind (long_of o') (\<lambda>n. Inr (Some n))
          else Inl Panic))"

definition strEncoding :: "encoding \<Rightarrow> string" where
  "strEncoding e =
     (case e of
        OBJ_ENCODING_RAW \<Rightarrow> ''raw''
      | OBJ_ENCODING_INT \<Rightarrow> ''int''
      | OBJ_ENCODING_HT \<Rightarrow> ''hashtable''
      | OBJ_ENCODING_QUICKLIST \<Rightarrow> ''quicklist''
      | OBJ_ENCODING_ZIPLIST \<Rightarrow> ''ziplist''
      | OBJ_ENCODING_INTSET \<Rightarrow> ''intset''
      | OBJ_ENCODING_SKIPLIST \<Rightarrow> ''skiplist''
      | OBJ_ENCODING_EMBSTR \<Rightarrow> ''embstr''
      | _ \<Rightarrow> ''unknown'')"

section \<open>Well-formed string objects and their text\<close>

definition obj_text :: "robj \<Rightarrow> string" where
  "obj_text o' = (case optr o' of PSds s \<Rightarrow> sdsval s | PInt n \<Rightarrow> deci n | PAgg _ \<Rightarrow> [])"

definition str_obj :: "robj \<Rightarrow> bool" where
  "str_obj o' \<longleftrightarrow> otype o' = OBJ_STRING \<and> 0 < refcount o' \<and>
     (case optr o' of
        PSds s \<Rightarrow> sds_ok s \<and> sdsEncodedObject o'
      | PInt n \<Rightarrow> in_int64 n \<and> oenc o' = OBJ_ENCODING_INT
      | PAgg _ \<Rightarrow> False)"

named_theorems obj_rules \<open>what the operations on string objects return\<close>

lemma str_obj_cases [consumes 1]:
  assumes "str_obj o'"
  obtains (raw) s where "optr o' = PSds s" "sds_ok s" "sdsEncodedObject o'" "otype o' = OBJ_STRING" "obj_text o' = sdsval s"
    "oenc o' \<noteq> OBJ_ENCODING_INT" "0 < refcount o'" "take (sdslen s) (hdr_buf s) = sdsval s"
  | (num) n where "optr o' = PInt n" "in_int64 n" "oenc o' = OBJ_ENCODING_INT" "otype o' = OBJ_STRING" "obj_text o' = deci n"
    "\<not> sdsEncodedObject o'" "0 < refcount o'"
proof (cases "optr o'")
  case (PSds s)
  with assms show thesis by (intro raw) (auto simp: str_obj_def obj_text_def sdsEncodedObject_def take_bufI)
next
  case (PInt n)
  with assms show thesis by (intro num) (auto simp: str_obj_def obj_text_def sdsEncodedObject_def)
qed (use assms in \<open>auto simp: str_obj_def\<close>)

lemma createObject_sds [obj_rules]:
  "sds_ok s \<Longrightarrow> str_obj (createObject clock OBJ_STRING (PSds s)) \<and>
    obj_text (createObject clock OBJ_STRING (PSds s)) = sdsval s"
  by (simp add: str_obj_def obj_text_def createObject_def sdsEncodedObject_def)

lemma createRawStringObject_ok [obj_rules]:
  "len < 2 ^ 64 \<Longrightarrow> len \<le> length p \<Longrightarrow>
    \<exists>o'. createRawStringObject clock (Some p) len = Inr o' \<and> str_obj o' \<and> obj_text o' = take len p"
  using sdsnewlen_ok(1) [of len p] by (auto simp: createRawStringObject_def dest: createObject_sds)

lemma createEmbeddedStringObject_ok [obj_rules]:
  assumes "len < 256" "len \<le> length p"
  shows "\<exists>o'. createEmbeddedStringObject clock (Some p) len = Inr o' \<and> str_obj o' \<and> obj_text o' = take len p"
proof -
  let ?s = "\<lparr>hdr_type = SDS_TYPE_8, hdr_len = len, hdr_alloc = len, hdr_buf = take len p @ [NUL]\<rparr>"
  have "sds_ok ?s \<and> sdsval ?s = take len p" using assms by (intro sds_okI) (auto simp: sdsalloc_def)
  then show ?thesis using assms
    by (simp add: createEmbeddedStringObject_def rd_bytes_def str_obj_def obj_text_def sdsEncodedObject_def)
qed

lemma createStringObject_ok [obj_rules]:
  "len < 2 ^ 64 \<Longrightarrow> len \<le> length p \<Longrightarrow>
    \<exists>o'. createStringObject clock (Some p) len = Inr o' \<and> str_obj o' \<and> obj_text o' = take len p"
  using createEmbeddedStringObject_ok [of len p clock] createRawStringObject_ok [of len p clock]
  by (auto simp: createStringObject_def OBJ_ENCODING_EMBSTR_SIZE_LIMIT_def)

lemma shared_integer_ok [obj_rules]:
  "in_int64 v \<Longrightarrow> str_obj (incrRefCount (shared_integer clock v)) \<and>
    obj_text (incrRefCount (shared_integer clock v)) = deci v"
  by (simp add: str_obj_def obj_text_def incrRefCount_def shared_integer_def createObject_def)

lemma decrRefCount_str [obj_rules]: "str_obj o' \<Longrightarrow> \<exists>r. decrRefCount o' = Inr r"
  by (erule str_obj_cases) (auto simp: decrRefCount_def freeStringObject_def sds_of_def)

lemma string2l_text: "string2l s = Some v \<Longrightarrow> in_int64 v \<and> s = deci v"
  by (simp add: string2l_eq string2ll_iff)

lemma tryObjectEncoding_text:
  assumes "str_obj o'"
  shows "\<exists>o2. tryObjectEncoding junk clock mm pol o' = Inr o2 \<and> str_obj o2 \<and> obj_text o2 = obj_text o'"
  using assms
proof (cases rule: str_obj_cases)
  case (num n)
  with assms show ?thesis by (simp add: tryObjectEncoding_def)
next
  case (raw s)
  let ?l = "string2l (sdsval s)"
  obtain r where r: "decrRefCount o' = Inr r" using decrRefCount_str [OF assms] by blast
  consider (shared) "refcount o' > 1"
    | (number) v where "\<not> refcount o' > 1" "sdslen s \<le> 20" "?l = Some v"
    | (short) "\<not> refcount o' > 1" "\<not> (sdslen s \<le> 20 \<and> ?l \<noteq> None)" "sdslen s \<le> 44"
    | (long) "\<not> refcount o' > 1" "\<not> (sdslen s \<le> 20 \<and> ?l \<noteq> None)" "\<not> sdslen s \<le> 44" by fastforce
  then show ?thesis
  proof cases
    case shared
    with assms raw show ?thesis by (simp add: tryObjectEncoding_def)
  next
    case (number v)
    have v: "in_int64 v" "sdsval s = deci v" using string2l_text number(3) by auto
    have "str_obj (o'\<lparr>oenc := OBJ_ENCODING_INT, optr := PInt v\<rparr>)"
      "obj_text (o'\<lparr>oenc := OBJ_ENCODING_INT, optr := PInt v\<rparr>) = deci v"
      using raw v by (simp_all add: str_obj_def obj_text_def)
    with raw number v r shared_integer_ok [OF v(1)] show ?thesis
      by (simp add: tryObjectEncoding_def sds_of_def Let_def)
  next
    case short
    have "sdslen s \<le> length (hdr_buf s)" using sdslen_le_buf [OF raw(2)] by simp
    with createEmbeddedStringObject_ok [of "sdslen s" "hdr_buf s" clock] short raw
    obtain e where "createEmbeddedStringObject clock (Some (hdr_buf s)) (sdslen s) = Inr e" "str_obj e"
      "obj_text e = sdsval s" by auto
    with raw short assms r show ?thesis
      unfolding tryObjectEncoding_def sds_of_def Let_def OBJ_ENCODING_EMBSTR_SIZE_LIMIT_def by auto
  next
    case long
    obtain s' where s': "sdsRemoveFreeSpace junk s = Inr s'" "sds_ok s'" "sdsval s' = sdsval s"
      using sdsRemoveFreeSpace_ok [OF raw(2)] by blast
    then have "str_obj (o'\<lparr>optr := PSds s'\<rparr>)" "obj_text (o'\<lparr>optr := PSds s'\<rparr>) = sdsval s"
      using raw by (simp_all add: str_obj_def obj_text_def sdsEncodedObject_def)
    with raw long assms s'(1) show ?thesis
      unfolding tryObjectEncoding_def sds_of_def Let_def OBJ_ENCODING_EMBSTR_SIZE_LIMIT_def by auto
  qed
qed

lemma ll2string_buffer:
  assumes "in_int64 n" "21 \<le> sz"
  shows "ll2string (mem_resize junk sz []) sz n =
    Inr (length (deci n), deci n @ NUL # drop (Suc (length (deci n))) (mem_resize junk sz []))"
  using assms length_deci_int64 [OF assms(1)] by (intro ll2string_fits) auto

lemma getDecodedObject_text:
  assumes "str_obj o'"
  shows "\<exists>o2. getDecodedObject junk clock o' = Inr o2 \<and> str_obj o2 \<and> obj_text o2 = obj_text o' \<and> sdsEncodedObject o2"
  using assms
proof (cases rule: str_obj_cases)
  case (raw s)
  then show ?thesis
    by (auto simp: getDecodedObject_def incrRefCount_def str_obj_def obj_text_def sdsEncodedObject_def)
next
  case (num n)
  define b where "b = deci n @ NUL # drop (Suc (length (deci n))) (mem_resize junk 32 [])"
  have b: "ll2string (mem_resize junk 32 []) 32 n = Inr (length (deci n), b)"
    unfolding b_def using ll2string_buffer num(2) by simp
  have c: "rd_cstr b 0 = Inr (deci n)" unfolding b_def by (intro rd_cstr_terminated) auto
  have l: "length (deci n) \<le> 20" using length_deci_int64 num(2) by blast
  obtain o2 where "createEmbeddedStringObject clock (Some b) (length (deci n)) = Inr o2" "str_obj o2" "obj_text o2 = deci n"
    using createEmbeddedStringObject_ok [of "length (deci n)" b clock] l by (auto simp: b_def)
  moreover from this have "sdsEncodedObject o2"
    by (auto simp: createEmbeddedStringObject_def sdsEncodedObject_def rd_bytes_def split: if_splits)
  ultimately show ?thesis using num b c l
    by (simp add: getDecodedObject_def long_of_def createStringObject_def OBJ_ENCODING_EMBSTR_SIZE_LIMIT_def)
qed

lemma stringObjectLen_text [obj_rules]: "str_obj o' \<Longrightarrow> stringObjectLen o' = Inr (length (obj_text o'))"
  by (erule str_obj_cases) (simp_all add: stringObjectLen_def sds_of_def long_of_def sdigits10_length)

lemma cmp_text_ok:
  assumes "str_obj o'"
  shows "cmp_text junk o' = Inr (obj_text o')"
  using assms
proof (cases rule: str_obj_cases)
  case (raw s)
  then show ?thesis using sdslen_le_buf [of s] by (simp add: cmp_text_def sds_of_def rd_bytes_def)
next
  case (num n)
  then show ?thesis by (simp add: cmp_text_def long_of_def ll2string_buffer rd_bytes_def)
qed

lemma equalStringObjects_text:
  assumes "str_obj a" "str_obj b" "length (obj_text a) < 2 ^ 31" "length (obj_text b) < 2 ^ 31"
  shows "equalStringObjects junk a b = Inr (obj_text a = obj_text b)"
proof (cases "oenc a = OBJ_ENCODING_INT \<and> oenc b = OBJ_ENCODING_INT")
  case True
  with assms(1,2) obtain m n where mn: "optr a = PInt m" "obj_text a = deci m" "in_int64 m"
    "optr b = PInt n" "obj_text b = deci n" "in_int64 n" by (auto elim!: str_obj_cases)
  then have "deci m = deci n \<longleftrightarrow> m = n" by (metis option.inject string2ll_iff)
  with True mn show ?thesis by (simp add: equalStringObjects_def)
next
  case False
  have t: "otype a = OBJ_STRING" "otype b = OBJ_STRING" using assms(1,2) by (simp_all add: str_obj_def)
  have "compareStringObjects junk a b = Inr (sdscmp (obj_text a) (obj_text b))"
    using t by (simp add: compareStringObjects_def cmp_text_ok assms(1,2) sdscmp_def Let_def min_def)
  with False show ?thesis using sdscmp_zero [OF assms(3,4)] by (auto simp: equalStringObjects_def)
qed

lemma getLongLongFromObject_text:
  "str_obj o' \<Longrightarrow> getLongLongFromObject (Some o') = Inr (string2ll (obj_text o'))"
  by (erule str_obj_cases)
    (simp_all add: getLongLongFromObject_def sds_of_def long_of_def string2ll_iff [THEN iffD2])

lemma createStringObjectFromLongLong_text:
  assumes "in_int64 v"
  shows "\<exists>o'. createStringObjectFromLongLong clock v = Inr o' \<and> str_obj o' \<and> obj_text o' = deci v"
proof (cases "0 \<le> v \<and> v < OBJ_SHARED_INTEGERS")
  case True
  then show ?thesis using shared_integer_ok [OF assms] by (simp add: createStringObjectFromLongLong_def)
next
  case False
  have "- (2 ^ 63) \<le> v \<and> v \<le> 2 ^ 63 - 1" using assms by (simp add: in_int64_def)
  with False assms show ?thesis
    unfolding createStringObjectFromLongLong_def if_not_P [OF False]
    by (simp add: createObject_def str_obj_def obj_text_def)
qed

lemma dupStringObject_text:
  assumes "str_obj o'" "length (obj_text o') < 256 \<or> oenc o' \<noteq> OBJ_ENCODING_EMBSTR"
  shows "\<exists>o2. dupStringObject clock o' = Inr o2 \<and> str_obj o2 \<and> obj_text o2 = obj_text o' \<and>
    oenc o2 = oenc o' \<and> refcount o2 = 1"
  using assms(1)
proof (cases rule: str_obj_cases)
  case (raw s)
  have l: "sdslen s < 2 ^ 64" "sdslen s \<le> length (hdr_buf s)"
    using sdslen_less64 sdslen_le_buf [OF raw(2)] raw(2) by simp_all
  consider "oenc o' = OBJ_ENCODING_RAW" | "oenc o' = OBJ_ENCODING_EMBSTR" using raw(3) by (auto simp: sdsEncodedObject_def)
  then show ?thesis
  proof cases
    case 1
    with createRawStringObject_ok [OF l, of clock] raw show ?thesis
      by (auto simp: dupStringObject_def sds_of_def createRawStringObject_def createObject_def)
  next
    case 2
    then have "sdslen s < 256" using assms(2) raw by simp
    from createEmbeddedStringObject_ok [OF this l(2), of clock] 2 raw show ?thesis
      by (auto simp: dupStringObject_def sds_of_def createEmbeddedStringObject_def)
  qed
next
  case (num n)
  then show ?thesis by (auto simp: dupStringObject_def createObject_def str_obj_def obj_text_def)
qed

section \<open>Properties\<close>

text \<open>
  C11. Whatever compact encoding \<open>tryObjectEncoding\<close> chooses (a shared or private integer, an
  embedded string, a trimmed string) under any memory policy, the object still stands for the same bytes,
  and \<open>getDecodedObject\<close> gives an object that holds exactly those bytes.
\<close>

theorem encoding_keeps_text:
  assumes "str_obj o'"
  shows "\<exists>o2 o3. tryObjectEncoding junk clock mm pol o' = Inr o2 \<and> str_obj o2 \<and> obj_text o2 = obj_text o' \<and>
    getDecodedObject junk clock o2 = Inr o3 \<and> sdsEncodedObject o3 \<and> obj_text o3 = obj_text o'"
  using tryObjectEncoding_text [OF assms] getDecodedObject_text by metis

theorem encoding_keeps_text_witness:
  "\<exists>o' o2 o3. createStringObject 0 (Some ''1234567'') 7 = Inr o' \<and>
    tryObjectEncoding (\<lambda>_. CHR ''z'') 0 0 MAXMEMORY_NO_EVICTION o' = Inr o2 \<and>
    getDecodedObject (\<lambda>_. CHR ''z'') 0 o2 = Inr o3 \<and> obj_text o3 = ''1234567''"
proof -
  obtain o' where o': "createStringObject 0 (Some ''1234567'') 7 = Inr o'" "str_obj o'" "obj_text o' = ''1234567''"
    using createStringObject_ok [of 7 "''1234567''" 0] by auto
  with encoding_keeps_text [OF o'(2), of "\<lambda>_. CHR ''z''" 0 0 MAXMEMORY_NO_EVICTION] show ?thesis by metis
qed



end
