(* ===== verification/Reply.thy ===== *)
theory Reply
  imports Object
begin

text \<open>
  The output side of \<open>src/networking.c\<close>: the client structure, the fixed reply buffer and the list
  of reply objects behind it, the functions that queue replies, the output limits, and the loop that
  writes to the socket. The environment \<open>env\<close> holds what the code reads of the world: the allocator
  (\<open>junk\<close> bytes, usable size of a block), the clock and the configured limits.
\<close>

section \<open>Clients\<close>

datatype client_flag =
    CLIENT_SLAVE | CLIENT_MASTER | CLIENT_MONITOR | CLIENT_MULTI | CLIENT_BLOCKED
  | CLIENT_DIRTY_CAS | CLIENT_CLOSE_AFTER_REPLY | CLIENT_UNBLOCKED | CLIENT_LUA | CLIENT_ASKING | CLIENT_CLOSE_ASAP
  | CLIENT_UNIX_SOCKET | CLIENT_DIRTY_EXEC | CLIENT_MASTER_FORCE_REPLY | CLIENT_FORCE_AOF | CLIENT_FORCE_REPL
  | CLIENT_PRE_PSYNC | CLIENT_READONLY | CLIENT_PUBSUB | CLIENT_PREVENT_AOF_PROP | CLIENT_PREVENT_REPL_PROP
  | CLIENT_PENDING_WRITE | CLIENT_REPLY_OFF | CLIENT_REPLY_SKIP_NEXT | CLIENT_REPLY_SKIP
  | CLIENT_LUA_DEBUG | CLIENT_LUA_DEBUG_SYNC

text \<open>
  \<open>argc\<close> is the length of \<open>argv\<close>. The two counters say how often the client was put on the server's
  lists of clients with pending writes and of clients to close.
\<close>

record client =
  fd :: int
  querybuf :: sds
  argv :: "robj list"
  reqtype :: nat
  multibulklen :: int
  bulklen :: int
  reply :: "robj list"
  reply_bytes :: nat
  sentlen :: nat
  lastinteraction :: int
  obuf_soft_limit_reached_time :: int
  flags :: "client_flag set"
  authenticated :: bool
  replstate :: nat
  repl_put_online_on_ack :: bool
  repl_ack_time :: int
  reploff :: int
  bufpos :: nat
  buf :: string
  http_querybuf :: sds
  command_last_error :: "string option"
  command_last_reply :: "objptr option"
  pending_write_listed :: nat
  to_close_listed :: nat

datatype client_class = CLIENT_TYPE_NORMAL | CLIENT_TYPE_SLAVE | CLIENT_TYPE_PUBSUB | CLIENT_TYPE_MASTER

record env =
  junk :: "nat \<Rightarrow> char"
  usable :: "nat \<Rightarrow> nat"
  lruclock :: nat
  unixtime :: int
  hard_limit_bytes :: "client_class \<Rightarrow> nat"
  soft_limit_bytes :: "client_class \<Rightarrow> nat"
  soft_limit_seconds :: "client_class \<Rightarrow> int"

definition PROTO_REPLY_CHUNK_BYTES :: nat where
  "PROTO_REPLY_CHUNK_BYTES = 16 * 1024"

definition NET_MAX_WRITES_PER_EVENT :: nat where
  "NET_MAX_WRITES_PER_EVENT = 1024 * 64"

definition u64_add :: "nat \<Rightarrow> nat \<Rightarrow> nat" where
  "u64_add a b = (a + b) mod 2 ^ 64"

definition u64_sub :: "nat \<Rightarrow> nat \<Rightarrow> nat" where
  "u64_sub a b = (a + 2 ^ 64 - b) mod 2 ^ 64"

section \<open>Accounting and limits\<close>

definition sdsZmallocSize :: "env \<Rightarrow> sds \<Rightarrow> nat" where
  "sdsZmallocSize e s = usable e (sdsHdrSize (hdr_type s) + sdsalloc s + 1)"

text \<open>An embedded string shares its block with the object (16 bytes) and a three byte header.\<close>

definition getStringObjectSdsUsedMemory :: "env \<Rightarrow> robj \<Rightarrow> nat" where
  "getStringObjectSdsUsedMemory e o' =
     (case (oenc o', optr o') of
        (OBJ_ENCODING_RAW, PSds s) \<Rightarrow> sdsZmallocSize e s
      | (OBJ_ENCODING_EMBSTR, PSds s) \<Rightarrow> usable e (16 + 3 + sdsalloc s + 1) - 16
      | _ \<Rightarrow> 0)"

definition clientHasPendingReplies :: "client \<Rightarrow> bool" where
  "clientHasPendingReplies c \<longleftrightarrow> bufpos c \<noteq> 0 \<or> reply c \<noteq> []"

definition getClientOutputBufferMemoryUsage :: "client \<Rightarrow> nat" where
  "getClientOutputBufferMemoryUsage c = (let list_item_size = 24 + 16 in u64_add (reply_bytes c) (list_item_size * length (reply c)))"

definition getClientType :: "client \<Rightarrow> client_class" where
  "getClientType c =
     (if CLIENT_MASTER \<in> flags c then CLIENT_TYPE_MASTER
      else if CLIENT_SLAVE \<in> flags c \<and> CLIENT_MONITOR \<notin> flags c then CLIENT_TYPE_SLAVE
      else if CLIENT_PUBSUB \<in> flags c then CLIENT_TYPE_PUBSUB
      else CLIENT_TYPE_NORMAL)"

definition checkClientOutputBufferLimits :: "env \<Rightarrow> client \<Rightarrow> bool \<times> client" where
  "checkClientOutputBufferLimits e c =
     (let used_mem = getClientOutputBufferMemoryUsage c;
          class0 = getClientType c;
          cls = (if class0 = CLIENT_TYPE_MASTER then CLIENT_TYPE_NORMAL else class0);
          hard = (hard_limit_bytes e cls \<noteq> 0 \<and> used_mem \<ge> hard_limit_bytes e cls);
          soft = (soft_limit_bytes e cls \<noteq> 0 \<and> used_mem \<ge> soft_limit_bytes e cls)
      in if soft then
           (if obuf_soft_limit_reached_time c = 0 then
              (hard, c\<lparr>obuf_soft_limit_reached_time := unixtime e\<rparr>)
            else
              (let elapsed = unixtime e - obuf_soft_limit_reached_time c in
               (\<not> elapsed \<le> soft_limit_seconds e cls \<or> hard, c)))
         else (hard, c\<lparr>obuf_soft_limit_reached_time := 0\<rparr>))"

definition freeClientAsync :: "client \<Rightarrow> client" where
  "freeClientAsync c =
     (if CLIENT_CLOSE_ASAP \<in> flags c \<or> CLIENT_LUA \<in> flags c then c
      else c\<lparr>flags := insert CLIENT_CLOSE_ASAP (flags c), to_close_listed := Suc (to_close_listed c)\<rparr>)"

definition asyncCloseClientOnOutputBufferLimitReached :: "env \<Rightarrow> client \<Rightarrow> client res" where
  "asyncCloseClientOnOutputBufferLimitReached e c =
     rbind (rassert (reply_bytes c < 2 ^ 64 - 1 - 1024 * 64) AssertFail) (\<lambda>_.
     if reply_bytes c = 0 \<or> CLIENT_CLOSE_ASAP \<in> flags c then Inr c
     else
       (case checkClientOutputBufferLimits e c of (reached, c1) \<Rightarrow>
          if reached then Inr (freeClientAsync c1) else Inr c1))"

section \<open>Queueing replies\<close>

definition prepareClientToWrite :: "client \<Rightarrow> bool \<times> client" where
  "prepareClientToWrite c =
     (if CLIENT_LUA \<in> flags c then (True, c)
      else if CLIENT_REPLY_OFF \<in> flags c \<or> CLIENT_REPLY_SKIP \<in> flags c then (False, c)
      else if CLIENT_MASTER \<in> flags c \<and> CLIENT_MASTER_FORCE_REPLY \<notin> flags c then (False, c)
      else if fd c \<le> 0 then (False, c)
      else if \<not> clientHasPendingReplies c \<and> CLIENT_PENDING_WRITE \<notin> flags c \<and>
              (replstate c = 0 \<or> replstate c = 9 \<and> \<not> repl_put_online_on_ack c)
      then (True, c\<lparr>flags := insert CLIENT_PENDING_WRITE (flags c),
                    pending_write_listed := Suc (pending_write_listed c)\<rparr>)
      else (True, c))"

definition dupLastObjectIfNeeded :: "env \<Rightarrow> robj list \<Rightarrow> robj list res" where
  "dupLastObjectIfNeeded e objs =
     rbind (rassert (objs \<noteq> []) AssertFail) (\<lambda>_.
     let cur = last objs in
     if refcount cur > 1 then
       rbind (dupStringObject (lruclock e) cur) (\<lambda>new.
       rbind (decrRefCount cur) (\<lambda>_. Inr (butlast objs @ [new])))
     else Inr objs)"

text \<open>\<open>_addReplyToBuffer\<close>: the answer is whether the data needs no other place.\<close>

definition addReplyToBuffer :: "client \<Rightarrow> string \<Rightarrow> nat \<Rightarrow> (bool \<times> client) res" where
  "addReplyToBuffer c s len =
     (let available = PROTO_REPLY_CHUNK_BYTES - bufpos c in
      if CLIENT_CLOSE_AFTER_REPLY \<in> flags c then Inr (True, c)
      else if length (reply c) > 0 then Inr (False, c)
      else if len > available then Inr (False, c)
      else
        rbind (rd_bytes s 0 len) (\<lambda>t.
        rbind (wr_bytes (buf c) (bufpos c) t) (\<lambda>b.
        Inr (True, c\<lparr>buf := b, bufpos := bufpos c + len\<rparr>))))"

text \<open>Whether the last object can take \<open>len\<close> more bytes, and the append itself.\<close>

definition can_glue :: "robj list \<Rightarrow> nat \<Rightarrow> bool" where
  "can_glue objs len \<longleftrightarrow>
     (case optr (last objs) of
        PSds t \<Rightarrow> oenc (last objs) = OBJ_ENCODING_RAW \<and> sdslen t + len \<le> PROTO_REPLY_CHUNK_BYTES
      | _ \<Rightarrow> False)"

definition glue :: "env \<Rightarrow> client \<Rightarrow> string \<Rightarrow> nat \<Rightarrow> client res" where
  "glue e c s len =
     rbind (sds_of (last (reply c))) (\<lambda>t0.
     let c1 = c\<lparr>reply_bytes := u64_sub (reply_bytes c) (sdsZmallocSize e t0)\<rparr> in
     rbind (dupLastObjectIfNeeded e (reply c1)) (\<lambda>objs.
     rbind (sds_of (last objs)) (\<lambda>t1.
     rbind (sdscatlen (junk e) t1 s len) (\<lambda>t2.
     Inr (c1\<lparr>reply := butlast objs @ [(last objs)\<lparr>optr := PSds t2\<rparr>],
             reply_bytes := u64_add (reply_bytes c1) (sdsZmallocSize e t2)\<rparr>)))))"

definition push_reply :: "env \<Rightarrow> client \<Rightarrow> robj \<Rightarrow> client" where
  "push_reply e c o' =
     c\<lparr>reply := reply c @ [o'],
       reply_bytes := u64_add (reply_bytes c) (getStringObjectSdsUsedMemory e o')\<rparr>"

definition addReplyObjectToList :: "env \<Rightarrow> client \<Rightarrow> robj \<Rightarrow> client res" where
  "addReplyObjectToList e c o' =
     (if CLIENT_CLOSE_AFTER_REPLY \<in> flags c then Inr c
      else
        rbind (if length (reply c) = 0 then Inr (push_reply e c (incrRefCount o'))
               else
                 rbind (sds_of o') (\<lambda>s.
                 if can_glue (reply c) (sdslen s) then glue e c (hdr_buf s) (sdslen s)
                 else Inr (push_reply e c (incrRefCount o')))) (\<lambda>c'.
        asyncCloseClientOnOutputBufferLimitReached e c'))"

definition addReplySdsToList :: "env \<Rightarrow> client \<Rightarrow> sds \<Rightarrow> client res" where
  "addReplySdsToList e c s =
     (if CLIENT_CLOSE_AFTER_REPLY \<in> flags c then Inr c
      else
        rbind (if length (reply c) = 0 then Inr (push_reply e c (createObject (lruclock e) OBJ_STRING (PSds s)))
               else if can_glue (reply c) (sdslen s) then glue e c (hdr_buf s) (sdslen s)
               else Inr (push_reply e c (createObject (lruclock e) OBJ_STRING (PSds s)))) (\<lambda>c'.
        asyncCloseClientOnOutputBufferLimitReached e c'))"

definition addReplyStringToList :: "env \<Rightarrow> client \<Rightarrow> string \<Rightarrow> nat \<Rightarrow> client res" where
  "addReplyStringToList e c s len =
     (if CLIENT_CLOSE_AFTER_REPLY \<in> flags c then Inr c
      else
        rbind (if length (reply c) = 0 then
                 rbind (createStringObject (lruclock e) (Some s) len) (\<lambda>o'. Inr (push_reply e c o'))
               else if can_glue (reply c) len then glue e c s len
               else rbind (createStringObject (lruclock e) (Some s) len) (\<lambda>o'. Inr (push_reply e c o'))) (\<lambda>c'.
        asyncCloseClientOnOutputBufferLimitReached e c'))"

text \<open>The object first tries the fixed buffer and then the list.\<close>

definition addReplyEncoded :: "env \<Rightarrow> client \<Rightarrow> robj \<Rightarrow> client res" where
  "addReplyEncoded e c obj =
     rbind (sds_of obj) (\<lambda>s.
     rbind (addReplyToBuffer c (hdr_buf s) (sdslen s)) (\<lambda>(ok, c1).
     if \<not> ok then addReplyObjectToList e c1 obj else Inr c1))"

definition addReply :: "env \<Rightarrow> client \<Rightarrow> robj \<Rightarrow> client res" where
  "addReply e c0 obj =
     (case prepareClientToWrite c0 of (ok, c) \<Rightarrow>
      if \<not> ok then Inr c
      else if sdsEncodedObject obj then addReplyEncoded e c obj
      else if oenc obj = OBJ_ENCODING_INT then
        (let slow = rbind (getDecodedObject (junk e) (lruclock e) obj) (\<lambda>d.
                    rbind (addReplyEncoded e c d) (\<lambda>c1.
                    rbind (decrRefCount d) (\<lambda>_. Inr c1))) in
         if length (reply c) = 0 \<and> PROTO_REPLY_CHUNK_BYTES - bufpos c \<ge> 32 then
           rbind (long_of obj) (\<lambda>n.
           rbind (ll2string (mem_resize (junk e) 32 []) 32 n) (\<lambda>(len, b).
           rbind (addReplyToBuffer c b len) (\<lambda>(done, c1). if done then Inr c1 else slow)))
         else slow)
      else Inl Panic)"

definition addReplySds :: "env \<Rightarrow> client \<Rightarrow> sds \<Rightarrow> client res" where
  "addReplySds e c0 s =
     (case prepareClientToWrite c0 of (ok, c) \<Rightarrow>
      if \<not> ok then Inr c
      else
        rbind (addReplyToBuffer c (hdr_buf s) (sdslen s)) (\<lambda>(done, c1).
        if done then Inr c1 else addReplySdsToList e c1 s))"

definition addReplyString :: "env \<Rightarrow> client \<Rightarrow> string \<Rightarrow> nat \<Rightarrow> client res" where
  "addReplyString e c0 s len =
     (case prepareClientToWrite c0 of (ok, c) \<Rightarrow>
      if \<not> ok then Inr c
      else
        rbind (addReplyToBuffer c s len) (\<lambda>(done, c1).
        if done then Inr c1 else addReplyStringToList e c1 s len))"

section \<open>Protocol texts\<close>

definition addReplyErrorLength :: "env \<Rightarrow> client \<Rightarrow> string \<Rightarrow> nat \<Rightarrow> client res" where
  "addReplyErrorLength e c s len =
     rbind (addReplyString e c ''-ERR '' 5) (\<lambda>c1.
     rbind (addReplyString e c1 s len) (\<lambda>c2.
     addReplyString e c2 crlf 2))"

definition addReplyError :: "env \<Rightarrow> client \<Rightarrow> string \<Rightarrow> client res" where
  "addReplyError e c err = addReplyErrorLength e c err (length err)"

text \<open>The argument is the text \<open>sdscatvprintf\<close> formats.\<close>

definition addReplyErrorFormat :: "env \<Rightarrow> client \<Rightarrow> string \<Rightarrow> client res" where
  "addReplyErrorFormat e c text' =
     (let s = map (\<lambda>ch. if ch = CR \<or> ch = LF then CHR '' '' else ch) text' in
      addReplyErrorLength e c s (length s))"

definition addReplyStatusLength :: "env \<Rightarrow> client \<Rightarrow> string \<Rightarrow> nat \<Rightarrow> client res" where
  "addReplyStatusLength e c s len =
     rbind (addReplyString e c ''+'' 1) (\<lambda>c1.
     rbind (addReplyString e c1 s len) (\<lambda>c2.
     addReplyString e c2 crlf 2))"

definition addReplyStatus :: "env \<Rightarrow> client \<Rightarrow> string \<Rightarrow> client res" where
  "addReplyStatus e c status = addReplyStatusLength e c status (length status)"

text \<open>A shared object made at start-up with \<open>createObject(OBJ_STRING, sdsnew(...))\<close>.\<close>

definition shared_obj :: "env \<Rightarrow> string \<Rightarrow> robj res" where
  "shared_obj e t = rbind (sdsnew (Some t)) (\<lambda>s. Inr (createObject (lruclock e) OBJ_STRING (PSds s)))"

definition addReplyShared :: "env \<Rightarrow> client \<Rightarrow> string \<Rightarrow> client res" where
  "addReplyShared e c t = rbind (shared_obj e t) (\<lambda>o'. addReply e c o')"

definition OBJ_SHARED_BULKHDR_LEN :: int where
  "OBJ_SHARED_BULKHDR_LEN = 32"

definition addReplyLongLongWithPrefix :: "env \<Rightarrow> client \<Rightarrow> int \<Rightarrow> char \<Rightarrow> client res" where
  "addReplyLongLongWithPrefix e c ll pre =
     (if (pre = CHR ''*'' \<or> pre = CHR ''$'') \<and> ll < OBJ_SHARED_BULKHDR_LEN \<and> ll \<ge> 0
      then addReplyShared e c (pre # deci ll @ crlf)
      else
        rbind (wr (mem_resize (junk e) 128 []) 0 pre) (\<lambda>b0.
        rbind (ll2string (drop 1 b0) 127 ll) (\<lambda>(len, b1).
        rbind (wr (take 1 b0 @ b1) (len + 1) CR) (\<lambda>b2.
        rbind (wr b2 (len + 2) LF) (\<lambda>b3.
        addReplyString e c b3 (len + 3))))))"

definition addReplyLongLong :: "env \<Rightarrow> client \<Rightarrow> int \<Rightarrow> client res" where
  "addReplyLongLong e c ll =
     (if ll = 0 then addReplyShared e c ('':0'' @ crlf)
      else if ll = 1 then addReplyShared e c ('':1'' @ crlf)
      else addReplyLongLongWithPrefix e c ll (CHR '':''))"

text \<open>A negative length indexes the array of shared headers below its start.\<close>

definition addReplyMultiBulkLen :: "env \<Rightarrow> client \<Rightarrow> int \<Rightarrow> client res" where
  "addReplyMultiBulkLen e c len =
     (if len < OBJ_SHARED_BULKHDR_LEN then
        (if len < 0 then Inl OutOfBounds else addReplyShared e c (CHR ''*'' # deci len @ crlf))
      else addReplyLongLongWithPrefix e c len (CHR ''*''))"

function radix_len :: "nat \<Rightarrow> nat" where
  "radix_len n = (if n div 10 \<noteq> 0 then Suc (radix_len (n div 10)) else 0)"
  by pat_completeness auto
termination by (relation "measure id") auto

declare radix_len.simps [simp del]

definition addReplyBulkLen :: "env \<Rightarrow> client \<Rightarrow> robj \<Rightarrow> client res" where
  "addReplyBulkLen e c obj =
     rbind (if sdsEncodedObject obj then rbind (sds_of obj) (\<lambda>s. Inr (sdslen s))
            else
              rbind (long_of obj) (\<lambda>n.
              if n < 0 then rbind (ck_int64 (- n)) (\<lambda>m. Inr (2 + radix_len (nat m)))
              else Inr (1 + radix_len (nat n)))) (\<lambda>len.
     if int len < OBJ_SHARED_BULKHDR_LEN then addReplyShared e c (CHR ''$'' # deci (int len) @ crlf)
     else addReplyLongLongWithPrefix e c (int len) (CHR ''$''))"

definition addReplyBulk :: "env \<Rightarrow> client \<Rightarrow> robj \<Rightarrow> client res" where
  "addReplyBulk e c obj =
     rbind (addReplyBulkLen e c obj) (\<lambda>c1.
     rbind (addReply e c1 obj) (\<lambda>c2.
     addReplyShared e c2 crlf))"

definition addReplyBulkCBuffer :: "env \<Rightarrow> client \<Rightarrow> string \<Rightarrow> nat \<Rightarrow> client res" where
  "addReplyBulkCBuffer e c p len =
     rbind (addReplyLongLongWithPrefix e c (int len) (CHR ''$'')) (\<lambda>c1.
     rbind (addReplyString e c1 p len) (\<lambda>c2.
     addReplyShared e c2 crlf))"

definition addReplyBulkCString :: "env \<Rightarrow> client \<Rightarrow> string option \<Rightarrow> client res" where
  "addReplyBulkCString e c p =
     (case p of
        None \<Rightarrow> addReplyShared e c (''$-1'' @ crlf)
      | Some s \<Rightarrow> addReplyBulkCBuffer e c s (length s))"

definition addReplyBulkLongLong :: "env \<Rightarrow> client \<Rightarrow> int \<Rightarrow> client res" where
  "addReplyBulkLongLong e c ll =
     rbind (ll2string (mem_resize (junk e) 64 []) 64 ll) (\<lambda>(len, b). addReplyBulkCBuffer e c b len)"

definition checkType :: "env \<Rightarrow> client \<Rightarrow> robj \<Rightarrow> objtype \<Rightarrow> (bool \<times> client) res" where
  "checkType e c o' type =
     (if otype o' \<noteq> type then
        rbind (addReplyShared e c (''-WRONGTYPE Operation against a key holding the wrong kind of value'' @ crlf)) (\<lambda>c1.
        Inr (True, c1))
      else Inr (False, c))"

definition copyClientOutputBuffer :: "client \<Rightarrow> client \<Rightarrow> client res" where
  "copyClientOutputBuffer dst src =
     rbind (rd_bytes (buf src) 0 (bufpos src)) (\<lambda>t.
     rbind (wr_bytes (buf dst) 0 t) (\<lambda>b.
     Inr (dst\<lparr>reply := map incrRefCount (reply src), buf := b, bufpos := bufpos src,
              reply_bytes := reply_bytes src\<rparr>)))"

section \<open>Writing to the socket\<close>

text \<open>
  One turn of the loop of \<open>writeToClient\<close>. \<open>wn\<close> is what \<open>write\<close> returns, which is never more than the
  bytes offered; the result is the bytes accepted and the client, or nothing when the loop is left by \<open>break\<close>.
\<close>

definition write_step :: "env \<Rightarrow> client \<Rightarrow> int \<Rightarrow> (string \<times> client) option res" where
  "write_step e c wn =
     (if bufpos c > 0 then
        (if wn \<le> 0 then Inr None
         else
           let n = min (nat wn) (bufpos c - sentlen c) in
           rbind (rd_bytes (buf c) (sentlen c) n) (\<lambda>t.
           let sl = sentlen c + n in
           Inr (Some (t, if sl = bufpos c then c\<lparr>bufpos := 0, sentlen := 0\<rparr> else c\<lparr>sentlen := sl\<rparr>))))
      else
        (case reply c of
           [] \<Rightarrow> Inl NullDeref
         | o' # rest \<Rightarrow>
             rbind (sds_of o') (\<lambda>s.
             let objmem = getStringObjectSdsUsedMemory e o' in
             if wn \<le> 0 then Inr None
             else
               let n = min (nat wn) (sdslen s - sentlen c) in
               rbind (rd_bytes (hdr_buf s) (sentlen c) n) (\<lambda>t.
               let sl = sentlen c + n in
               Inr (Some (t, if sl = sdslen s
                             then c\<lparr>reply := rest, sentlen := 0, reply_bytes := u64_sub (reply_bytes c) objmem\<rparr>
                             else c\<lparr>sentlen := sl\<rparr>))))))"

definition drop_empty :: "env \<Rightarrow> client \<Rightarrow> client" where
  "drop_empty e c =
     c\<lparr>reply := tl (reply c), reply_bytes := u64_sub (reply_bytes c) (getStringObjectSdsUsedMemory e (hd (reply c)))\<rparr>"

definition head_empty :: "client \<Rightarrow> bool" where
  "head_empty c \<longleftrightarrow> bufpos c = 0 \<and> reply c \<noteq> [] \<and>
     (case optr (hd (reply c)) of PSds s \<Rightarrow> sdslen s = 0 | _ \<Rightarrow> False)"

text \<open>
  The loop against a script of results of \<open>write\<close>; when the script ends the socket would block.
  \<open>relaxed\<close> says that the memory limit lifts the bound on the bytes of one event. The last component
  is the last result.
\<close>

function write_loop :: "env \<Rightarrow> bool \<Rightarrow> client \<Rightarrow> int list \<Rightarrow> string \<Rightarrow> (string \<times> client \<times> int) res" where
  "write_loop e relaxed c script sent =
     (if \<not> clientHasPendingReplies c then Inr (sent, c, 0)
      else if head_empty c then write_loop e relaxed (drop_empty e c) script sent
      else
        (case script of
           [] \<Rightarrow> Inr (sent, c, -1)
         | wn # script' \<Rightarrow>
             rbind (write_step e c wn) (\<lambda>r.
             case r of
               None \<Rightarrow> Inr (sent, c, wn)
             | Some (t, c1) \<Rightarrow>
                 if length (sent @ t) > NET_MAX_WRITES_PER_EVENT \<and> \<not> relaxed then Inr (sent @ t, c1, wn)
                 else write_loop e relaxed c1 script' (sent @ t))))"
  by pat_completeness auto
termination
  by (relation "measures [\<lambda>(e, r, c, script, sent). length script, \<lambda>(e, r, c, script, sent). length (reply c)]")
     (auto simp: head_empty_def drop_empty_def)

declare write_loop.simps [simp del]

text \<open>
  \<open>writeToClient\<close>: the bytes sent and the client, or no client when it was freed; \<open>eagain\<close> is
  whether an error of \<open>write\<close> is the would-block error.
\<close>

definition writeToClient ::
  "env \<Rightarrow> bool \<Rightarrow> bool \<Rightarrow> client \<Rightarrow> int list \<Rightarrow> (string \<times> client option) res" where
  "writeToClient e relaxed eagain c script =
     rbind (write_loop e relaxed c script []) (\<lambda>(sent, c1, nwritten).
     if nwritten = -1 \<and> \<not> eagain then Inr (sent, None)
     else
       (let c2 = (if sent \<noteq> [] \<and> CLIENT_MASTER \<notin> flags c1 then c1\<lparr>lastinteraction := unixtime e\<rparr> else c1) in
        if \<not> clientHasPendingReplies c2 then
          (if CLIENT_CLOSE_AFTER_REPLY \<in> flags c2 then Inr (sent, None)
           else Inr (sent, Some (c2\<lparr>sentlen := 0\<rparr>)))
        else Inr (sent, Some c2)))"

section \<open>Invariant and pending bytes\<close>

definition reply_obj :: "robj \<Rightarrow> bool" where
  "reply_obj o' \<longleftrightarrow> str_obj o' \<and> sdsEncodedObject o'"

text \<open>How far the part being written has been written.\<close>

definition sent_ok :: "client \<Rightarrow> bool" where
  "sent_ok c \<longleftrightarrow> sentlen c = 0 \<or>
     (if 0 < bufpos c then sentlen c < bufpos c
      else reply c \<noteq> [] \<and> sentlen c < length (obj_text (hd (reply c))))"

definition out_ok :: "env \<Rightarrow> client \<Rightarrow> bool" where
  "out_ok e c \<longleftrightarrow>
     length (buf c) = PROTO_REPLY_CHUNK_BYTES \<and> bufpos c \<le> PROTO_REPLY_CHUNK_BYTES \<and>
     list_all reply_obj (reply c) \<and>
     reply_bytes c = sum_list (map (getStringObjectSdsUsedMemory e) (reply c)) \<and> sent_ok c"

definition out_bytes :: "client \<Rightarrow> string" where
  "out_bytes c = take (bufpos c) (buf c) @ concat (map obj_text (reply c))"

definition to_send :: "client \<Rightarrow> string" where
  "to_send c = drop (sentlen c) (out_bytes c)"

text \<open>The part of the client the output functions leave alone.\<close>

definition core :: "client \<Rightarrow> client" where
  "core c = c\<lparr>reply := [], reply_bytes := 0, obuf_soft_limit_reached_time := 0, flags := {}, bufpos := 0,
     buf := [], pending_write_listed := 0, to_close_listed := 0\<rparr>"

definition keeps :: "client \<Rightarrow> client \<Rightarrow> bool" where
  "keeps c c' \<longleftrightarrow> core c' = core c \<and> flags c \<subseteq> flags c' \<and>
     flags c' \<subseteq> flags c \<union> {CLIENT_PENDING_WRITE, CLIENT_CLOSE_ASAP}"

definition takes_replies :: "client \<Rightarrow> bool" where
  "takes_replies c \<longleftrightarrow> CLIENT_CLOSE_AFTER_REPLY \<notin> flags c \<and>
     (CLIENT_LUA \<in> flags c \<or>
      CLIENT_REPLY_OFF \<notin> flags c \<and> CLIENT_REPLY_SKIP \<notin> flags c \<and>
      (CLIENT_MASTER \<in> flags c \<longrightarrow> CLIENT_MASTER_FORCE_REPLY \<in> flags c) \<and> 0 < fd c)"

text \<open>No block is larger than the address space of the platform.\<close>

definition env_ok :: "env \<Rightarrow> bool" where
  "env_ok e \<longleftrightarrow> (\<forall>n. usable e n \<le> 2 ^ 48)"

text \<open>\<open>c'\<close> is \<open>c\<close> after \<open>k\<close> calls that queue \<open>t\<close>.\<close>

definition appends :: "env \<Rightarrow> nat \<Rightarrow> string \<Rightarrow> client \<Rightarrow> client \<Rightarrow> bool" where
  "appends e k t c c' \<longleftrightarrow> out_ok e c' \<and> keeps c c' \<and>
     out_bytes c' = out_bytes c @ (if takes_replies c then t else []) \<and>
     reply_bytes c' \<le> reply_bytes c + k * 2 ^ 48"

definition has_room :: "nat \<Rightarrow> client \<Rightarrow> bool" where
  "has_room k c \<longleftrightarrow> reply_bytes c + k * 2 ^ 48 < 2 ^ 63"

lemma core_simps [simp]:
  "core (c\<lparr>reply := a\<rparr>) = core c" "core (c\<lparr>reply_bytes := b\<rparr>) = core c"
  "core (c\<lparr>obuf_soft_limit_reached_time := t\<rparr>) = core c" "core (c\<lparr>flags := f\<rparr>) = core c"
  "core (c\<lparr>bufpos := n\<rparr>) = core c" "core (c\<lparr>buf := bs\<rparr>) = core c"
  "core (c\<lparr>pending_write_listed := m\<rparr>) = core c" "core (c\<lparr>to_close_listed := m\<rparr>) = core c"
  by (simp_all add: core_def)

lemma core_fields:
  assumes "core c' = core c"
  shows "fd c' = fd c" "querybuf c' = querybuf c" "argv c' = argv c" "reqtype c' = reqtype c"
    "multibulklen c' = multibulklen c" "bulklen c' = bulklen c" "sentlen c' = sentlen c"
    "replstate c' = replstate c" "repl_put_online_on_ack c' = repl_put_online_on_ack c"
    "http_querybuf c' = http_querybuf c" "command_last_error c' = command_last_error c"
    "command_last_reply c' = command_last_reply c" "authenticated c' = authenticated c"
  using arg_cong [OF assms, of fd] arg_cong [OF assms, of querybuf] arg_cong [OF assms, of argv]
    arg_cong [OF assms, of reqtype] arg_cong [OF assms, of multibulklen] arg_cong [OF assms, of bulklen]
    arg_cong [OF assms, of sentlen] arg_cong [OF assms, of replstate]
    arg_cong [OF assms, of repl_put_online_on_ack] arg_cong [OF assms, of http_querybuf]
    arg_cong [OF assms, of command_last_error] arg_cong [OF assms, of command_last_reply]
    arg_cong [OF assms, of authenticated]
  by (simp_all add: core_def)

lemma keeps_refl [simp]: "keeps c c"
  by (auto simp: keeps_def)

lemma keeps_trans: "keeps a b \<Longrightarrow> keeps b c \<Longrightarrow> keeps a c"
  by (auto simp: keeps_def)

lemma keeps_fields:
  assumes "keeps c c'"
  shows "fd c' = fd c" "querybuf c' = querybuf c" "argv c' = argv c" "reqtype c' = reqtype c"
    "multibulklen c' = multibulklen c" "bulklen c' = bulklen c" "sentlen c' = sentlen c"
    "http_querybuf c' = http_querybuf c" "command_last_error c' = command_last_error c"
    "command_last_reply c' = command_last_reply c" "authenticated c' = authenticated c"
  using core_fields [of c' c] assms by (simp_all add: keeps_def)

lemma keeps_flag:
  "keeps c c' \<Longrightarrow> f \<noteq> CLIENT_PENDING_WRITE \<Longrightarrow> f \<noteq> CLIENT_CLOSE_ASAP \<Longrightarrow> f \<in> flags c' \<longleftrightarrow> f \<in> flags c"
  by (auto simp: keeps_def)

lemma keeps_takes: "keeps c c' \<Longrightarrow> takes_replies c' \<longleftrightarrow> takes_replies c"
  by (simp add: takes_replies_def keeps_flag keeps_fields)

lemma appends_trans:
  assumes "appends e k t a b" "appends e l u b c"
  shows "appends e (k + l) (t @ u) a c"
proof -
  have "takes_replies b \<longleftrightarrow> takes_replies a" using assms(1) keeps_takes by (auto simp: appends_def)
  then show ?thesis using assms keeps_trans by (fastforce simp: appends_def algebra_simps)
qed

lemma has_room_step: "appends e k t c c' \<Longrightarrow> has_room (k + l) c \<Longrightarrow> has_room l c'"
  by (auto simp: appends_def has_room_def algebra_simps)

lemma has_room_le: "has_room l c \<Longrightarrow> k \<le> l \<Longrightarrow> has_room k c"
proof -
  assume "has_room l c" "k \<le> l"
  moreover from this have "k * 2 ^ 48 \<le> l * 2 ^ 48" by simp
  ultimately show ?thesis unfolding has_room_def by linarith
qed

lemma u64_exact [simp]:
  "a + b < 2 ^ 64 \<Longrightarrow> u64_add a b = a + b"
  "b \<le> a \<Longrightarrow> a < 2 ^ 64 \<Longrightarrow> u64_sub a b = a - b"
  unfolding u64_add_def u64_sub_def by (simp, rule mod_shift) auto

lemma async_close_ok:
  assumes "reply_bytes c < 2 ^ 63"
  shows "\<exists>c'. asyncCloseClientOnOutputBufferLimitReached e c = Inr c' \<and> core c' = core c \<and> reply c' = reply c \<and>
    reply_bytes c' = reply_bytes c \<and> bufpos c' = bufpos c \<and> buf c' = buf c \<and>
    flags c \<subseteq> flags c' \<and> flags c' \<subseteq> insert CLIENT_CLOSE_ASAP (flags c)"
  using assms
  by (auto simp: asyncCloseClientOnOutputBufferLimitReached_def checkClientOutputBufferLimits_def
      freeClientAsync_def Let_def)

lemma prepare_ok:
  assumes "prepareClientToWrite c = (ok, c')"
  shows "core c' = core c \<and> reply c' = reply c \<and> reply_bytes c' = reply_bytes c \<and> bufpos c' = bufpos c \<and>
    buf c' = buf c \<and> flags c \<subseteq> flags c' \<and> flags c' \<subseteq> insert CLIENT_PENDING_WRITE (flags c)"
    and "takes_replies c \<longleftrightarrow> ok \<and> CLIENT_CLOSE_AFTER_REPLY \<notin> flags c"
  using assms by (auto simp: prepareClientToWrite_def takes_replies_def split: if_splits)

lemma out_ok_same:
  "core c' = core c \<Longrightarrow> reply c' = reply c \<Longrightarrow> reply_bytes c' = reply_bytes c \<Longrightarrow> bufpos c' = bufpos c \<Longrightarrow>
    buf c' = buf c \<Longrightarrow> out_ok e c \<Longrightarrow> out_ok e c' \<and> out_bytes c' = out_bytes c"
  using core_fields(7) [of c' c] unfolding out_ok_def out_bytes_def sent_ok_def by auto

subsection \<open>The fixed buffer\<close>

lemma addReplyToBuffer_ok:
  assumes ok: "out_ok e c" and t: "len \<le> length s"
  shows "\<exists>r c'. addReplyToBuffer c s len = Inr (r, c') \<and> core c' = core c \<and> flags c' = flags c \<and>
    reply c' = reply c \<and> reply_bytes c' = reply_bytes c \<and>
    (if r then out_ok e c' \<and> out_bytes c' = out_bytes c @ (if CLIENT_CLOSE_AFTER_REPLY \<in> flags c then [] else take len s)
     else c' = c \<and> CLIENT_CLOSE_AFTER_REPLY \<notin> flags c)"
proof (cases "CLIENT_CLOSE_AFTER_REPLY \<in> flags c \<or> length (reply c) > 0 \<or> len > PROTO_REPLY_CHUNK_BYTES - bufpos c")
  case True
  with ok show ?thesis by (auto simp: addReplyToBuffer_def)
next
  case False
  define b where "b = take (bufpos c) (buf c) @ take len s @ drop (bufpos c + len) (buf c)"
  have fit: "bufpos c + len \<le> length (buf c)" using False ok by (auto simp: out_ok_def)
  let ?c = "c\<lparr>buf := b, bufpos := bufpos c + len\<rparr>"
  have "addReplyToBuffer c s len = Inr (True, ?c)"
    using False t fit by (simp add: addReplyToBuffer_def rd_bytes_def wr_bytes_def b_def)
  moreover have "out_ok e ?c"
  proof -
    have "length b = length (buf c)" using fit t by (simp add: b_def)
    moreover have "sent_ok ?c" using ok False by (cases "0 < bufpos c") (auto simp: out_ok_def sent_ok_def)
    ultimately show ?thesis using ok fit by (simp add: out_ok_def)
  qed
  moreover have "out_bytes ?c = out_bytes c @ take len s"
    using False fit t by (simp add: out_bytes_def b_def)
  ultimately show ?thesis using False by (intro exI [of _ True]) auto
qed

subsection \<open>The list of objects\<close>

lemma reply_objE:
  assumes "reply_obj o'"
  obtains s where "optr o' = PSds s" "sds_ok s" "obj_text o' = sdsval s" "sds_of o' = Inr s"
    "oenc o' = OBJ_ENCODING_RAW \<or> oenc o' = OBJ_ENCODING_EMBSTR" "take (sdslen s) (hdr_buf s) = sdsval s"
    "sdslen s \<le> length (hdr_buf s)"
proof -
  from assms have "str_obj o'" "sdsEncodedObject o'" by (simp_all add: reply_obj_def)
  then show thesis
  proof (cases rule: str_obj_cases)
    case (raw s)
    then show ?thesis using that [of s] sdslen_le_buf [of s] by (auto simp: sds_of_def sdsEncodedObject_def)
  qed simp
qed

lemma used_le: "env_ok e \<Longrightarrow> getStringObjectSdsUsedMemory e o' \<le> 2 ^ 48"
proof -
  assume "env_ok e"
  then have "usable e n \<le> 2 ^ 48" "usable e n - 16 \<le> 2 ^ 48" for n
    by (auto simp: env_ok_def intro: le_trans [OF diff_le_self])
  then show ?thesis
    unfolding getStringObjectSdsUsedMemory_def sdsZmallocSize_def by (auto split: encoding.split objptr.split)
qed

lemma push_reply_ok:
  assumes "out_ok e c" "reply_obj o'" "env_ok e" "reply_bytes c < 2 ^ 63"
  shows "out_ok e (push_reply e c o') \<and> out_bytes (push_reply e c o') = out_bytes c @ obj_text o' \<and>
    reply_bytes (push_reply e c o') \<le> reply_bytes c + 2 ^ 48"
proof -
  have u: "getStringObjectSdsUsedMemory e o' \<le> 2 ^ 48" using used_le assms(3) by blast
  then have "u64_add (reply_bytes c) (getStringObjectSdsUsedMemory e o') =
      reply_bytes c + getStringObjectSdsUsedMemory e o'" using assms(4) by simp
  with assms u show ?thesis
    by (cases "reply c") (auto simp: push_reply_def out_ok_def out_bytes_def sent_ok_def)
qed

lemma glue_ok:
  assumes ok: "out_ok e c" and env: "env_ok e" and small: "reply_bytes c < 2 ^ 63"
    and ne: "reply c \<noteq> []" and can: "can_glue (reply c) len" and t: "len \<le> length s"
  shows "\<exists>c'. glue e c s len = Inr c' \<and> out_ok e c' \<and> out_bytes c' = out_bytes c @ take len s \<and>
    core c' = core c \<and> flags c' = flags c \<and> reply_bytes c' \<le> reply_bytes c + 2 ^ 48"
proof -
  define pre where "pre = butlast (reply c)"
  define o0 where "o0 = last (reply c)"
  have r: "reply c = pre @ [o0]" using ne by (simp add: pre_def o0_def)
  have objs: "list_all reply_obj pre" "reply_obj o0" using ok r by (simp_all add: out_ok_def)
  obtain t0 where t0: "optr o0 = PSds t0" "sds_ok t0" "obj_text o0 = sdsval t0" "sds_of o0 = Inr t0"
    using reply_objE [OF objs(2)] by metis
  have raw: "oenc o0 = OBJ_ENCODING_RAW" "sdslen t0 + len \<le> PROTO_REPLY_CHUNK_BYTES"
    using can t0(1) by (simp_all add: can_glue_def r)
  have used: "getStringObjectSdsUsedMemory e o0 = sdsZmallocSize e t0"
    using raw t0 by (simp add: getStringObjectSdsUsedMemory_def)
  have "\<exists>o1. dupLastObjectIfNeeded e (reply c) = Inr (pre @ [o1]) \<and> str_obj o1 \<and> obj_text o1 = obj_text o0 \<and>
      oenc o1 = OBJ_ENCODING_RAW"
    using dupStringObject_text [of o0 "lruclock e"] decrRefCount_str [of o0] objs(2) raw(1)
    by (auto simp: dupLastObjectIfNeeded_def r reply_obj_def Let_def)
  then obtain o1 where o1: "dupLastObjectIfNeeded e (reply c) = Inr (pre @ [o1])" "str_obj o1"
    "obj_text o1 = sdsval t0" "oenc o1 = OBJ_ENCODING_RAW" using t0(3) by auto
  from o1(2) obtain t1 where t1: "optr o1 = PSds t1" "sds_ok t1" "sdsval t1 = sdsval t0" "otype o1 = OBJ_STRING" "0 < refcount o1"
    using o1(3,4) by (cases rule: str_obj_cases) auto
  have "sdslen t1 = sdslen t0" using t1(2,3) t0(2) by (metis length_sdsval)
  then have "sdslen t1 + len < 2 ^ 63" using raw(2) by (simp add: PROTO_REPLY_CHUNK_BYTES_def)
  from sdscatlen_ok [OF t1(2) this t, of "junk e"] obtain t2 where
    t2: "sdscatlen (junk e) t1 s len = Inr t2" "sds_ok t2" "sdsval t2 = sdsval t0 @ take len s" using t1(3) by auto
  let ?o = "o1\<lparr>optr := PSds t2\<rparr>"
  have o2: "reply_obj ?o" "obj_text ?o = sdsval t0 @ take len s"
    "getStringObjectSdsUsedMemory e ?o = sdsZmallocSize e t2"
    using t1 t2 o1(4) by (simp_all add: reply_obj_def str_obj_def sdsEncodedObject_def obj_text_def getStringObjectSdsUsedMemory_def)
  have z: "sdsZmallocSize e t2 \<le> 2 ^ 48" using used_le [OF env, of ?o] o2(3) by simp
  have sum: "reply_bytes c = sum_list (map (getStringObjectSdsUsedMemory e) pre) + sdsZmallocSize e t0"
    using ok r used by (simp add: out_ok_def)
  let ?rb = "sum_list (map (getStringObjectSdsUsedMemory e) pre)"
  have b1: "u64_sub (reply_bytes c) (sdsZmallocSize e t0) = ?rb" using sum small by simp
  have b2: "u64_add ?rb (sdsZmallocSize e t2) = ?rb + sdsZmallocSize e t2" using sum small z by simp
  let ?c = "c\<lparr>reply := pre @ [?o], reply_bytes := ?rb + sdsZmallocSize e t2\<rparr>"
  have "glue e c s len = Inr ?c"
    using t0 t1 t2 o1(1) b1 b2 r by (simp add: glue_def Let_def sds_of_def)
  moreover have "out_ok e ?c"
    using ok r objs(1) o2 t0(3) by (cases pre) (auto simp: out_ok_def sent_ok_def)
  moreover have "out_bytes ?c = out_bytes c @ take len s" using r t0(3) o2(2) by (simp add: out_bytes_def)
  ultimately show ?thesis using sum z by auto
qed

lemma appends_close:
  assumes "CLIENT_CLOSE_AFTER_REPLY \<in> flags c" "out_ok e c"
  shows "appends e k t c c"
  using assms by (simp add: appends_def takes_replies_def)

text \<open>A client after a list function: \<open>t\<close> is queued and only the closing flag may be new.\<close>

lemma list_close_ok:
  assumes "out_ok e c1" "core c1 = core c" "flags c1 = flags c" "out_bytes c1 = out_bytes c @ t"
    and "reply_bytes c1 \<le> reply_bytes c + 2 ^ 48" "has_room 1 c" "CLIENT_CLOSE_AFTER_REPLY \<notin> flags c"
  shows "\<exists>c'. asyncCloseClientOnOutputBufferLimitReached e c1 = Inr c' \<and> out_ok e c' \<and> keeps c c' \<and>
    out_bytes c' = out_bytes c @ t \<and> reply_bytes c' \<le> reply_bytes c + 2 ^ 48"
proof -
  have "reply_bytes c1 < 2 ^ 63" using assms(5,6) by (simp add: has_room_def)
  from async_close_ok [OF this, of e] obtain c' where
    c': "asyncCloseClientOnOutputBufferLimitReached e c1 = Inr c'" "core c' = core c1" "reply c' = reply c1"
      "reply_bytes c' = reply_bytes c1" "bufpos c' = bufpos c1" "buf c' = buf c1"
      "flags c1 \<subseteq> flags c'" "flags c' \<subseteq> insert CLIENT_CLOSE_ASAP (flags c1)" by blast
  moreover have "keeps c c'" using c' assms(2,3) by (auto simp: keeps_def)
  ultimately show ?thesis using out_ok_same [OF c'(2-6) assms(1)] assms by auto
qed

lemma small_from_room: "has_room 1 c \<Longrightarrow> reply_bytes c < 2 ^ 63"
  by (simp add: has_room_def)

lemma addReplyObjectToList_ok:
  assumes "out_ok e c" "env_ok e" "has_room 1 c" "reply_obj o'" "CLIENT_CLOSE_AFTER_REPLY \<notin> flags c"
  shows "\<exists>c'. addReplyObjectToList e c o' = Inr c' \<and> out_ok e c' \<and> keeps c c' \<and>
    out_bytes c' = out_bytes c @ obj_text o' \<and> reply_bytes c' \<le> reply_bytes c + 2 ^ 48"
proof -
  obtain s where s: "sds_of o' = Inr s" "obj_text o' = take (sdslen s) (hdr_buf s)" "sdslen s \<le> length (hdr_buf s)"
    using reply_objE [OF assms(4)] by metis
  have i: "reply_obj (incrRefCount o')" "obj_text (incrRefCount o') = obj_text o'"
    using assms(4) by (auto simp: reply_obj_def str_obj_def sdsEncodedObject_def incrRefCount_def obj_text_def split: objptr.splits)
  note small = small_from_room [OF assms(3)]
  define r where "r = (if length (reply c) = 0 then Inr (push_reply e c (incrRefCount o'))
               else if can_glue (reply c) (sdslen s) then glue e c (hdr_buf s) (sdslen s)
               else Inr (push_reply e c (incrRefCount o')))"
  have "\<exists>c1. r = Inr c1 \<and> out_ok e c1 \<and> out_bytes c1 = out_bytes c @ obj_text o' \<and>
      core c1 = core c \<and> flags c1 = flags c \<and> reply_bytes c1 \<le> reply_bytes c + 2 ^ 48"
  proof (cases "reply c \<noteq> [] \<and> can_glue (reply c) (sdslen s)")
    case True
    then have "r = glue e c (hdr_buf s) (sdslen s)" by (simp add: r_def)
    with glue_ok [OF assms(1,2) small _ _ s(3)] True s(2) show ?thesis by simp
  next
    case False
    then have "r = Inr (push_reply e c (incrRefCount o'))" by (auto simp: r_def)
    moreover have "core (push_reply e c (incrRefCount o')) = core c" "flags (push_reply e c (incrRefCount o')) = flags c"
      by (simp_all add: push_reply_def)
    ultimately show ?thesis using push_reply_ok [OF assms(1) i(1) assms(2) small] i(2) by auto
  qed
  then obtain c1 where c1: "r = Inr c1" "out_ok e c1" "core c1 = core c" "flags c1 = flags c"
    "out_bytes c1 = out_bytes c @ obj_text o'" "reply_bytes c1 \<le> reply_bytes c + 2 ^ 48" by blast
  have "addReplyObjectToList e c o' = asyncCloseClientOnOutputBufferLimitReached e c1"
    using c1(1) assms(5) s(1) by (auto simp: addReplyObjectToList_def r_def split: if_splits)
  with list_close_ok [OF c1(2-6) assms(3,5)] show ?thesis by simp
qed

lemma addReplySdsToList_ok:
  assumes "out_ok e c" "env_ok e" "has_room 1 c" "sds_ok s" "CLIENT_CLOSE_AFTER_REPLY \<notin> flags c"
  shows "\<exists>c'. addReplySdsToList e c s = Inr c' \<and> out_ok e c' \<and> keeps c c' \<and>
    out_bytes c' = out_bytes c @ sdsval s \<and> reply_bytes c' \<le> reply_bytes c + 2 ^ 48"
proof -
  let ?o = "createObject (lruclock e) OBJ_STRING (PSds s)"
  have o': "reply_obj ?o" "obj_text ?o = sdsval s"
    using createObject_sds [OF assms(4), of "lruclock e"] by (simp_all add: reply_obj_def createObject_def sdsEncodedObject_def)
  have s: "sdsval s = take (sdslen s) (hdr_buf s)" "sdslen s \<le> length (hdr_buf s)"
    using take_bufI [OF assms(4)] sdslen_le_buf [OF assms(4)] by simp_all
  note small = small_from_room [OF assms(3)]
  define r where "r = (if length (reply c) = 0 then Inr (push_reply e c ?o)
               else if can_glue (reply c) (sdslen s) then glue e c (hdr_buf s) (sdslen s)
               else Inr (push_reply e c ?o))"
  have "\<exists>c1. r = Inr c1 \<and> out_ok e c1 \<and> out_bytes c1 = out_bytes c @ sdsval s \<and>
      core c1 = core c \<and> flags c1 = flags c \<and> reply_bytes c1 \<le> reply_bytes c + 2 ^ 48"
  proof (cases "reply c \<noteq> [] \<and> can_glue (reply c) (sdslen s)")
    case True
    then have "r = glue e c (hdr_buf s) (sdslen s)" by (simp add: r_def)
    with glue_ok [OF assms(1,2) small _ _ s(2)] True s(1) show ?thesis by simp
  next
    case False
    then have "r = Inr (push_reply e c ?o)" by (auto simp: r_def)
    moreover have "core (push_reply e c ?o) = core c" "flags (push_reply e c ?o) = flags c"
      by (simp_all add: push_reply_def)
    ultimately show ?thesis using push_reply_ok [OF assms(1) o'(1) assms(2) small] o'(2) by auto
  qed
  then obtain c1 where c1: "r = Inr c1" "out_ok e c1" "core c1 = core c" "flags c1 = flags c"
    "out_bytes c1 = out_bytes c @ sdsval s" "reply_bytes c1 \<le> reply_bytes c + 2 ^ 48" by blast
  have "addReplySdsToList e c s = asyncCloseClientOnOutputBufferLimitReached e c1"
    using c1(1) assms(5) by (auto simp: addReplySdsToList_def r_def split: if_splits)
  with list_close_ok [OF c1(2-6) assms(3,5)] show ?thesis by simp
qed

lemma addReplyStringToList_ok:
  assumes "out_ok e c" "env_ok e" "has_room 1 c" "len \<le> length s" "len < 2 ^ 64" "CLIENT_CLOSE_AFTER_REPLY \<notin> flags c"
  shows "\<exists>c'. addReplyStringToList e c s len = Inr c' \<and> out_ok e c' \<and> keeps c c' \<and>
    out_bytes c' = out_bytes c @ take len s \<and> reply_bytes c' \<le> reply_bytes c + 2 ^ 48"
proof -
  obtain o' where o': "createStringObject (lruclock e) (Some s) len = Inr o'" "str_obj o'" "obj_text o' = take len s"
    using createStringObject_ok [OF assms(5,4), of "lruclock e"] by blast
  have "sdsEncodedObject o'"
    using o'(1) by (auto simp: createStringObject_def createEmbeddedStringObject_def createRawStringObject_def
        createObject_def sdsEncodedObject_def split: if_splits)
  with o' have ro: "reply_obj o'" by (simp add: reply_obj_def)
  note small = small_from_room [OF assms(3)]
  define r where "r = (if length (reply c) = 0 then Inr (push_reply e c o')
               else if can_glue (reply c) len then glue e c s len
               else Inr (push_reply e c o'))"
  have "\<exists>c1. r = Inr c1 \<and> out_ok e c1 \<and> out_bytes c1 = out_bytes c @ take len s \<and>
      core c1 = core c \<and> flags c1 = flags c \<and> reply_bytes c1 \<le> reply_bytes c + 2 ^ 48"
  proof (cases "reply c \<noteq> [] \<and> can_glue (reply c) len")
    case True
    then have "r = glue e c s len" by (simp add: r_def)
    with glue_ok [OF assms(1,2) small _ _ assms(4)] True show ?thesis by simp
  next
    case False
    then have "r = Inr (push_reply e c o')" by (auto simp: r_def)
    moreover have "core (push_reply e c o') = core c" "flags (push_reply e c o') = flags c"
      by (simp_all add: push_reply_def)
    ultimately show ?thesis using push_reply_ok [OF assms(1) ro assms(2) small] o'(3) by auto
  qed
  then obtain c1 where c1: "r = Inr c1" "out_ok e c1" "core c1 = core c" "flags c1 = flags c"
    "out_bytes c1 = out_bytes c @ take len s" "reply_bytes c1 \<le> reply_bytes c + 2 ^ 48" by blast
  have "addReplyStringToList e c s len = asyncCloseClientOnOutputBufferLimitReached e c1"
    using c1(1) assms(6) o'(1) by (auto simp: addReplyStringToList_def r_def split: if_splits)
  with list_close_ok [OF c1(2-6) assms(3,6)] show ?thesis by simp
qed

subsection \<open>The public functions\<close>

text \<open>
  What all of them share: preparing the client, trying the buffer, falling back to the list, where
  \<open>fallback\<close> is a list function that queues \<open>t\<close>.
\<close>

lemma queue_ok:
  assumes ok: "out_ok e c0" and room: "has_room 1 c0" and t: "len \<le> length s"
    and prep: "prepareClientToWrite c0 = (True, c)"
    and fb: "\<And>c. out_ok e c \<Longrightarrow> has_room 1 c \<Longrightarrow> CLIENT_CLOSE_AFTER_REPLY \<notin> flags c \<Longrightarrow>
      \<exists>c'. fallback c = Inr c' \<and> out_ok e c' \<and> keeps c c' \<and> out_bytes c' = out_bytes c @ take len s \<and>
        reply_bytes c' \<le> reply_bytes c + 2 ^ 48"
  shows "\<exists>c'. rbind (addReplyToBuffer c s len) (\<lambda>(done, c1). if done then Inr c1 else fallback c1) = Inr c' \<and>
    appends e 1 (take len s) c0 c'"
proof -
  note p = prepare_ok [OF prep]
  have c: "out_ok e c" "out_bytes c = out_bytes c0" using p(1) out_ok_same ok by blast+
  have k: "keeps c0 c" using p(1) by (auto simp: keeps_def)
  have tk: "takes_replies c0 \<longleftrightarrow> CLIENT_CLOSE_AFTER_REPLY \<notin> flags c" using p(2) k by (simp add: keeps_flag)
  obtain r c1 where b: "addReplyToBuffer c s len = Inr (r, c1)" "core c1 = core c" "flags c1 = flags c"
    "reply_bytes c1 = reply_bytes c"
    "if r then out_ok e c1 \<and> out_bytes c1 = out_bytes c @ (if CLIENT_CLOSE_AFTER_REPLY \<in> flags c then [] else take len s)
     else c1 = c \<and> CLIENT_CLOSE_AFTER_REPLY \<notin> flags c"
    using addReplyToBuffer_ok [OF c(1) t] by blast
  show ?thesis
  proof (cases r)
    case True
    moreover have "keeps c0 c1" using b k by (auto simp: keeps_def)
    ultimately show ?thesis using b c tk p(1) by (auto simp: appends_def)
  next
    case False
    then have nc: "CLIENT_CLOSE_AFTER_REPLY \<notin> flags c" "c1 = c" using b(5) by auto
    have "has_room 1 c" using room p(1) by (simp add: has_room_def)
    from fb [OF c(1) this nc(1)] obtain c' where c': "fallback c = Inr c'" "out_ok e c'" "keeps c c'"
      "out_bytes c' = out_bytes c @ take len s" "reply_bytes c' \<le> reply_bytes c + 2 ^ 48" by blast
    then have "appends e 1 (take len s) c0 c'" using c tk nc p(1) keeps_trans [OF k] by (auto simp: appends_def)
    with False b(1) nc c'(1) show ?thesis by simp
  qed
qed

lemma not_prepared:
  assumes "out_ok e c0" "prepareClientToWrite c0 = (False, c)"
  shows "appends e k t c0 c"
proof -
  note p = prepare_ok [OF assms(2)]
  then show ?thesis using out_ok_same [of c c0 e] assms(1) by (auto simp: appends_def keeps_def)
qed

lemma addReplyString_ok:
  assumes "out_ok e c" "env_ok e" "has_room 1 c" "len \<le> length s" "len < 2 ^ 64"
  shows "\<exists>c'. addReplyString e c s len = Inr c' \<and> appends e 1 (take len s) c c'"
proof -
  obtain ok c1 where p: "prepareClientToWrite c = (ok, c1)" by fastforce
  show ?thesis
  proof (cases ok)
    case True
    then show ?thesis
      using queue_ok [OF assms(1,3,4), of c1 "\<lambda>c. addReplyStringToList e c s len"]
        addReplyStringToList_ok [OF _ assms(2) _ assms(4,5)] p by (simp add: addReplyString_def)
  next
    case False
    then show ?thesis using p not_prepared [OF assms(1)] by (simp add: addReplyString_def)
  qed
qed

lemma addReplySds_ok:
  assumes "out_ok e c" "env_ok e" "has_room 1 c" "sds_ok s"
  shows "\<exists>c'. addReplySds e c s = Inr c' \<and> appends e 1 (sdsval s) c c'"
proof -
  obtain ok c1 where p: "prepareClientToWrite c = (ok, c1)" by fastforce
  have s: "take (sdslen s) (hdr_buf s) = sdsval s" "sdslen s \<le> length (hdr_buf s)"
    using take_bufI [OF assms(4)] sdslen_le_buf [OF assms(4)] by simp_all
  show ?thesis
  proof (cases ok)
    case True
    then show ?thesis
      using queue_ok [OF assms(1,3) s(2), of c1 "\<lambda>c. addReplySdsToList e c s"]
        addReplySdsToList_ok [OF _ assms(2) _ assms(4)] p by (simp add: addReplySds_def s(1))
  next
    case False
    then show ?thesis using p not_prepared [OF assms(1)] by (simp add: addReplySds_def)
  qed
qed

lemma addReplyEncoded_ok:
  assumes "out_ok e c0" "env_ok e" "has_room 1 c0" "reply_obj o'" "prepareClientToWrite c0 = (True, c)"
  shows "\<exists>c'. addReplyEncoded e c o' = Inr c' \<and> appends e 1 (obj_text o') c0 c'"
proof -
  obtain s where s: "sds_of o' = Inr s" "take (sdslen s) (hdr_buf s) = obj_text o'" "sdslen s \<le> length (hdr_buf s)"
    using reply_objE [OF assms(4)] by metis
  have sw: "(\<lambda>(ok, c1). if \<not> ok then addReplyObjectToList e c1 o' else Inr c1) =
      (\<lambda>(done, c1). if done then Inr c1 else addReplyObjectToList e c1 o')" by auto
  show ?thesis
    using queue_ok [OF assms(1,3) s(3) assms(5), of "\<lambda>c. addReplyObjectToList e c o'"]
      addReplyObjectToList_ok [OF _ assms(2) _ assms(4)] s(1,2) by (simp add: addReplyEncoded_def sw)
qed

lemma addReply_ok:
  assumes "out_ok e c" "env_ok e" "has_room 1 c" "str_obj o'"
  shows "\<exists>c'. addReply e c o' = Inr c' \<and> appends e 1 (obj_text o') c c'"
proof -
  obtain ok c1 where p: "prepareClientToWrite c = (ok, c1)" by fastforce
  show ?thesis
  proof (cases ok)
    case False
    then show ?thesis using p not_prepared [OF assms(1)] by (simp add: addReply_def)
  next
    case True
    with p have p': "prepareClientToWrite c = (True, c1)" by simp
    note enc = addReplyEncoded_ok [OF assms(1-3) _ p']
    show ?thesis
    proof (cases "sdsEncodedObject o'")
      case t: True
      then show ?thesis using enc [of o'] assms(4) p True by (simp add: addReply_def reply_obj_def)
    next
      case nt: False
      with assms(4) obtain n where n: "optr o' = PInt n" "in_int64 n" "oenc o' = OBJ_ENCODING_INT" "obj_text o' = deci n"
        by (cases rule: str_obj_cases) auto
      obtain d where d: "getDecodedObject (junk e) (lruclock e) o' = Inr d" "str_obj d" "obj_text d = obj_text o'" "sdsEncodedObject d"
        using getDecodedObject_text [OF assms(4)] by blast
      obtain r where r: "decrRefCount d = Inr r" using decrRefCount_str [OF d(2)] by blast
      obtain c2 where slow: "addReplyEncoded e c1 d = Inr c2" "appends e 1 (obj_text o') c c2"
        using enc [of d] d by (auto simp: reply_obj_def)
      show ?thesis
      proof (cases "length (reply c1) = 0 \<and> PROTO_REPLY_CHUNK_BYTES - bufpos c1 \<ge> 32")
        case False
        then show ?thesis using p True nt n(3) d(1) slow r unfolding addReply_def Let_def by auto
      next
        case fast: True
        define b where "b = deci n @ NUL # drop (Suc (length (deci n))) (mem_resize (junk e) 32 [])"
        have ll: "ll2string (mem_resize (junk e) 32 []) 32 n = Inr (length (deci n), b)"
          unfolding b_def using ll2string_buffer n(2) by simp
        have q: "\<exists>c'. rbind (addReplyToBuffer c1 b (length (deci n)))
            (\<lambda>(done, c3). if done then Inr c3 else addReplyStringToList e c3 b (length (deci n))) = Inr c' \<and>
            appends e 1 (take (length (deci n)) b) c c'"
          using queue_ok [OF assms(1,3) _ p', of "length (deci n)" b "\<lambda>c. addReplyStringToList e c b (length (deci n))"]
            addReplyStringToList_ok [OF _ assms(2), of _ "length (deci n)" b] length_deci_int64 [OF n(2)]
          by (simp add: b_def)
        obtain rr c3 where b3: "addReplyToBuffer c1 b (length (deci n)) = Inr (rr, c3)"
          using addReplyToBuffer_ok [of e c1 "length (deci n)" b] out_ok_same [of c1 c e] prepare_ok(1) [OF p] assms(1)
          by (auto simp: b_def)
        show ?thesis
        proof (cases rr)
          case tr: True
          have "take (length (deci n)) b = obj_text o'" using n(4) by (simp add: b_def)
          with q [unfolded b3 rbind_simps prod.case] tr have "appends e 1 (obj_text o') c c3" by simp
          then show ?thesis using p True nt n fast ll b3 tr by (simp add: addReply_def Let_def long_of_def)
        next
          case False
          then show ?thesis using p True nt n fast ll b3 d(1) slow r by (simp add: addReply_def Let_def long_of_def)
        qed
      qed
    qed
  qed
qed

subsection \<open>Protocol texts\<close>

definition bulk_text :: "string \<Rightarrow> string" where
  "bulk_text t = CHR ''$'' # dec (length t) @ crlf @ t @ crlf"

lemma appends_bind:
  assumes "\<exists>c1. m = Inr c1 \<and> appends e k t c c1"
    and "\<And>c1. appends e k t c c1 \<Longrightarrow> \<exists>c2. f c1 = Inr c2 \<and> appends e l u c1 c2"
  shows "\<exists>c2. rbind m f = Inr c2 \<and> appends e (k + l) (t @ u) c c2"
  using assms appends_trans by fastforce

lemma appends_out_ok: "appends e k t c c' \<Longrightarrow> out_ok e c'"
  by (simp add: appends_def)

lemma addReplyErrorLength_ok:
  assumes "out_ok e c" "env_ok e" "has_room 3 c" "len \<le> length s" "len < 2 ^ 64"
  shows "\<exists>c'. addReplyErrorLength e c s len = Inr c' \<and> appends e 3 (''-ERR '' @ take len s @ crlf) c c'"
proof -
  have r: "has_room (1 + (1 + 1)) c" using assms(3) by (simp add: numeral_3_eq_3)
  have "\<exists>c'. addReplyErrorLength e c s len = Inr c' \<and>
      appends e (1 + (1 + 1)) (take 5 ''-ERR '' @ take len s @ take 2 crlf) c c'"
    unfolding addReplyErrorLength_def
  proof (intro appends_bind)
    show "\<exists>c1. addReplyString e c ''-ERR '' 5 = Inr c1 \<and> appends e 1 (take 5 ''-ERR '') c c1"
      using assms(1,2) has_room_le [OF assms(3)] by (intro addReplyString_ok) auto
  next
    fix c1 assume c1: "appends e 1 (take 5 ''-ERR '') c c1"
    then show "\<exists>c2. addReplyString e c1 s len = Inr c2 \<and> appends e 1 (take len s) c1 c2"
      using assms has_room_step [OF c1 r] has_room_le appends_out_ok by (intro addReplyString_ok) auto
  next
    fix c1 c2 assume c1: "appends e 1 (take 5 ''-ERR '') c c1" and c2: "appends e 1 (take len s) c1 c2"
    then show "\<exists>c3. addReplyString e c2 crlf 2 = Inr c3 \<and> appends e 1 (take 2 crlf) c2 c3"
      using assms(2) has_room_step [OF c2 has_room_step [OF c1 r]] appends_out_ok
      by (intro addReplyString_ok) (auto simp: crlf_def)
  qed
  then show ?thesis by (simp add: crlf_def numeral_3_eq_3)
qed

lemma addReplyError_ok:
  assumes "out_ok e c" "env_ok e" "has_room 3 c" "length err < 2 ^ 64"
  shows "\<exists>c'. addReplyError e c err = Inr c' \<and> appends e 3 (''-ERR '' @ err @ crlf) c c'"
  using addReplyErrorLength_ok [OF assms(1-3) le_refl assms(4)] by (simp add: addReplyError_def)

lemma addReplyShared_ok:
  assumes "out_ok e c" "env_ok e" "has_room 1 c" "is_cstring t" "length t < 2 ^ 64"
  shows "\<exists>c'. addReplyShared e c t = Inr c' \<and> appends e 1 t c c'"
proof -
  obtain s where s: "sdsnew (Some t) = Inr s" "sds_ok s" "sdsval s = t"
    using sdsnew_ok [OF assms(5)] assms(4) by (auto simp: cstr_id)
  let ?o = "createObject (lruclock e) OBJ_STRING (PSds s)"
  have "str_obj ?o" "obj_text ?o = t" using createObject_sds [OF s(2)] s(3) by auto
  then show ?thesis using addReply_ok [OF assms(1-3), of ?o] s(1) by (simp add: addReplyShared_def shared_obj_def)
qed

lemma is_cstring_crlf [simp]: "is_cstring crlf"
  by (simp add: crlf_def)

lemma length_crlf [simp]: "length crlf = 2"
  by (simp add: crlf_def)

lemma addReplyLongLongWithPrefix_ok:
  assumes "out_ok e c" "env_ok e" "has_room 1 c" "in_int64 ll" "pre \<noteq> NUL"
  shows "\<exists>c'. addReplyLongLongWithPrefix e c ll pre = Inr c' \<and> appends e 1 (pre # deci ll @ crlf) c c'"
proof -
  have l: "length (deci ll) \<le> 20" using length_deci_int64 [OF assms(4)] .
  show ?thesis
  proof (cases "(pre = CHR ''*'' \<or> pre = CHR ''$'') \<and> ll < OBJ_SHARED_BULKHDR_LEN \<and> ll \<ge> 0")
    case True
    then show ?thesis
      using addReplyShared_ok [OF assms(1-3), of "pre # deci ll @ crlf"] assms(5) l
      by (simp add: addReplyLongLongWithPrefix_def)
  next
    case False
    let ?n = "length (deci ll)"
    obtain x0 m where m: "mem_resize (junk e) 128 [] = x0 # m"
      by (metis length_mem_resize list.size(3) neq_Nil_conv zero_neq_numeral)
    then have w: "wr (mem_resize (junk e) 128 []) 0 pre = Inr (pre # m)" by (simp add: wr_def)
    have lm: "length m = 127" using arg_cong [OF m, of length] by simp
    have ll: "ll2string m 127 ll = Inr (?n, deci ll @ NUL # drop (Suc ?n) m)"
      using assms(4) lm l by (intro ll2string_fits) auto
    define r where "r = drop (Suc ?n) m"
    have lr: "length r = 126 - ?n" using lm by (simp add: r_def)
    then obtain x r' where r: "r = x # r'" using l by (cases r) auto
    let ?b = "pre # deci ll @ NUL # x # r'"
    have w1: "wr ?b (?n + 1) CR = Inr (pre # deci ll @ CR # x # r')"
      by (simp add: wr_def list_update_append)
    have w2: "wr (pre # deci ll @ CR # x # r') (?n + 2) LF = Inr (pre # deci ll @ CR # LF # r')"
      by (simp add: wr_def list_update_append)
    have "addReplyLongLongWithPrefix e c ll pre = addReplyString e c (pre # deci ll @ CR # LF # r') (?n + 3)"
      unfolding addReplyLongLongWithPrefix_def if_not_P [OF False] using w ll w1 w2 r by (simp add: r_def)
    moreover have "take (?n + 3) (pre # deci ll @ CR # LF # r') = pre # deci ll @ crlf"
      by (simp add: crlf_def numeral_3_eq_3)
    ultimately show ?thesis
      using addReplyString_ok [OF assms(1-3), of "?n + 3" "pre # deci ll @ CR # LF # r'"] l by simp
  qed
qed

lemma radix_len_eq: "Suc (radix_len n) = length (dec n)"
proof (induction n rule: radix_len.induct)
  case (1 n)
  show ?case
  proof (cases "n < 10")
    case True
    then show ?thesis by (simp add: radix_len.simps [of n] dec.simps [of n])
  next
    case False
    then have "n div 10 \<noteq> 0" by (simp add: div_eq_0_iff)
    with 1 False show ?thesis by (simp add: radix_len.simps [of n] dec.simps [of n])
  qed
qed

lemma addReplyBulkLen_ok:
  assumes "out_ok e c" "env_ok e" "has_room 1 c" "str_obj o'" "optr o' \<noteq> PInt (- (2 ^ 63))"
    "length (obj_text o') < 2 ^ 63"
  shows "\<exists>c'. addReplyBulkLen e c o' = Inr c' \<and> appends e 1 (CHR ''$'' # dec (length (obj_text o')) @ crlf) c c'"
proof -
  let ?l = "length (obj_text o')"
  have len: "(if sdsEncodedObject o' then rbind (sds_of o') (\<lambda>s. Inr (sdslen s))
      else rbind (long_of o') (\<lambda>n. if n < 0 then rbind (ck_int64 (- n)) (\<lambda>m. Inr (2 + radix_len (nat m)))
             else Inr (1 + radix_len (nat n)))) = Inr ?l"
    using assms(4)
  proof (cases rule: str_obj_cases)
    case (raw s)
    then show ?thesis by (simp add: sds_of_def)
  next
    case (num n)
    then have "n \<noteq> - (2 ^ 63)" using assms(5) by simp
    then have "n < 0 \<Longrightarrow> ck_int64 (- n) = Inr (- n)" using num(2) by (simp add: ck_int64_def in_int64_def)
    then show ?thesis using num radix_len_eq by (simp add: long_of_def deci_def)
  qed
  have d: "deci (int ?l) = dec ?l" by (simp add: deci_def)
  have s: "length (CHR ''$'' # dec ?l @ crlf) < 2 ^ 64"
    using length_dec_le [of 19 ?l] assms(6) by simp
  show ?thesis
  proof (cases "int ?l < OBJ_SHARED_BULKHDR_LEN")
    case True
    then show ?thesis
      using addReplyShared_ok [OF assms(1-3) _ s] unfolding addReplyBulkLen_def len by (simp add: d)
  next
    case False
    then show ?thesis
      using addReplyLongLongWithPrefix_ok [OF assms(1-3), of "int ?l" "CHR ''$''"] assms(6)
      unfolding addReplyBulkLen_def len by (simp add: d in_int64_def)
  qed
qed

lemma addReplyBulk_ok:
  assumes "out_ok e c" "env_ok e" "has_room 3 c" "str_obj o'" "optr o' \<noteq> PInt (- (2 ^ 63))"
    "length (obj_text o') < 2 ^ 63"
  shows "\<exists>c'. addReplyBulk e c o' = Inr c' \<and> appends e 3 (bulk_text (obj_text o')) c c'"
proof -
  let ?h = "CHR ''$'' # dec (length (obj_text o')) @ crlf"
  have r: "has_room (1 + (1 + 1)) c" using assms(3) by (simp add: numeral_3_eq_3)
  have "\<exists>c'. addReplyBulk e c o' = Inr c' \<and> appends e (1 + (1 + 1)) (?h @ obj_text o' @ crlf) c c'"
    unfolding addReplyBulk_def
  proof (intro appends_bind)
    show "\<exists>c1. addReplyBulkLen e c o' = Inr c1 \<and> appends e 1 ?h c c1"
      using assms has_room_le by (intro addReplyBulkLen_ok) auto
  next
    fix c1 assume c1: "appends e 1 ?h c c1"
    then show "\<exists>c2. addReply e c1 o' = Inr c2 \<and> appends e 1 (obj_text o') c1 c2"
      using assms has_room_step [OF c1 r] has_room_le appends_out_ok by (intro addReply_ok) auto
  next
    fix c1 c2 assume c1: "appends e 1 ?h c c1" and c2: "appends e 1 (obj_text o') c1 c2"
    then show "\<exists>c3. addReplyShared e c2 crlf = Inr c3 \<and> appends e 1 crlf c2 c3"
      using assms(2) has_room_step [OF c2 has_room_step [OF c1 r]] appends_out_ok
      by (intro addReplyShared_ok) auto
  qed
  then show ?thesis by (simp add: bulk_text_def numeral_3_eq_3)
qed

lemma addReplyLongLong_ok:
  assumes "out_ok e c" "env_ok e" "has_room 1 c" "in_int64 ll"
  shows "\<exists>c'. addReplyLongLong e c ll = Inr c' \<and> appends e 1 (CHR '':'' # deci ll @ crlf) c c'"
proof -
  have d: "deci 0 = ''0''" "deci 1 = ''1''" by (simp_all add: deci_def dec.simps digit_char_literals)
  show ?thesis
    using addReplyShared_ok [OF assms(1-3)] addReplyLongLongWithPrefix_ok [OF assms, of "CHR '':''"] d
    by (simp add: addReplyLongLong_def)
qed

subsection \<open>Writing\<close>

lemma head_empty_ok:
  assumes "out_ok e c" "head_empty c" "reply_bytes c < 2 ^ 64"
  shows "out_ok e (drop_empty e c) \<and> to_send (drop_empty e c) = to_send c \<and>
    reply_bytes (drop_empty e c) \<le> reply_bytes c \<and> flags (drop_empty e c) = flags c"
proof -
  obtain o' rest where r: "reply c = o' # rest" using assms(2) by (cases "reply c") (auto simp: head_empty_def)
  have "reply_obj o'" using assms(1) r by (simp add: out_ok_def)
  then obtain s where s: "optr o' = PSds s" "sds_ok s" "obj_text o' = sdsval s" by (rule reply_objE)
  have "sdslen s = 0" using assms(2) r s(1) by (simp add: head_empty_def)
  then have t: "obj_text o' = []" using s(2,3) by (metis length_0_conv length_sdsval)
  have z: "bufpos c = 0" using assms(2) by (simp add: head_empty_def)
  have sl: "sentlen c = 0" using assms(1) r t z by (simp add: out_ok_def sent_ok_def)
  show ?thesis using assms(1,3) r t z sl by (simp add: out_ok_def sent_ok_def drop_empty_def to_send_def out_bytes_def)
qed

lemma drop_split: "drop a xs = take n (drop a xs) @ drop (a + n) xs"
  by (metis add.commute append_take_drop_id drop_drop)

lemma take_drop_take: "a + n \<le> b \<Longrightarrow> take n (drop a (take b xs)) = take n (drop a xs)"
  by (simp add: drop_take min_def)

lemma write_step_ok:
  assumes ok: "out_ok e c" and pend: "clientHasPendingReplies c" "\<not> head_empty c" and small: "reply_bytes c < 2 ^ 64"
  shows "if wn \<le> 0 then write_step e c wn = Inr None
    else \<exists>t c1. write_step e c wn = Inr (Some (t, c1)) \<and> t \<noteq> [] \<and> out_ok e c1 \<and> t @ to_send c1 = to_send c \<and>
      reply_bytes c1 \<le> reply_bytes c \<and> flags c1 = flags c"
proof (cases "bufpos c > 0")
  case True
  have sl: "sentlen c < bufpos c" "bufpos c \<le> length (buf c)" using ok True by (auto simp: out_ok_def sent_ok_def)
  define n where "n = min (nat wn) (bufpos c - sentlen c)"
  let ?sl = "sentlen c + n" and ?t = "take n (drop (sentlen c) (buf c))"
  let ?c = "if ?sl = bufpos c then c\<lparr>bufpos := 0, sentlen := 0\<rparr> else c\<lparr>sentlen := ?sl\<rparr>"
  have n: "?sl \<le> bufpos c" using sl by (simp add: n_def)
  have npos: "0 < n" if "\<not> wn \<le> 0" using that sl by (simp add: n_def)
  have "write_step e c wn = (if wn \<le> 0 then Inr None else Inr (Some (?t, ?c)))"
    using True n sl by (simp add: write_step_def rd_bytes_def Let_def flip: n_def)
  moreover have "out_ok e ?c" if "\<not> wn \<le> 0"
    using ok True n npos [OF that] by (auto simp: out_ok_def sent_ok_def)
  moreover have "?t @ to_send ?c = to_send c"
  proof -
    have "drop (sentlen c) (take (bufpos c) (buf c)) = ?t @ drop ?sl (take (bufpos c) (buf c))"
      using drop_split [of "sentlen c" "take (bufpos c) (buf c)" n] take_drop_take [OF n, of "buf c"] by simp
    then show ?thesis using n sl True
      by (auto simp: to_send_def out_bytes_def)
  qed
  ultimately show ?thesis using npos sl by auto
next
  case False
  then obtain o' rest where r: "reply c = o' # rest" using pend(1) by (cases "reply c") (auto simp: clientHasPendingReplies_def)
  have ob: "reply_obj o'" "list_all reply_obj rest" using ok r by (simp_all add: out_ok_def)
  obtain s where s: "optr o' = PSds s" "sds_ok s" "obj_text o' = sdsval s" "sds_of o' = Inr s"
    "take (sdslen s) (hdr_buf s) = sdsval s" "sdslen s \<le> length (hdr_buf s)" using reply_objE [OF ob(1)] by metis
  have "sdslen s \<noteq> 0" using pend(2) False r s(1) by (simp add: head_empty_def)
  then have sl: "sentlen c < sdslen s" using ok False r s(2,3) by (auto simp: out_ok_def sent_ok_def)
  define n where "n = min (nat wn) (sdslen s - sentlen c)"
  let ?u = "getStringObjectSdsUsedMemory e o'"
  let ?sl = "sentlen c + n" and ?t = "take n (drop (sentlen c) (hdr_buf s))"
  let ?c = "if ?sl = sdslen s then c\<lparr>reply := rest, sentlen := 0, reply_bytes := reply_bytes c - ?u\<rparr> else c\<lparr>sentlen := ?sl\<rparr>"
  have n: "?sl \<le> sdslen s" using sl by (simp add: n_def)
  have npos: "0 < n" if "\<not> wn \<le> 0" using that sl by (simp add: n_def)
  have u: "u64_sub (reply_bytes c) ?u = reply_bytes c - ?u" using ok r small by (simp add: out_ok_def)
  have "write_step e c wn = (if wn \<le> 0 then Inr None else Inr (Some (?t, ?c)))"
    using False n sl r s(4,6) u by (simp add: write_step_def rd_bytes_def Let_def flip: n_def)
  moreover have "out_ok e ?c" if "\<not> wn \<le> 0"
    using ok False n npos [OF that] r s(2,3) by (auto simp: out_ok_def sent_ok_def)
  moreover have "?t @ to_send ?c = to_send c"
  proof -
    have "?t = take n (drop (sentlen c) (sdsval s))" using take_drop_take [OF n, of "hdr_buf s"] s(5) by simp
    then have "drop (sentlen c) (sdsval s) = ?t @ drop ?sl (sdsval s)"
      using drop_split [of "sentlen c" "sdsval s" n] by simp
    then show ?thesis using n sl False r s(2,3) by (auto simp: to_send_def out_bytes_def)
  qed
  ultimately show ?thesis using npos sl s(6) by auto
qed

lemma write_loop_ok:
  assumes "out_ok e c" "reply_bytes c < 2 ^ 64"
  shows "\<exists>t c' n. write_loop e relaxed c script sent = Inr (sent @ t, c', n) \<and> out_ok e c' \<and>
    t @ to_send c' = to_send c \<and> flags c' = flags c \<and>
    (relaxed \<and> (\<forall>wn \<in> set script. 0 < wn) \<and> length (to_send c) \<le> length script \<longrightarrow> \<not> clientHasPendingReplies c' \<and> n = 0)"
  using assms
proof (induction e relaxed c script sent rule: write_loop.induct)
  case (1 e relaxed c script sent)
  consider (idle) "\<not> clientHasPendingReplies c" | (empty) "clientHasPendingReplies c" "head_empty c"
    | (stop) "clientHasPendingReplies c" "\<not> head_empty c" "script = []"
    | (fail) wn script' where "clientHasPendingReplies c" "\<not> head_empty c" "script = wn # script'" "wn \<le> 0"
    | (go) wn script' where "clientHasPendingReplies c" "\<not> head_empty c" "script = wn # script'" "\<not> wn \<le> 0"
    by (cases script) auto
  then show ?case
  proof cases
    case idle
    then show ?thesis using "1.prems" by (subst write_loop.simps) auto
  next
    case empty
    have h: "out_ok e (drop_empty e c)" "to_send (drop_empty e c) = to_send c" "reply_bytes (drop_empty e c) < 2 ^ 64"
      "flags (drop_empty e c) = flags c"
      using head_empty_ok [OF "1.prems"(1) empty(2) "1.prems"(2)] "1.prems"(2) by auto
    then show ?thesis
      using "1.IH"(1) [OF _ empty(2) h(1,3)] empty by (subst write_loop.simps) simp
  next
    case stop
    have "0 < length (to_send c)"
      using write_step_ok [OF "1.prems"(1) stop(1,2) "1.prems"(2), of 1] by fastforce
    then show ?thesis using stop "1.prems" by (subst write_loop.simps) auto
  next
    case fail
    then show ?thesis using write_step_ok [OF "1.prems"(1) fail(1,2) "1.prems"(2), of wn] "1.prems"
      by (subst write_loop.simps) auto
  next
    case go
    then obtain t c1 where w: "write_step e c wn = Inr (Some (t, c1))" "t \<noteq> []" "out_ok e c1" "t @ to_send c1 = to_send c"
      "reply_bytes c1 < 2 ^ 64" "flags c1 = flags c"
      using write_step_ok [OF "1.prems"(1) go(1,2) "1.prems"(2), of wn] "1.prems"(2) by auto
    have len: "length (to_send c) = length t + length (to_send c1)" using w(4) by (metis length_append)
    have "0 < length t" using w(2) by simp
    show ?thesis
    proof (cases "length (sent @ t) > NET_MAX_WRITES_PER_EVENT \<and> \<not> relaxed")
      case True
      then have "write_loop e relaxed c script sent = Inr (sent @ t, c1, wn)"
        using go w(1) by (subst write_loop.simps) simp
      then show ?thesis using w True by auto
    next
      case False
      then have eq: "write_loop e relaxed c script sent = write_loop e relaxed c1 script' (sent @ t)"
        using go w(1) by (subst write_loop.simps) auto
      from "1.IH"(2) [OF _ _ go(3) w(1) refl refl False w(3,5)] go obtain t' c' n where
        "write_loop e relaxed c1 script' (sent @ t) = Inr ((sent @ t) @ t', c', n)" "out_ok e c'"
        "t' @ to_send c' = to_send c1" "flags c' = flags c1"
        "relaxed \<and> (\<forall>wn \<in> set script'. 0 < wn) \<and> length (to_send c1) \<le> length script' \<longrightarrow>
          \<not> clientHasPendingReplies c' \<and> n = 0" by auto
      moreover have "length (to_send c1) \<le> length script'" if "length (to_send c) \<le> length script"
        using that len \<open>0 < length t\<close> unfolding go(3) list.size by linarith
      ultimately show ?thesis using eq w go(3) by (intro exI [of _ "t @ t'"] exI [of _ c'] exI [of _ n]) auto
    qed
  qed
qed

section \<open>Properties\<close>

text \<open>
  C8. Queueing a string object as a bulk reply, whatever its encoding and whatever part of it
  goes to the fixed buffer or the list, appends exactly its protocol text behind what is already pending,
  keeps the buffers and the byte count consistent, and touches nothing else of the client; a client that
  takes no replies gets nothing.
\<close>

theorem addReplyBulk_emits:
  assumes "out_ok e c" "env_ok e" "has_room 3 c" "str_obj o'" "optr o' \<noteq> PInt (- (2 ^ 63))"
    "length (obj_text o') < 2 ^ 63"
  shows "\<exists>c'. addReplyBulk e c o' = Inr c' \<and> out_ok e c' \<and> keeps c c' \<and>
    out_bytes c' = out_bytes c @ (if takes_replies c then bulk_text (obj_text o') else [])"
  using addReplyBulk_ok [OF assms] by (auto simp: appends_def)

definition demo_env :: env where
  "demo_env = \<lparr>junk = (\<lambda>_. CHR ''z''), usable = (\<lambda>n. min n 4096), lruclock = 0, unixtime = 0,
     hard_limit_bytes = (\<lambda>_. 0), soft_limit_bytes = (\<lambda>_. 0), soft_limit_seconds = (\<lambda>_. 0)\<rparr>"

definition demo_client :: "sds \<Rightarrow> client" where
  "demo_client s = \<lparr>fd = 7, querybuf = s, argv = [], reqtype = 0, multibulklen = 0, bulklen = -1, reply = [],
     reply_bytes = 0, sentlen = 0, lastinteraction = 0, obuf_soft_limit_reached_time = 0, flags = {},
     authenticated = False, replstate = 0, repl_put_online_on_ack = False, repl_ack_time = 0, reploff = 0,
     bufpos = 0, buf = replicate PROTO_REPLY_CHUNK_BYTES NUL, http_querybuf = s,
     command_last_error = None, command_last_reply = None, pending_write_listed = 0, to_close_listed = 0\<rparr>"

lemma demo_ok:
  "env_ok demo_env" "out_ok demo_env (demo_client s)" "has_room 3 (demo_client s)" "takes_replies (demo_client s)"
  "out_bytes (demo_client s) = []" "reply_bytes (demo_client s) = 0"
  by (simp_all add: env_ok_def demo_env_def out_ok_def demo_client_def has_room_def takes_replies_def out_bytes_def
      sent_ok_def min.coboundedI2)

theorem addReplyBulk_emits_witness:
  "\<exists>s o' c'. sdsempty = Inr s \<and> createStringObject 0 (Some ''hi'') 2 = Inr o' \<and>
    addReplyBulk demo_env (demo_client s) o' = Inr c' \<and> out_bytes c' = ''$2'' @ crlf @ ''hi'' @ crlf"
proof -
  obtain s where s: "sdsempty = Inr s" using sdsempty_ok by blast
  obtain o' where o': "createStringObject 0 (Some ''hi'') 2 = Inr o'" "str_obj o'" "obj_text o' = ''hi''"
    using createStringObject_ok [of 2 "''hi''" 0] by auto
  then have "optr o' \<noteq> PInt (- (2 ^ 63))"
    by (auto simp: createStringObject_def createEmbeddedStringObject_def OBJ_ENCODING_EMBSTR_SIZE_LIMIT_def)
  from addReplyBulk_emits [OF demo_ok(2,1,3) o'(2) this, of s] o'(3) obtain c' where
    "addReplyBulk demo_env (demo_client s) o' = Inr c'" "out_bytes c' = bulk_text ''hi''" by (auto simp: demo_ok)
  moreover have "bulk_text ''hi'' = ''$2'' @ crlf @ ''hi'' @ crlf" by (simp add: bulk_text_def dec.simps digit_char_literals)
  ultimately show ?thesis using s o'(1) by metis
qed

text \<open>
  C3. Whatever the socket accepts in each call of \<open>write\<close>, the bytes sent followed by those
  still pending are the bytes that were pending before: nothing is lost, repeated or reordered across the
  buffer and the list, and the client structure stays consistent.
\<close>

theorem writeToClient_in_order:
  assumes "out_ok e c" "reply_bytes c < 2 ^ 64"
  shows "\<exists>sent r. writeToClient e relaxed eagain c script = Inr (sent, r) \<and> prefix sent (to_send c) \<and>
    (case r of None \<Rightarrow> True | Some c' \<Rightarrow> out_ok e c' \<and> sent @ to_send c' = to_send c)"
proof -
  obtain t c1 n where w: "write_loop e relaxed c script [] = Inr ([] @ t, c1, n)" "out_ok e c1" "t @ to_send c1 = to_send c"
    using write_loop_ok [OF assms] by blast
  have p: "prefix t (to_send c)" using w(3) by (metis prefixI)
  have i: "out_ok e (c1\<lparr>lastinteraction := x\<rparr>) \<and> to_send (c1\<lparr>lastinteraction := x\<rparr>) = to_send c1" for x
    using w(2) unfolding out_ok_def sent_ok_def to_send_def out_bytes_def by auto
  have z: "out_ok e (c2\<lparr>sentlen := 0\<rparr>) \<and> to_send (c2\<lparr>sentlen := 0\<rparr>) = to_send c2"
    if "out_ok e c2" "\<not> clientHasPendingReplies c2" for c2
    using that by (simp add: out_ok_def sent_ok_def to_send_def out_bytes_def clientHasPendingReplies_def)
  show ?thesis using w p i z unfolding writeToClient_def by (auto simp: Let_def)
qed

theorem writeToClient_in_order_witness:
  "\<exists>s c sent r. sdsempty = Inr s \<and> addReplyString demo_env (demo_client s) ''hello'' 5 = Inr c \<and>
    writeToClient demo_env False True c [2, 2] = Inr (sent, r) \<and> prefix sent ''hello''"
proof -
  obtain s where s: "sdsempty = Inr s" using sdsempty_ok by blast
  have "has_room 1 (demo_client s)" using has_room_le [OF demo_ok(3)] by simp
  from addReplyString_ok [OF demo_ok(2,1) this, of 5 "''hello''"] obtain c where
    c: "addReplyString demo_env (demo_client s) ''hello'' 5 = Inr c" "appends demo_env 1 ''hello'' (demo_client s) c" by auto
  have "sentlen c = 0" using c(2) keeps_fields(7) by (auto simp: appends_def demo_client_def)
  then have "to_send c = ''hello''" using c(2) by (simp add: appends_def to_send_def demo_ok)
  moreover have "out_ok demo_env c" "reply_bytes c < 2 ^ 64" using c(2) by (auto simp: appends_def demo_ok)
  ultimately show ?thesis using s c(1) writeToClient_in_order [of demo_env c False True "[2, 2]"] by auto
qed



end
