(* ===== verification/Hiredis.thy ===== *)
theory Hiredis
  imports Util
begin

text \<open>
  \<open>deps/hiredis/hiredis.c\<close>: the formatter of commands, which the blog uses to address its own
  server. The length of the command is computed first, in an \<open>int\<close>; the text is then written to a
  block of that length and one byte more, and an assertion compares the two lengths. An argument is
  the memory block its pointer leads to.
\<close>

function intlen_loop :: "nat \<Rightarrow> nat" where
  "intlen_loop i = (if i div 10 = 0 then 1 else Suc (intlen_loop (i div 10)))"
  by pat_completeness auto
termination by (relation "measure id") auto

declare intlen_loop.simps [simp del]

definition intlen :: "int \<Rightarrow> int res" where
  "intlen i =
     (if i < 0 then rbind (ck_int32 (- i)) (\<lambda>m. Inr (1 + int (intlen_loop (nat m))))
      else Inr (int (intlen_loop (nat i))))"

definition bulklen_of :: "nat \<Rightarrow> nat res" where
  "bulklen_of len = rbind (intlen (to_int32 (int len))) (\<lambda>n. Inr (to_uint64 (1 + n + 2 + int len + 2)))"

definition arg_len :: "string list \<Rightarrow> nat list option \<Rightarrow> nat \<Rightarrow> nat res" where
  "arg_len argv argvlen j =
     (case argvlen of
        Some ls \<Rightarrow> if j < length ls then Inr (ls ! j) else Inl OutOfBounds
      | None \<Rightarrow> if j < length argv then rbind (rd_cstr (argv ! j) 0) (\<lambda>s. Inr (length s)) else Inl OutOfBounds)"

fun totlen_loop :: "string list \<Rightarrow> nat list option \<Rightarrow> nat \<Rightarrow> nat \<Rightarrow> int \<Rightarrow> int res" where
  "totlen_loop argv argvlen 0 j totlen = Inr totlen"
| "totlen_loop argv argvlen (Suc n) j totlen =
     rbind (arg_len argv argvlen j) (\<lambda>len.
     rbind (bulklen_of len) (\<lambda>b.
     totlen_loop argv argvlen n (Suc j) (to_int32 (totlen + int b))))"

definition format_arg :: "string list \<Rightarrow> nat list option \<Rightarrow> nat \<Rightarrow> string \<Rightarrow> int \<Rightarrow> (string \<times> int) res" where
  "format_arg argv argvlen j cmd pos =
     rbind (arg_len argv argvlen j) (\<lambda>len.
     rbind (wr_bytes cmd (nat pos) (CHR ''$'' # deci (int len) @ crlf @ [NUL])) (\<lambda>cmd1.
     rbind (ck_int32 (pos + int (length (CHR ''$'' # deci (int len) @ crlf)))) (\<lambda>pos1.
     rbind (if j < length argv then rd_bytes (argv ! j) 0 len else Inl OutOfBounds) (\<lambda>t.
     rbind (wr_bytes cmd1 (nat pos1) t) (\<lambda>cmd2.
     let pos2 = to_int32 (pos1 + int len) in
     rbind (wr cmd2 (nat pos2) CR) (\<lambda>cmd3.
     rbind (wr cmd3 (nat (pos2 + 1)) LF) (\<lambda>cmd4.
     Inr (cmd4, pos2 + 2))))))))"

fun format_loop :: "string list \<Rightarrow> nat list option \<Rightarrow> nat \<Rightarrow> nat \<Rightarrow> string \<Rightarrow> int \<Rightarrow> (string \<times> int) res" where
  "format_loop argv argvlen 0 j cmd pos = Inr (cmd, pos)"
| "format_loop argv argvlen (Suc n) j cmd pos =
     rbind (format_arg argv argvlen j cmd pos) (\<lambda>(cmd1, pos1). format_loop argv argvlen n (Suc j) cmd1 pos1)"

text \<open>The block of the formatted command and the length returned.\<close>

definition redisFormatCommandArgv ::
  "(nat \<Rightarrow> char) \<Rightarrow> int \<Rightarrow> string list \<Rightarrow> nat list option \<Rightarrow> (string \<times> int) res" where
  "redisFormatCommandArgv junk argc argv argvlen =
     rbind (intlen argc) (\<lambda>n.
     rbind (totlen_loop argv argvlen (nat argc) 0 (1 + n + 2)) (\<lambda>totlen.
     rbind (ck_int32 (totlen + 1)) (\<lambda>sz.
     let head = CHR ''*'' # deci argc @ crlf in
     rbind (wr_bytes (mem_resize junk (to_uint64 sz) []) 0 (head @ [NUL])) (\<lambda>cmd.
     rbind (format_loop argv argvlen (nat argc) 0 cmd (int (length head))) (\<lambda>(cmd1, pos).
     rbind (rassert (pos = totlen) AssertFail) (\<lambda>_.
     rbind (wr cmd1 (nat pos) NUL) (\<lambda>cmd2.
     Inr (cmd2, totlen))))))))"

section \<open>The protocol text\<close>

definition resp_bulk :: "string \<Rightarrow> string" where
  "resp_bulk a = CHR ''$'' # dec (length a) @ crlf @ a @ crlf"

definition resp_command :: "string list \<Rightarrow> string" where
  "resp_command as = CHR ''*'' # dec (length as) @ crlf @ concat (map resp_bulk as)"

text \<open>An argument with its block: the bytes of the argument come first, and a zero byte follows them.\<close>

definition arg_block :: "string \<Rightarrow> string \<Rightarrow> bool" where
  "arg_block a m \<longleftrightarrow> take (Suc (length a)) m = a @ [NUL]"

definition args_ok :: "string list \<Rightarrow> string list \<Rightarrow> nat list option \<Rightarrow> bool" where
  "args_ok as argv argvlen \<longleftrightarrow> list_all2 arg_block as argv \<and>
     (case argvlen of Some ls \<Rightarrow> ls = map length as | None \<Rightarrow> \<forall>a \<in> set as. is_cstring a)"

lemma intlen_loop_dec: "intlen_loop i = length (dec i)"
proof (induction i rule: intlen_loop.induct)
  case (1 i)
  show ?case
  proof (cases "i div 10 = 0")
    case True
    then have "i < 10" by simp
    then show ?thesis by (simp add: intlen_loop.simps dec.simps)
  next
    case False
    then have "\<not> i < 10" by simp
    then show ?thesis using 1 [OF False] False dec.simps [of i] by (subst intlen_loop.simps) simp
  qed
qed

lemma intlen_nat [simp]: "intlen (int n) = Inr (int (length (dec n)))"
  by (simp add: intlen_def intlen_loop_dec)

lemma length_resp_bulk: "length (resp_bulk a) = length (dec (length a)) + length a + 5"
  by (simp add: resp_bulk_def crlf_def)

lemma bulklen_ok: "length a < 2 ^ 31 \<Longrightarrow> bulklen_of (length a) = Inr (length (resp_bulk a))"
proof -
  assume a: "length a < 2 ^ 31"
  have i: "to_int32 (int (length a)) = int (length a)" using a by (simp add: to_int32_def)
  have "length (dec (length a)) \<le> 10" using a by (intro length_dec_le) auto
  then have "length (resp_bulk a) < 2 ^ 64" using a by (simp add: length_resp_bulk)
  from to_uint64_of_nat [OF this] show ?thesis
    unfolding bulklen_of_def i by (simp add: length_resp_bulk algebra_simps)
qed

lemma arg_len_ok: "args_ok as argv argvlen \<Longrightarrow> j < length as \<Longrightarrow> arg_len argv argvlen j = Inr (length (as ! j))"
proof -
  assume a: "args_ok as argv argvlen" and j: "j < length as"
  then have l: "length argv = length as" "arg_block (as ! j) (argv ! j)"
    by (auto simp: args_ok_def list_all2_lengthD list_all2_nthD)
  show ?thesis
  proof (cases argvlen)
    case (Some ls)
    then show ?thesis using a j by (simp add: args_ok_def arg_len_def)
  next
    case None
    then have "is_cstring (as ! j)" using a j by (simp add: args_ok_def)
    with l(2) have "rd_cstr (argv ! j) 0 = Inr (as ! j)" by (simp add: arg_block_def rd_cstr_terminated)
    then show ?thesis using None l(1) j by (simp add: arg_len_def)
  qed
qed

lemma totlen_loop_ok:
  assumes "args_ok as argv argvlen" "j + n = length as" "0 \<le> t"
    and "t + int (length (concat (map resp_bulk (drop j as)))) < 2 ^ 31"
  shows "totlen_loop argv argvlen n j t = Inr (t + int (length (concat (map resp_bulk (drop j as)))))"
  using assms
proof (induction n arbitrary: j t)
  case (Suc n)
  then have j: "j < length as" by simp
  have d: "drop j as = as ! j # drop (Suc j) as" using Cons_nth_drop_Suc [OF j] by simp
  have b: "length (as ! j) < 2 ^ 31" using Suc.prems(3,4) d by (simp add: length_resp_bulk)
  have i: "to_int32 (t + int (length (resp_bulk (as ! j)))) = t + int (length (resp_bulk (as ! j)))"
    using Suc.prems(3,4) d by (simp add: to_int32_def)
  have "totlen_loop argv argvlen (Suc n) j t = totlen_loop argv argvlen n (Suc j) (t + int (length (resp_bulk (as ! j))))"
    by (simp add: arg_len_ok [OF Suc.prems(1) j] bulklen_ok [OF b] i)
  also have "\<dots> = Inr (t + int (length (resp_bulk (as ! j))) + int (length (concat (map resp_bulk (drop (Suc j) as)))))"
    using Suc.prems d by (intro Suc.IH) auto
  finally show ?case by (simp add: d del: totlen_loop.simps)
qed simp

text \<open>A block filled up to a position, and what each write adds.\<close>

definition filled :: "string \<Rightarrow> string \<Rightarrow> nat \<Rightarrow> bool" where
  "filled m t n \<longleftrightarrow> length m = n \<and> take (length t) m = t \<and> length t < n"

lemma filled_wr_bytes:
  assumes "filled m t n" "length t + length u < n"
  shows "\<exists>m'. wr_bytes m (length t) (u @ [NUL]) = Inr m' \<and> filled m' (t @ u) n"
    and "\<exists>m'. wr_bytes m (length t) u = Inr m' \<and> filled m' (t @ u) n"
  using assms by (auto simp: filled_def wr_bytes_def)

lemma filled_wr:
  assumes "filled m t n" "Suc (length t) < n"
  shows "\<exists>m'. wr m (length t) c = Inr m' \<and> filled m' (t @ [c]) n"
  using assms by (auto simp: filled_def wr_def take_Suc_nth [of "length t"] nth_append take_Suc_conv_app_nth)

lemma format_arg_ok:
  assumes a: "args_ok as argv argvlen" and j: "j < length as" and m: "filled m t n"
    and fits: "length t + length (resp_bulk (as ! j)) < n" "n < 2 ^ 31"
  shows "\<exists>m'. format_arg argv argvlen j m (int (length t)) =
    Inr (m', int (length (t @ resp_bulk (as ! j)))) \<and> filled m' (t @ resp_bulk (as ! j)) n"
proof -
  define x h where "x = as ! j" and "h = CHR ''$'' # dec (length x) @ crlf"
  have len: "length (resp_bulk x) = length h + length x + 2" by (simp add: h_def resp_bulk_def crlf_def)
  have fits': "length t + length h + length x + 2 < n" using fits(1) len x_def by simp
  have blk: "arg_block x (argv ! j)" "j < length argv"
    using a j by (auto simp: x_def args_ok_def list_all2_lengthD list_all2_nthD)
  obtain m1 where m1: "wr_bytes m (length t) (h @ [NUL]) = Inr m1" "filled m1 (t @ h) n"
    using filled_wr_bytes(1) [OF m, of h] fits' by auto
  have rd: "rd_bytes (argv ! j) 0 (length x) = Inr x"
  proof -
    have s: "Suc (length x) \<le> length (argv ! j)"
      using arg_cong [OF blk(1) [unfolded arg_block_def], of length] by simp
    have "take (length x) (argv ! j) = take (length x) (take (Suc (length x)) (argv ! j))" by simp
    also have "\<dots> = x" using blk(1) by (simp add: arg_block_def)
    finally show ?thesis using s by (simp add: rd_bytes_def)
  qed
  obtain m2 where m2: "wr_bytes m1 (length (t @ h)) x = Inr m2" "filled m2 (t @ h @ x) n"
    using filled_wr_bytes(2) [OF m1(2), of x] fits' by auto
  obtain m3 where m3: "wr m2 (length (t @ h @ x)) CR = Inr m3" "filled m3 (t @ h @ x @ [CR]) n"
    using filled_wr [OF m2(2), of CR] fits' by auto
  obtain m4 where m4: "wr m3 (length (t @ h @ x @ [CR])) LF = Inr m4" "filled m4 (t @ h @ x @ [CR, LF]) n"
    using filled_wr [OF m3(2), of LF] fits' by auto
  have e: "CHR ''$'' # deci (int (length x)) @ crlf @ [NUL] = h @ [NUL]" "CHR ''$'' # deci (int (length x)) @ crlf = h"
    by (simp_all add: h_def deci_def)
  have c: "ck_int32 (int (length t) + int (length h)) = Inr (int (length (t @ h)))"
    using fits' fits(2) by (simp add: ck_int32_def in_int32_def)
  have p: "to_int32 (int (length (t @ h)) + int (length x)) = int (length (t @ h @ x))"
    using fits' fits(2) by (simp add: to_int32_def)
  have q: "nat (int (length (t @ h @ x)) + 1) = length (t @ h @ x @ [CR])" by simp
  have "format_arg argv argvlen j m (int (length t)) = Inr (m4, int (length (t @ h @ x)) + 2)"
    unfolding format_arg_def arg_len_ok [OF a j, folded x_def] rbind_simps e nat_int m1(1) c if_P [OF blk(2)] rd m2(1) Let_def
      p m3(1) q m4(1) ..
  moreover have "t @ h @ x @ [CR, LF] = t @ resp_bulk x" by (simp add: resp_bulk_def h_def crlf_def)
  ultimately show ?thesis using m4(2) len unfolding x_def [symmetric] by simp
qed

lemma format_loop_ok:
  assumes a: "args_ok as argv argvlen" and "j + k = length as" and "filled m t n"
    and "length t + length (concat (map resp_bulk (drop j as))) < n" "n < 2 ^ 31"
  shows "\<exists>m'. format_loop argv argvlen k j m (int (length t)) =
    Inr (m', int (length (t @ concat (map resp_bulk (drop j as))))) \<and> filled m' (t @ concat (map resp_bulk (drop j as))) n"
  using assms
proof (induction k arbitrary: j m t)
  case (Suc k)
  then have j: "j < length as" by simp
  have d: "drop j as = as ! j # drop (Suc j) as" using Cons_nth_drop_Suc [OF j] by simp
  have "length t + length (resp_bulk (as ! j)) < n" using Suc.prems(4) d by simp
  from format_arg_ok [OF Suc.prems(1) j Suc.prems(3) this Suc.prems(5)] obtain m1 where
    m1: "format_arg argv argvlen j m (int (length t)) = Inr (m1, int (length (t @ resp_bulk (as ! j))))"
      "filled m1 (t @ resp_bulk (as ! j)) n" by blast
  have "Suc j + k = length as" "length (t @ resp_bulk (as ! j)) + length (concat (map resp_bulk (drop (Suc j) as))) < n"
    using Suc.prems(2,4) d by auto
  from Suc.IH [OF Suc.prems(1) this(1) m1(2) this(2) Suc.prems(5)] show ?case
    unfolding format_loop.simps m1(1) rbind_simps prod.case d list.map concat.simps append_assoc .
qed simp

lemma redisFormatCommandArgv_ok:
  assumes a: "args_ok as argv argvlen" and fits: "length (resp_command as) + 1 < 2 ^ 31"
  shows "\<exists>m. redisFormatCommandArgv junk (int (length as)) argv argvlen = Inr (m, int (length (resp_command as))) \<and>
    m = resp_command as @ [NUL]"
proof -
  define h where "h = CHR ''*'' # dec (length as) @ crlf"
  let ?b = "concat (map resp_bulk as)"
  let ?n = "length (resp_command as) + 1"
  have r: "resp_command as = h @ ?b" by (simp add: resp_command_def h_def)
  have lh: "1 + int (length (dec (length as))) + 2 = int (length h)" by (simp add: h_def crlf_def)
  have l: "int (length h) + int (length ?b) = int (length (resp_command as))" by (simp add: r)
  have "totlen_loop argv argvlen (length as) 0 (int (length h)) = Inr (int (length h) + int (length (concat (map resp_bulk (drop 0 as)))))"
    using fits l by (intro totlen_loop_ok [OF a]) auto
  then have tot: "totlen_loop argv argvlen (length as) 0 (int (length h)) = Inr (int (length (resp_command as)))"
    using l by simp
  have ck: "ck_int32 (int (length (resp_command as)) + 1) = Inr (int ?n)"
    using fits by (simp add: ck_int32_def in_int32_def)
  have u: "to_uint64 (int ?n) = ?n" using fits by (intro to_uint64_of_nat) simp
  let ?m = "mem_resize junk ?n []"
  have "filled ?m [] ?n" by (simp add: filled_def)
  from filled_wr_bytes(1) [OF this, of h] obtain m1 where
    m1: "wr_bytes ?m 0 (h @ [NUL]) = Inr m1" "filled m1 h ?n" using r by auto
  have "0 + length as = length as" "length h + length (concat (map resp_bulk (drop 0 as))) < ?n" using l by simp_all
  from format_loop_ok [OF a this(1) m1(2) this(2) fits] obtain m2 where
    m2: "format_loop argv argvlen (length as) 0 m1 (int (length h)) = Inr (m2, int (length (resp_command as)))"
      "filled m2 (resp_command as) ?n" by (auto simp: r)
  have len: "length m2 = Suc (length (resp_command as))" "take (length (resp_command as)) m2 = resp_command as"
    using m2(2) by (simp_all add: filled_def)
  then have wr: "wr m2 (length (resp_command as)) NUL = Inr (resp_command as @ [NUL])"
    by (simp add: wr_def list_update_append1 upd_conv_take_nth_drop)
  have hd: "CHR ''*'' # deci (int (length as)) @ crlf = h" by (simp add: h_def deci_def)
  show ?thesis
    unfolding redisFormatCommandArgv_def intlen_nat rbind_simps nat_int lh tot ck hd Let_def u m1(1) m2(1) prod.case
    by (simp add: wr)
qed

text \<open>
  C7. The formatter writes exactly the protocol text of the command and its
  terminator, inside its block, whatever bytes the arguments hold when their lengths are given: its
  assertion holds and the length it returns is that of the text.
\<close>

theorem format_command_exact:
  assumes "args_ok as argv argvlen" "length (resp_command as) + 1 < 2 ^ 31"
  shows "redisFormatCommandArgv junk (int (length as)) argv argvlen =
    Inr (resp_command as @ [NUL], int (length (resp_command as)))"
  using redisFormatCommandArgv_ok [OF assms] by simp

theorem format_command_exact_witness:
  "redisFormatCommandArgv (\<lambda>_. CHR ''z'') 2 [''GET'' @ [NUL], [NUL, CHR ''k'', NUL, CHR ''x'']] (Some [3, 2]) =
    Inr (resp_command [''GET'', [NUL, CHR ''k'']] @ [NUL], int (length (resp_command [''GET'', [NUL, CHR ''k'']])))"
proof -
  have "args_ok [''GET'', [NUL, CHR ''k'']] [''GET'' @ [NUL], [NUL, CHR ''k'', NUL, CHR ''x'']] (Some [3, 2])"
    by (simp add: args_ok_def arg_block_def)
  moreover have "length (resp_command [''GET'', [NUL, CHR ''k'']]) + 1 < 2 ^ 31"
    by (simp add: resp_command_def resp_bulk_def crlf_def dec.simps)
  ultimately show ?thesis
    using format_command_exact [of "[''GET'', [NUL, CHR ''k'']]" _ "Some [3, 2]" "\<lambda>_. CHR ''z''"] by simp
qed

end
