(* ===== verification/Request.thy ===== *)
theory Request
  imports Reply SdsText Hiredis
begin

text \<open>
  The input side of \<open>src/networking.c\<close>: the two request formats, the incremental parser of the
  length-prefixed one, and the loop that runs the commands found in the query buffer. The parser
  works on whatever part of a request has arrived: it consumes what it can, remembers the number of
  arguments and the length of the argument it waits for, and leaves the rest in the buffer. The
  message logged about a protocol error is left out.
\<close>

definition PROTO_INLINE_MAX_SIZE :: nat where
  "PROTO_INLINE_MAX_SIZE = 1024 * 64"

definition PROTO_MBULK_BIG_ARG :: int where
  "PROTO_MBULK_BIG_ARG = 1024 * 32"

definition PROTO_REQ_INLINE :: nat where
  "PROTO_REQ_INLINE = 1"

definition PROTO_REQ_MULTIBULK :: nat where
  "PROTO_REQ_MULTIBULK = 2"

section \<open>Model\<close>

definition freeClientArgv :: "client \<Rightarrow> client res" where
  "freeClientArgv c = rbind (rmap decrRefCount (argv c)) (\<lambda>_. Inr (c\<lparr>argv := []\<rparr>))"

text \<open>\<open>asking\<close>: whether the command just run is \<open>ASKING\<close>.\<close>

definition resetClient :: "bool \<Rightarrow> client \<Rightarrow> client res" where
  "resetClient asking c0 =
     rbind (freeClientArgv c0) (\<lambda>c1.
     let c2 = c1\<lparr>reqtype := 0, multibulklen := 0, bulklen := -1\<rparr>;
         c3 = (if CLIENT_MULTI \<notin> flags c2 \<and> \<not> asking then c2\<lparr>flags := flags c2 - {CLIENT_ASKING}\<rparr> else c2);
         c4 = c3\<lparr>flags := flags c3 - {CLIENT_REPLY_SKIP}\<rparr>
     in Inr (if CLIENT_REPLY_SKIP_NEXT \<in> flags c4
             then c4\<lparr>flags := insert CLIENT_REPLY_SKIP (flags c4) - {CLIENT_REPLY_SKIP_NEXT}\<rparr> else c4))"

definition setProtocolError :: "client \<Rightarrow> int \<Rightarrow> client res" where
  "setProtocolError c pos =
     rbind (sdsrange (querybuf c) pos (-1)) (\<lambda>q.
     Inr (c\<lparr>flags := insert CLIENT_CLOSE_AFTER_REPLY (flags c), querybuf := q\<rparr>))"

definition protocol_error :: "env \<Rightarrow> client \<Rightarrow> string \<Rightarrow> int \<Rightarrow> client res" where
  "protocol_error e c msg pos = rbind (addReplyError e c msg) (\<lambda>c1. setProtocolError c1 pos)"

text \<open>\<open>strchr\<close> in the query buffer from a position on; the answer is an offset from the buffer's start.\<close>

definition find_char :: "sds \<Rightarrow> char \<Rightarrow> int \<Rightarrow> int option res" where
  "find_char q ch pos =
     rbind (rd_cstr (hdr_buf q) (nat pos)) (\<lambda>t. Inr (map_option (\<lambda>i. pos + int i) (strchr t ch)))"

subsection \<open>Inline requests\<close>

definition new_string_arg :: "env \<Rightarrow> string \<Rightarrow> robj res" where
  "new_string_arg e t =
     rbind (sdsnewlen (Some t) (length t)) (\<lambda>s. Inr (createObject (lruclock e) OBJ_STRING (PSds s)))"

definition processInlineBuffer :: "env \<Rightarrow> client \<Rightarrow> (bool \<times> client) res" where
  "processInlineBuffer e c =
     (let q = querybuf c in
      rbind (find_char q LF 0) (\<lambda>newline0.
      case newline0 of
        None \<Rightarrow>
          if sdslen q > PROTO_INLINE_MAX_SIZE
          then rbind (protocol_error e c ''Protocol error: too big inline request'' 0) (\<lambda>c1. Inr (False, c1))
          else Inr (False, c)
      | Some nl \<Rightarrow>
          rbind (if nl \<noteq> 0 then rd (hdr_buf q) (nat (nl - 1)) else Inr NUL) (\<lambda>before.
          let newline = (if nl \<noteq> 0 \<and> before = CR then nl - 1 else nl); querylen = nat newline in
          rbind (sdsnewlen (Some (hdr_buf q)) querylen) (\<lambda>aux.
          case sdssplitargs (sdsval aux) of
            None \<Rightarrow> rbind (protocol_error e c ''Protocol error: unbalanced quotes in request'' 0) (\<lambda>c1. Inr (False, c1))
          | Some args \<Rightarrow>
              let c1 = (if querylen = 0 \<and> CLIENT_SLAVE \<in> flags c then c\<lparr>repl_ack_time := unixtime e\<rparr> else c) in
              rbind (sdsrange q (to_int32 (int querylen + 2)) (-1)) (\<lambda>q1.
              rbind (rmap (new_string_arg e) (filter (\<lambda>a. a \<noteq> []) args)) (\<lambda>objs.
              Inr (True, c1\<lparr>querybuf := q1, argv := objs\<rparr>)))))))"

subsection \<open>Length-prefixed requests\<close>

text \<open>
  The first part of \<open>processMultibulkBuffer\<close>, which reads the number of arguments: \<open>HeadErr\<close> returns
  \<open>C_ERR\<close>, \<open>HeadNone\<close> returns \<open>C_OK\<close> with no argument to read.
\<close>

datatype mb_head = HeadErr client | HeadNone client | HeadOk client int

definition read_multibulk_len :: "env \<Rightarrow> client \<Rightarrow> mb_head res" where
  "read_multibulk_len e c =
     (let q = querybuf c in
      rbind (rassert (argv c = []) AssertFail) (\<lambda>_.
      rbind (find_char q CR 0) (\<lambda>nl.
      case nl of
        None \<Rightarrow>
          if sdslen q > PROTO_INLINE_MAX_SIZE
          then rbind (protocol_error e c ''Protocol error: too big mbulk count string'' 0) (\<lambda>c1. Inr (HeadErr c1))
          else Inr (HeadErr c)
      | Some newline \<Rightarrow>
          rbind (ck_int32 (to_int32 (int (sdslen q)) - 2)) (\<lambda>last.
          if newline > last then Inr (HeadErr c)
          else
            rbind (rd (hdr_buf q) 0) (\<lambda>first.
            rbind (rassert (first = CHR ''*'') AssertFail) (\<lambda>_.
            rbind (rd_bytes (hdr_buf q) 1 (nat (newline - 1))) (\<lambda>t.
            let number = string2ll t in
            if number = None \<or> the number > 1024 * 1024
            then rbind (protocol_error e c ''Protocol error: invalid multibulk length'' 0) (\<lambda>c1. Inr (HeadErr c1))
            else
              let pos = newline + 2 in
              if the number \<le> 0
              then rbind (sdsrange q pos (-1)) (\<lambda>q1. Inr (HeadNone (c\<lparr>querybuf := q1\<rparr>)))
              else Inr (HeadOk (c\<lparr>multibulklen := the number, argv := []\<rparr>) pos))))))))"

text \<open>Reading the length of the next argument: \<open>LenBreak\<close> leaves the loop, \<open>LenErr\<close> returns \<open>C_ERR\<close>.\<close>

datatype len_result = LenBreak | LenErr client | LenOk client int

definition read_bulk_len :: "env \<Rightarrow> client \<Rightarrow> int \<Rightarrow> len_result res" where
  "read_bulk_len e c pos =
     (let q = querybuf c in
      rbind (find_char q CR pos) (\<lambda>nl.
      case nl of
        None \<Rightarrow>
          if sdslen q > PROTO_INLINE_MAX_SIZE
          then rbind (protocol_error e c ''Protocol error: too big bulk count string'' 0) (\<lambda>c1. Inr (LenErr c1))
          else Inr LenBreak
      | Some newline \<Rightarrow>
          rbind (ck_int32 (to_int32 (int (sdslen q)) - 2)) (\<lambda>last.
          if newline > last then Inr LenBreak
          else
            rbind (rd (hdr_buf q) (nat pos)) (\<lambda>first.
            if first \<noteq> CHR ''$'' then
              rbind (addReplyErrorFormat e c (''Protocol error: expected '' @ [CHR 0x27] @ ''$'' @ [CHR 0x27] @
                       '', got '' @ [CHR 0x27, first, CHR 0x27])) (\<lambda>c1.
              rbind (setProtocolError c1 pos) (\<lambda>c2. Inr (LenErr c2)))
            else
              rbind (rd_bytes (hdr_buf q) (nat (pos + 1)) (nat (newline - (pos + 1)))) (\<lambda>t.
              let number = string2ll t in
              if number = None \<or> the number < 0 \<or> the number > 512 * 1024 * 1024
              then rbind (protocol_error e c ''Protocol error: invalid bulk length'' pos) (\<lambda>c1. Inr (LenErr c1))
              else
                let ll = the number; pos1 = newline + 2 in
                if ll \<ge> PROTO_MBULK_BIG_ARG then
                  rbind (sdsrange q pos1 (-1)) (\<lambda>q1.
                  let qblen = sdslen q1 in
                  rbind (if int qblen < ll + 2 then sdsMakeRoomFor (junk e) q1 (nat (ll + 2 - int qblen)) else Inr q1) (\<lambda>q2.
                  Inr (LenOk (c\<lparr>querybuf := q2, bulklen := ll\<rparr>) 0)))
                else Inr (LenOk (c\<lparr>bulklen := ll\<rparr>) pos1))))))"

text \<open>Taking an argument whose length is known; none when its bytes have not all arrived.\<close>

definition read_bulk_arg :: "env \<Rightarrow> client \<Rightarrow> int \<Rightarrow> (client \<times> int) option res" where
  "read_bulk_arg e c pos =
     (let q = querybuf c; bl = bulklen c in
      if to_uint64 (int (sdslen q) - pos) < to_uint32 (bl + 2) then Inr None
      else if pos = 0 \<and> bl \<ge> PROTO_MBULK_BIG_ARG \<and> to_int32 (int (sdslen q)) = bl + 2 then
        rbind (sdsIncrLen q (-2)) (\<lambda>s.
        rbind (sdsnewlen None (nat (bl + 2))) (\<lambda>q1.
        rbind (sdsclear q1) (\<lambda>q2.
        Inr (Some (c\<lparr>argv := argv c @ [createObject (lruclock e) OBJ_STRING (PSds s)], querybuf := q2,
                     bulklen := -1, multibulklen := multibulklen c - 1\<rparr>, 0)))))
      else
        rbind (createStringObject (lruclock e) (Some (drop (nat pos) (hdr_buf q))) (nat bl)) (\<lambda>a.
        Inr (Some (c\<lparr>argv := argv c @ [a], bulklen := -1, multibulklen := multibulklen c - 1\<rparr>, pos + bl + 2))))"

datatype mb_out = MbErr client | MbStop client int

text \<open>The loop; its first argument is the number of arguments still to read.\<close>

fun bulk_loop :: "env \<Rightarrow> nat \<Rightarrow> client \<Rightarrow> int \<Rightarrow> mb_out res" where
  "bulk_loop e 0 c pos = Inr (MbStop c pos)"
| "bulk_loop e (Suc n) c pos =
     rbind (if bulklen c = -1 then read_bulk_len e c pos else Inr (LenOk c pos)) (\<lambda>r.
     case r of
       LenBreak \<Rightarrow> Inr (MbStop c pos)
     | LenErr c1 \<Rightarrow> Inr (MbErr c1)
     | LenOk c1 pos1 \<Rightarrow>
         rbind (read_bulk_arg e c1 pos1) (\<lambda>a.
         case a of
           None \<Rightarrow> Inr (MbStop c1 pos1)
         | Some (c2, pos2) \<Rightarrow> bulk_loop e n c2 pos2))"

definition bulk_rest :: "env \<Rightarrow> client \<Rightarrow> int \<Rightarrow> (bool \<times> client) res" where
  "bulk_rest e c pos0 =
     rbind (rassert (multibulklen c > 0) AssertFail) (\<lambda>_.
     rbind (bulk_loop e (nat (multibulklen c)) c pos0) (\<lambda>r.
     case r of
       MbErr c1 \<Rightarrow> Inr (False, c1)
     | MbStop c1 pos \<Rightarrow>
         rbind (if pos \<noteq> 0 then sdsrange (querybuf c1) pos (-1) else Inr (querybuf c1)) (\<lambda>q.
         Inr (multibulklen c1 = 0, c1\<lparr>querybuf := q\<rparr>))))"

definition processMultibulkBuffer :: "env \<Rightarrow> client \<Rightarrow> (bool \<times> client) res" where
  "processMultibulkBuffer e c =
     (if multibulklen c = 0 then
        rbind (read_multibulk_len e c) (\<lambda>h.
        case h of
          HeadErr c1 \<Rightarrow> Inr (False, c1)
        | HeadNone c1 \<Rightarrow> Inr (True, c1)
        | HeadOk c1 pos \<Rightarrow> bulk_rest e c1 pos)
      else bulk_rest e c 0)"

subsection \<open>The input loop\<close>

text \<open>
  \<open>processInputBuffer\<close> with the execution of a command as a parameter on a state of its own:
  \<open>exec\<close> returns whether the command was executed (\<open>C_OK\<close>), whether it was \<open>ASKING\<close>, and whether the
  client is still there (\<open>server.current_client\<close>). The last argument bounds the number of rounds; no
  result means that more are needed.
\<close>

fun processInputBuffer ::
  "env \<Rightarrow> bool \<Rightarrow> ('s \<Rightarrow> client \<Rightarrow> (bool \<times> bool \<times> bool \<times> 's \<times> client) res) \<Rightarrow> nat \<Rightarrow> 's \<Rightarrow> client \<Rightarrow> ('s \<times> client) option res" where
  "processInputBuffer e paused exec 0 s c = Inr None"
| "processInputBuffer e paused exec (Suc n) s c =
     (if sdslen (querybuf c) = 0 then Inr (Some (s, c))
      else if CLIENT_SLAVE \<notin> flags c \<and> paused then Inr (Some (s, c))
      else if CLIENT_BLOCKED \<in> flags c then Inr (Some (s, c))
      else if CLIENT_CLOSE_AFTER_REPLY \<in> flags c then Inr (Some (s, c))
      else
        rbind (if reqtype c = 0 then
                 rbind (rd (hdr_buf (querybuf c)) 0) (\<lambda>first.
                 Inr (c\<lparr>reqtype := if first = CHR ''*'' then PROTO_REQ_MULTIBULK else PROTO_REQ_INLINE\<rparr>))
               else Inr c) (\<lambda>c1.
        rbind (if reqtype c1 = PROTO_REQ_INLINE then processInlineBuffer e c1
               else if reqtype c1 = PROTO_REQ_MULTIBULK then processMultibulkBuffer e c1
               else Inl Panic) (\<lambda>(ok, c2).
        if \<not> ok then Inr (Some (s, c2))
        else if argv c2 = [] then rbind (resetClient False c2) (processInputBuffer e paused exec n s)
        else
          rbind (exec s c2) (\<lambda>(executed, asking, present, s1, c3).
          rbind (if executed then resetClient asking c3 else Inr c3) (\<lambda>c4.
          if \<not> present then Inr (Some (s1, c4))
          else processInputBuffer e paused exec n s1 c4)))))"

text \<open>
  \<open>readQueryFromClient\<close>: a read either fails (\<open>EAGAIN\<close> or an error that frees the client) or brings
  bytes, none of them when the peer closed the connection. A client that was freed is \<open>None\<close>.
\<close>

definition PROTO_IOBUF_LEN :: int where
  "PROTO_IOBUF_LEN = 1024 * 16"

definition query_readlen :: "client \<Rightarrow> int" where
  "query_readlen c =
     (if reqtype c = PROTO_REQ_MULTIBULK \<and> multibulklen c \<noteq> 0 \<and> bulklen c \<noteq> -1 \<and> bulklen c \<ge> PROTO_MBULK_BIG_ARG
      then min PROTO_IOBUF_LEN (to_int32 (int (to_uint32 (bulklen c + 2)) - int (sdslen (querybuf c))))
      else PROTO_IOBUF_LEN)"

datatype read_result = ReadAgain | ReadFail | ReadBytes string

definition readQueryFromClient ::
  "env \<Rightarrow> bool \<Rightarrow> nat \<Rightarrow> ('s \<Rightarrow> client \<Rightarrow> (bool \<times> bool \<times> bool \<times> 's \<times> client) res) \<Rightarrow> nat \<Rightarrow> 's \<Rightarrow> client \<Rightarrow> read_result \<Rightarrow>
   ('s \<times> client option) option res" where
  "readQueryFromClient e paused max_querybuf_len exec n s c0 got =
     (let readlen = query_readlen c0; qblen = sdslen (querybuf c0) in
      rbind (sdsMakeRoomFor (junk e) (querybuf c0) (to_uint64 readlen)) (\<lambda>q.
      let c = c0\<lparr>querybuf := q\<rparr> in
      case got of
        ReadAgain \<Rightarrow> Inr (Some (s, Some c))
      | ReadFail \<Rightarrow> Inr (Some (s, None))
      | ReadBytes t \<Rightarrow>
          if t = [] then Inr (Some (s, None))
          else
            rbind (wr_bytes (hdr_buf q) qblen t) (\<lambda>b.
            rbind (sdsIncrLen (q\<lparr>hdr_buf := b\<rparr>) (int (length t))) (\<lambda>q1.
            let c1 = c\<lparr>querybuf := q1, lastinteraction := unixtime e\<rparr>;
                c2 = (if CLIENT_MASTER \<in> flags c1 then c1\<lparr>reploff := reploff c1 + int (length t)\<rparr> else c1) in
            if sdslen q1 > max_querybuf_len then Inr (Some (s, None))
            else rbind (processInputBuffer e paused exec n s c2) (\<lambda>r.
                 Inr (map_option (\<lambda>(s', c'). (s', Some c')) r))))))"

section \<open>Looking at the buffer\<close>

lemma cstr_append_end: "cstr (a @ NUL # r) = cstr a"
  by (induction a) auto

lemma cstr_append_clean: "is_cstring a \<Longrightarrow> cstr (a @ b) = a @ cstr b"
  by (induction a) auto

lemma sds_buf_NUL: "sds_ok q \<Longrightarrow> \<exists>r. hdr_buf q = sdsval q @ NUL # r"
proof -
  assume "sds_ok q"
  then have "take (Suc (hdr_len q)) (hdr_buf q) = sdsval q @ [NUL]" by (rule sds_buf_split)
  then have "hdr_buf q = (sdsval q @ [NUL]) @ drop (Suc (hdr_len q)) (hdr_buf q)" by (metis append_take_drop_id)
  then show ?thesis by auto
qed

lemma find_char_ok:
  assumes "sds_ok q" "pos \<le> sdslen q"
  shows "find_char q ch (int pos) = Inr (map_option (\<lambda>i. int pos + int i) (strchr (cstr (drop pos (sdsval q))) ch))"
proof -
  obtain r where r: "hdr_buf q = sdsval q @ NUL # r" using sds_buf_NUL [OF assms(1)] by blast
  have "drop pos (hdr_buf q) = drop pos (sdsval q) @ NUL # r" using assms r by simp
  then show ?thesis by (simp add: find_char_def rd_cstr_def cstr_append_end)
qed

lemma rd_buf:
  assumes "sds_ok q" "i < sdslen q"
  shows "rd (hdr_buf q) i = Inr (sdsval q ! i)"
  using assms sdslen_le_buf [OF assms(1)] by (simp add: rd_def sdsval_def sdslen_def)

lemma rd_bytes_buf:
  assumes "sds_ok q" "i + n \<le> sdslen q"
  shows "rd_bytes (hdr_buf q) i n = Inr (take n (drop i (sdsval q)))"
proof -
  obtain r where "hdr_buf q = sdsval q @ NUL # r" using sds_buf_NUL [OF assms(1)] by blast
  then show ?thesis using assms by (simp add: rd_bytes_def)
qed

lemma drop_buf:
  assumes "sds_ok q" "i + n \<le> sdslen q"
  shows "take n (drop i (hdr_buf q)) = take n (drop i (sdsval q))" "n \<le> length (drop i (hdr_buf q))"
  using rd_bytes_buf [OF assms] assms by (auto simp: rd_bytes_def split: if_splits)

lemma sdsIncrLen_shrink:
  assumes ok: "sds_ok s" and k: "0 < k" "k \<le> sdslen s" "k < 2 ^ 31"
  shows "\<exists>s'. sdsIncrLen s (- int k) = Inr s' \<and> sds_ok s' \<and> sdsval s' = take (sdslen s - k) (sdsval s)"
proof -
  let ?n = "sdslen s - k"
  have len: "nat ((int (hdr_len s) + - int k) mod 2 ^ sds_bits (hdr_type s)) = ?n"
  proof -
    have "?n < 2 ^ sds_bits (hdr_type s)" using sdslen_less [OF ok] by simp
    then have "int ?n mod 2 ^ sds_bits (hdr_type s) = int ?n" by (simp flip: of_nat_power of_nat_mod)
    moreover have "int (hdr_len s) + - int k = int ?n" using k(2) by (simp add: sdslen_def)
    ultimately show ?thesis by simp
  qed
  have w: "wr (hdr_buf s) ?n NUL = Inr ((hdr_buf s)[?n := NUL])" using sdslen_le_buf [OF ok] by (simp add: wr_def)
  let ?s = "s\<lparr>hdr_len := ?n, hdr_buf := (hdr_buf s)[?n := NUL]\<rparr>"
  have "sdsIncrLen s (- int k) = Inr ?s"
    using k len w by (simp add: sdsIncrLen_def Let_def sdslen_def)
  moreover have "sds_ok ?s \<and> sdsval ?s = take ?n (sdsval s)"
  proof (rule sds_okI)
    show "hdr_len ?s \<le> sdsalloc ?s" using ok by (auto simp: sdsalloc_def sds_ok_def sdslen_def)
    show "sdsalloc ?s < length (hdr_buf ?s)" "sdsalloc ?s < 2 ^ sds_bits (hdr_type ?s)"
      using ok by (auto simp: sdsalloc_def sds_ok_def sdslen_def split: if_splits)
    show "take (Suc (hdr_len ?s)) (hdr_buf ?s) = take ?n (sdsval s) @ [NUL]"
      using sdslen_le_buf [OF ok] by (simp add: take_Suc_conv_app_nth sdsval_def sdslen_def min_def)
  qed
  ultimately show ?thesis by blast
qed

section \<open>The incremental parser\<close>

subsection \<open>One argument\<close>

lemma bulk_header:
  assumes "D @ fut = (ch # dec n) @ CR # LF # X"
    and ch: "ch \<noteq> CR" "ch \<noteq> NUL"
  shows "length D \<le> length (dec n) + 1 \<Longrightarrow> strchr (cstr D) CR = None"
    and "length (dec n) + 1 < length D \<Longrightarrow> strchr (cstr D) CR = Some (length (dec n) + 1)"
    and "length (dec n) + 2 < length D \<Longrightarrow> D = (ch # dec n) @ CR # LF # drop (length (dec n) + 3) D \<and>
      drop (length (dec n) + 3) D @ fut = X"
proof -
  let ?h = "ch # dec n"
  have clean: "CR \<notin> set ?h" "is_cstring ?h" using ch by auto
  from assms(1) obtain us where
    "D = ?h @ us \<and> us @ fut = CR # LF # X \<or> D @ us = ?h \<and> fut = us @ CR # LF # X"
    unfolding append_eq_append_conv2 by blast
  then consider (short) us where "D @ us = ?h" | (long) us where "D = ?h @ us" "us @ fut = CR # LF # X" by blast
  then have "(length D \<le> length (dec n) + 1 \<longrightarrow> strchr (cstr D) CR = None) \<and>
    (length (dec n) + 1 < length D \<longrightarrow> strchr (cstr D) CR = Some (length (dec n) + 1)) \<and>
    (length (dec n) + 2 < length D \<longrightarrow> D = ?h @ CR # LF # drop (length (dec n) + 3) D \<and>
      drop (length (dec n) + 3) D @ fut = X)"
  proof cases
    case short
    then have "set D \<subseteq> set ?h" "length D \<le> length ?h" by (metis set_append sup_ge1, metis length_append le_add1)
    then have "CR \<notin> set D" "is_cstring D" using clean by (auto simp: is_cstring_def)
    then show ?thesis using \<open>length D \<le> length ?h\<close> by (simp add: cstr_id)
  next
    case long
    have cs: "cstr (?h @ CR # v) = ?h @ CR # cstr v" for v
      using cstr_append_clean [OF clean(2), of "CR # v"] by simp
    show ?thesis
    proof (cases us)
      case Nil
      then show ?thesis using long clean by (simp add: cstr_id)
    next
      case (Cons u v)
      then have u: "u = CR" "v @ fut = LF # X" using long(2) by auto
      have "strchr (cstr D) CR = Some (length (dec n) + 1)"
        using long(1) Cons u cs [of v] strchr_append [OF clean(1), of "cstr v"] by simp
      moreover have "drop (length (dec n) + 3) (?h @ CR # LF # w) = w" for w by (simp add: numeral_3_eq_3)
      ultimately show ?thesis using long(1) Cons u by (cases v) auto
    qed
  qed
  then show "length D \<le> length (dec n) + 1 \<Longrightarrow> strchr (cstr D) CR = None"
    "length (dec n) + 1 < length D \<Longrightarrow> strchr (cstr D) CR = Some (length (dec n) + 1)"
    "length (dec n) + 2 < length D \<Longrightarrow> D = ?h @ CR # LF # drop (length (dec n) + 3) D \<and>
      drop (length (dec n) + 3) D @ fut = X" by blast+
qed

text \<open>What of the buffer is left from a position on.\<close>

abbreviation ahead :: "client \<Rightarrow> int \<Rightarrow> string" where
  "ahead c pos \<equiv> drop (nat pos) (sdsval (querybuf c))"

definition at_pos :: "client \<Rightarrow> int \<Rightarrow> bool" where
  "at_pos c pos \<longleftrightarrow> sds_ok (querybuf c) \<and> 0 \<le> pos \<and> nat pos \<le> sdslen (querybuf c) \<and> sdslen (querybuf c) < 2 ^ 31"

lemma read_bulk_len_ok:
  assumes q: "at_pos c pos" and str: "ahead c pos @ fut = resp_bulk a @ X"
    and a: "length a \<le> 512 * 1024 * 1024"
  shows "length (dec (length a)) + 2 < length (ahead c pos) \<Longrightarrow>
      \<exists>q' pos'. read_bulk_len e c pos = Inr (LenOk (c\<lparr>querybuf := q', bulklen := int (length a)\<rparr>) pos') \<and>
        at_pos (c\<lparr>querybuf := q'\<rparr>) pos' \<and> ahead (c\<lparr>querybuf := q'\<rparr>) pos' @ fut = a @ crlf @ X \<and> sdslen q' \<le> sdslen (querybuf c)"
    and "\<not> length (dec (length a)) + 2 < length (ahead c pos) \<Longrightarrow> sdslen (querybuf c) \<le> PROTO_INLINE_MAX_SIZE \<Longrightarrow>
      read_bulk_len e c pos = Inr LenBreak"
proof -
  let ?q = "querybuf c" and ?n = "length (dec (length a))"
  define p where "p = nat pos"
  have p: "pos = int p" "p \<le> sdslen ?q" "sds_ok ?q" "sdslen ?q < 2 ^ 31"
    using q by (auto simp: p_def at_pos_def)
  have l: "length (sdsval ?q) = sdslen ?q" using p(3) by simp
  have str': "ahead c pos @ fut = (CHR ''$'' # dec (length a)) @ CR # LF # (a @ crlf @ X)"
    using str by (simp add: resp_bulk_def crlf_def)
  have chs: "CHR ''$'' \<noteq> CR" "CHR ''$'' \<noteq> NUL" by simp_all
  note h = bulk_header [OF str' chs]
  have f: "find_char ?q CR pos = Inr (map_option (\<lambda>i. pos + int i) (strchr (cstr (ahead c pos)) CR))"
    using find_char_ok [OF p(3,2), of CR] by (simp add: p(1))
  have len: "length (ahead c pos) = sdslen ?q - p" using l by (simp add: p(1))
  have last: "ck_int32 (to_int32 (int (sdslen ?q)) - 2) = Inr (int (sdslen ?q) - 2)"
    using p(4) by (simp add: ck_int32_def in_int32_def to_int32_def)
  show "read_bulk_len e c pos = Inr LenBreak"
    if short: "\<not> ?n + 2 < length (ahead c pos)" and small: "sdslen ?q \<le> PROTO_INLINE_MAX_SIZE"
  proof (cases "?n + 1 < length (ahead c pos)")
    case True
    then have "pos + (int ?n + 1) > int (sdslen ?q) - 2" using short len p(1,2) by simp
    then show ?thesis using h(2) [OF True] f last by (simp add: read_bulk_len_def Let_def)
  next
    case False
    then have none: "strchr (cstr (ahead c pos)) CR = None" using h(1) by linarith
    show ?thesis unfolding read_bulk_len_def Let_def f none using small by simp
  qed
  assume long: "?n + 2 < length (ahead c pos)"
  then have nl: "strchr (cstr (ahead c pos)) CR = Some (?n + 1)" using h(2) by simp
  note D = h(3) [OF long]
  have le: "\<not> pos + (int ?n + 1) > int (sdslen ?q) - 2" using long len p(1,2) by simp
  have "p < sdslen ?q" using long len by simp
  then have first: "rd (hdr_buf ?q) p = Inr (CHR ''$'')"
    using rd_buf [OF p(3)] D l by (metis Cons_nth_drop_Suc append_Cons list.inject p(1) nat_int)
  have num: "rd_bytes (hdr_buf ?q) (Suc p) ?n = Inr (dec (length a))"
  proof -
    have "drop (Suc p) (sdsval ?q) = dec (length a) @ CR # LF # drop (?n + 3) (ahead c pos)"
      using arg_cong [OF conjunct1 [OF D], of tl] by (simp add: p(1) drop_Suc tl_drop)
    then show ?thesis using rd_bytes_buf [OF p(3), of "Suc p" ?n] long len by simp
  qed
  have s2: "string2ll (dec (length a)) = Some (int (length a))"
    using string2ll_deci [of "int (length a)"] a by (simp add: deci_def in_int64_def)
  have ns: "nat (pos + 1) = Suc p" "nat (pos + (int ?n + 1) - (pos + 1)) = ?n" "nat pos = p" using p(1) by simp_all
  have p1: "pos + (int ?n + 1) + 2 = int (p + ?n + 3)" using p(1) by simp
  have nb: "\<not> (Some (int (length a)) = None \<or> the (Some (int (length a))) < 0 \<or> the (Some (int (length a))) > 512 * 1024 * 1024)"
    and nf: "\<not> CHR ''$'' \<noteq> CHR ''$''" using a by auto
  have nlf: "find_char ?q CR pos = Inr (Some (pos + (int ?n + 1)))" using f nl by simp
  note head = read_bulk_len_def Let_def nlf rbind_simps option.case last if_not_P [OF le] ns first if_not_P [OF nf] num s2
    if_not_P [OF nb] p1
  have ah: "drop (p + ?n + 3) (sdsval ?q) = drop (?n + 3) (ahead c pos)" by (simp add: p(1) ac_simps)
  have big: "\<exists>q'. sdsrange ?q (int (p + ?n + 3)) (-1) = Inr q' \<and> sds_ok q' \<and> sdsval q' = drop (?n + 3) (ahead c pos)"
    using sdsrange_suffix [OF p(3,4), of "p + ?n + 3"] long len p(4) ah by simp
  show "\<exists>q' pos'. read_bulk_len e c pos = Inr (LenOk (c\<lparr>querybuf := q', bulklen := int (length a)\<rparr>) pos') \<and>
        at_pos (c\<lparr>querybuf := q'\<rparr>) pos' \<and> ahead (c\<lparr>querybuf := q'\<rparr>) pos' @ fut = a @ crlf @ X \<and> sdslen q' \<le> sdslen ?q"
  proof (cases "int (length a) \<ge> PROTO_MBULK_BIG_ARG")
    case True
    obtain q1 where q1: "sdsrange ?q (int (p + ?n + 3)) (-1) = Inr q1" "sds_ok q1" "sdsval q1 = drop (?n + 3) (ahead c pos)"
      using big by blast
    have lq: "sdslen q1 \<le> sdslen ?q" using arg_cong [OF q1(3), of length] q1(2) len by simp
    obtain q2 where q2: "(if int (sdslen q1) < int (length a) + 2 then sdsMakeRoomFor (junk e) q1 (nat (int (length a) + 2 - int (sdslen q1)))
        else Inr q1) = Inr q2" "sds_ok q2" "sdsval q2 = sdsval q1"
    proof (cases "int (sdslen q1) < int (length a) + 2")
      case True
      moreover have "sdslen q1 + nat (int (length a) + 2 - int (sdslen q1)) < 2 ^ 63" using True a by simp
      ultimately show ?thesis using sdsMakeRoomFor_ok [OF q1(2), of _ "junk e"] that by auto
    next
      case False
      then show ?thesis using that q1(2) by simp
    qed
    have lq2: "sdslen q2 = sdslen q1" using q1(2) q2(2,3) by (metis length_sdsval)
    have "read_bulk_len e c pos = Inr (LenOk (c\<lparr>querybuf := q2, bulklen := int (length a)\<rparr>) 0)"
      unfolding head option.sel if_P [OF True] q1(1) rbind_simps q2(1) using a by simp
    moreover have "at_pos (c\<lparr>querybuf := q2\<rparr>) 0" using q2(2) lq lq2 p(4) by (simp add: at_pos_def)
    moreover have "ahead (c\<lparr>querybuf := q2\<rparr>) 0 @ fut = a @ crlf @ X" using q2(3) q1(3) D by simp
    ultimately show ?thesis using lq lq2 by (intro exI [of _ q2] exI [of _ 0]) simp
  next
    case False
    have "read_bulk_len e c pos = Inr (LenOk (c\<lparr>bulklen := int (length a)\<rparr>) (int (p + ?n + 3)))"
      unfolding head option.sel if_not_P [OF False] using a by simp
    moreover have "at_pos c (int (p + ?n + 3))" using p long len by (simp add: at_pos_def)
    moreover have "ahead c (int (p + ?n + 3)) @ fut = a @ crlf @ X" unfolding nat_int ah using D by blast
    ultimately show ?thesis by (intro exI [of _ ?q] exI [of _ "int (p + ?n + 3)"]) simp
  qed
qed

text \<open>The objects of arguments: strings with a buffer, never integers.\<close>

definition arg_obj :: "robj \<Rightarrow> bool" where
  "arg_obj v \<longleftrightarrow> str_obj v \<and> sdsEncodedObject v"

lemma args_str: "list_all arg_obj a \<Longrightarrow> list_all str_obj a"
  by (simp add: arg_obj_def list_all_iff)

lemma createStringObject_encoded: "createStringObject clock (Some p) n = Inr o' \<Longrightarrow> sdsEncodedObject o'"
  by (auto simp: createStringObject_def createEmbeddedStringObject_def createRawStringObject_def
      createObject_def sdsEncodedObject_def split: if_splits)

lemma read_bulk_arg_ok:
  assumes q: "at_pos c pos" and str: "ahead c pos @ fut = a @ crlf @ X"
    and a: "length a \<le> 512 * 1024 * 1024" "bulklen c = int (length a)"
  shows "length a + 1 < length (ahead c pos) \<Longrightarrow>
      \<exists>q' pos' o'. read_bulk_arg e c pos =
          Inr (Some (c\<lparr>querybuf := q', argv := argv c @ [o'], bulklen := -1, multibulklen := multibulklen c - 1\<rparr>, pos')) \<and>
        at_pos (c\<lparr>querybuf := q'\<rparr>) pos' \<and> ahead (c\<lparr>querybuf := q'\<rparr>) pos' @ fut = X \<and>
        arg_obj o' \<and> obj_text o' = a \<and> sdslen q' \<le> sdslen (querybuf c)"
    and "\<not> length a + 1 < length (ahead c pos) \<Longrightarrow> read_bulk_arg e c pos = Inr None"
proof -
  let ?q = "querybuf c"
  define p where "p = nat pos"
  have p: "pos = int p" "p \<le> sdslen ?q" "sds_ok ?q" "sdslen ?q < 2 ^ 31"
    using q by (auto simp: p_def at_pos_def)
  have l: "length (sdsval ?q) = sdslen ?q" using p(3) by simp
  have len: "length (ahead c pos) = sdslen ?q - p" using l by (simp add: p(1))
  have u: "to_uint64 (int (sdslen ?q) - pos) = sdslen ?q - p"
    using to_uint64_of_nat [of "sdslen ?q - p"] p by (simp add: of_nat_diff)
  have v: "to_uint32 (bulklen c + 2) = length a + 2" using to_uint32_of_nat [of "length a + 2"] a by (simp add: add.commute)
  show "read_bulk_arg e c pos = Inr None" if "\<not> length a + 1 < length (ahead c pos)"
    using that len unfolding read_bulk_arg_def Let_def u v by simp
  assume long: "length a + 1 < length (ahead c pos)"
  then have more: "\<not> sdslen ?q - p < length a + 2" using len by simp
  have split: "take (length a) (ahead c pos) = a" "drop (length a + 2) (ahead c pos) @ fut = X"
  proof -
    have "take (length a) (ahead c pos @ fut) = a" "drop (length a + 2) (ahead c pos @ fut) = X"
      using str by (simp_all add: crlf_def)
    then show "take (length a) (ahead c pos) = a" "drop (length a + 2) (ahead c pos) @ fut = X" using long by simp_all
  qed
  let ?goal = "\<exists>q' pos' o'. read_bulk_arg e c pos =
          Inr (Some (c\<lparr>querybuf := q', argv := argv c @ [o'], bulklen := -1, multibulklen := multibulklen c - 1\<rparr>, pos')) \<and>
        at_pos (c\<lparr>querybuf := q'\<rparr>) pos' \<and> ahead (c\<lparr>querybuf := q'\<rparr>) pos' @ fut = X \<and>
        arg_obj o' \<and> obj_text o' = a \<and> sdslen q' \<le> sdslen ?q"
  show ?goal
  proof (cases "pos = 0 \<and> bulklen c \<ge> PROTO_MBULK_BIG_ARG \<and> to_int32 (int (sdslen ?q)) = bulklen c + 2")
    case True
    then have whole: "sdslen ?q = length a + 2" "p = 0" using p a by (simp_all add: to_int32_def)
    obtain s where s: "sdsIncrLen ?q (- 2) = Inr s" "sds_ok s" "sdsval s = a"
      using sdsIncrLen_shrink [OF p(3), of 2] whole split(1) by (auto simp: p(1))
    obtain q1 where q1: "sdsnewlen None (nat (bulklen c + 2)) = Inr q1" "sds_ok q1"
      using sdsnewlen_ok(2) [of "length a + 2"] a by (auto simp: nat_add_distrib)
    obtain q2 where q2: "sdsclear q1 = Inr q2" "sds_ok q2" "sdsval q2 = []" using sdsclear_ok [OF q1(2)] by blast
    let ?o = "createObject (lruclock e) OBJ_STRING (PSds s)"
    have "arg_obj ?o" "obj_text ?o = a"
      using createObject_sds [OF s(2)] s(3) by (auto simp: arg_obj_def createObject_def sdsEncodedObject_def)
    moreover have "X = fut" using split(2) len whole by simp
    moreover have "sdslen q2 = 0" using q2(2,3) by (metis length_sdsval list.size(3))
    moreover have "read_bulk_arg e c pos = Inr (Some (c\<lparr>querybuf := q2, argv := argv c @ [?o], bulklen := -1,
        multibulklen := multibulklen c - 1\<rparr>, 0))"
      unfolding read_bulk_arg_def Let_def u v if_not_P [OF more] if_P [OF True] s(1) rbind_simps q1(1) q2(1) by simp
    ultimately show ?goal using q2(2,3) by (intro exI [of _ q2] exI [of _ 0] exI [of _ ?o]) (simp add: at_pos_def)
  next
    case False
    have fit: "p + length a \<le> sdslen ?q" using more by linarith
    obtain o' where o': "createStringObject (lruclock e) (Some (drop p (hdr_buf ?q))) (length a) = Inr o'" "arg_obj o'" "obj_text o' = a"
      using createStringObject_encoded [of "lruclock e" "drop p (hdr_buf ?q)" "length a"] createStringObject_ok [of "length a" "drop p (hdr_buf ?q)" "lruclock e"] drop_buf [OF p(3) fit] a split(1)
      by (auto simp: p(1) arg_obj_def)
    have n: "nat pos = p" "nat (bulklen c) = length a" using p(1) a(2) by simp_all
    let ?pos = "pos + bulklen c + 2"
    have "read_bulk_arg e c pos = Inr (Some (c\<lparr>querybuf := ?q, argv := argv c @ [o'], bulklen := -1,
        multibulklen := multibulklen c - 1\<rparr>, ?pos))"
      unfolding read_bulk_arg_def Let_def u v if_not_P [OF more] if_not_P [OF False] n o'(1) rbind_simps by simp
    moreover have "at_pos c ?pos" using p a more by (simp add: at_pos_def nat_add_distrib)
    moreover have "ahead c ?pos @ fut = X" using split(2) p(1) a(2) by (simp add: nat_add_distrib ac_simps)
    ultimately show ?goal using o' by (intro exI [of _ ?q] exI [of _ ?pos] exI [of _ o']) simp
  qed
qed

subsection \<open>A whole request\<close>

text \<open>
  The texts a client that has read the first \<open>k\<close> arguments of \<open>as\<close> still waits for: \<open>expects as k c t\<close>
  with \<open>t\<close> the protocol text from there on. Beyond its buffer and parser state the client is unchanged.
\<close>

definition expects :: "string list \<Rightarrow> nat \<Rightarrow> client \<Rightarrow> string \<Rightarrow> bool" where
  "expects as k c t \<longleftrightarrow> k \<le> length as \<and> multibulklen c = int (length as - k) \<and>
     list_all arg_obj (argv c) \<and> map obj_text (argv c) = take k as \<and>
     (bulklen c = -1 \<and> t = concat (map resp_bulk (drop k as)) \<or>
      k < length as \<and> bulklen c = int (length (as ! k)) \<and> t = as ! k @ crlf @ concat (map resp_bulk (drop (Suc k) as)))"

definition same_else :: "client \<Rightarrow> client \<Rightarrow> bool" where
  "same_else c c' \<longleftrightarrow> (\<exists>q m b a. c' = c\<lparr>querybuf := q, multibulklen := m, bulklen := b, argv := a\<rparr>)"

lemma same_else_refl [simp]: "same_else c c"
  unfolding same_else_def by (intro exI [of _ "querybuf c"] exI [of _ "multibulklen c"] exI [of _ "bulklen c"] exI [of _ "argv c"]) simp

lemma same_else_trans: "same_else a b \<Longrightarrow> same_else b c \<Longrightarrow> same_else a c"
  by (fastforce simp: same_else_def)

lemma same_else_upd [simp]:
  "same_else c (c\<lparr>querybuf := q\<rparr>)" "same_else c (c\<lparr>querybuf := q, bulklen := b\<rparr>)"
  "same_else c (c\<lparr>querybuf := q, argv := a, bulklen := b, multibulklen := m\<rparr>)"
  "same_else c (c\<lparr>multibulklen := m, argv := a\<rparr>)"
  unfolding same_else_def by (cases c, simp)+

lemma expects_start:
  assumes "expects as k c t" "bulklen c = -1" "k < length as"
  shows "t = resp_bulk (as ! k) @ concat (map resp_bulk (drop (Suc k) as))"
  using assms by (auto simp: expects_def Cons_nth_drop_Suc [OF assms(3), symmetric])

lemma bulk_loop_ok:
  assumes "expects as k c t" "at_pos c pos" "ahead c pos @ fut = t @ aft"
    and "\<forall>a \<in> set as. length a \<le> 512 * 1024 * 1024"
    and "length fut \<le> length aft \<or> sdslen (querybuf c) \<le> PROTO_INLINE_MAX_SIZE"
  shows "\<exists>c' pos' k' t'. bulk_loop e (length as - k) c pos = Inr (MbStop c' pos') \<and> expects as k' c' t' \<and> at_pos c' pos' \<and>
    ahead c' pos' @ fut = t' @ aft \<and> same_else c c' \<and> sdslen (querybuf c') \<le> sdslen (querybuf c) \<and>
    (k' = length as \<longleftrightarrow> length fut \<le> length aft) \<and> (bulklen c' \<noteq> -1 \<longrightarrow> int (length (ahead c' pos')) < bulklen c' + 2)"
  using assms
proof (induction "length as - k" arbitrary: k c t pos)
  case 0
  then have k: "k = length as" by (auto simp: expects_def)
  then have "t = []" using 0 by (auto simp: expects_def)
  then have "length fut \<le> length aft" using arg_cong [OF "0.prems"(3), of length] by simp
  then show ?case using 0 k unfolding expects_def by (intro exI [of _ c] exI [of _ pos] exI [of _ k] exI [of _ t]) auto
next
  case (Suc n)
  then have k: "k < length as" "n = length as - Suc k" "Suc n = length as - k" by auto
  let ?a = "as ! k" and ?R = "concat (map resp_bulk (drop (Suc k) as))"
  have a: "length ?a \<le> 512 * 1024 * 1024" using Suc.prems(4) k(1) by simp
  have stop: ?case if "bulk_loop e (Suc n) c pos = Inr (MbStop c1 pos1)" "expects as k c1 t1" "at_pos c1 pos1"
      "ahead c1 pos1 @ fut = t1 @ aft" "same_else c c1" "sdslen (querybuf c1) \<le> sdslen (querybuf c)" "length aft < length fut"
      "bulklen c1 \<noteq> -1 \<longrightarrow> int (length (ahead c1 pos1)) < bulklen c1 + 2" for c1 pos1 t1
    using that k(1) unfolding k(3) [symmetric]
    by (intro exI [of _ c1] exI [of _ pos1] exI [of _ k] exI [of _ t1]) (simp del: bulk_loop.simps)
  have arg: ?case if c1: "(if bulklen c = -1 then read_bulk_len e c pos else Inr (LenOk c pos)) = Inr (LenOk c1 pos1)"
      "at_pos c1 pos1" "ahead c1 pos1 @ fut = ?a @ crlf @ ?R @ aft" "bulklen c1 = int (length ?a)" "same_else c c1"
      "sdslen (querybuf c1) \<le> sdslen (querybuf c)" "argv c1 = argv c" "multibulklen c1 = multibulklen c" for c1 pos1
  proof (cases "length ?a + 1 < length (ahead c1 pos1)")
    case True
    from read_bulk_arg_ok(1) [OF c1(2,3) a c1(4) True, of e] obtain q' pos' o' where
      r: "read_bulk_arg e c1 pos1 = Inr (Some (c1\<lparr>querybuf := q', argv := argv c1 @ [o'], bulklen := -1,
            multibulklen := multibulklen c1 - 1\<rparr>, pos'))"
        "at_pos (c1\<lparr>querybuf := q'\<rparr>) pos'" "ahead (c1\<lparr>querybuf := q'\<rparr>) pos' @ fut = ?R @ aft" "arg_obj o'" "obj_text o' = ?a"
        "sdslen q' \<le> sdslen (querybuf c1)" by blast
    let ?c = "c1\<lparr>querybuf := q', argv := argv c1 @ [o'], bulklen := -1, multibulklen := multibulklen c1 - 1\<rparr>"
    have ex: "expects as (Suc k) ?c ?R" using Suc.prems(1) c1(7,8) r(4,5) k by (auto simp: expects_def take_Suc_conv_app_nth)
    have at: "at_pos ?c pos'" "ahead ?c pos' @ fut = ?R @ aft" using r(2,3) by (simp_all add: at_pos_def)
    have sm: "length fut \<le> length aft \<or> sdslen (querybuf ?c) \<le> PROTO_INLINE_MAX_SIZE" using Suc.prems(5) r(6) c1(6) by auto
    from Suc.hyps(1) [OF k(2) ex at Suc.prems(4) sm] obtain c' pos'' k' t' where
      f: "bulk_loop e n ?c pos' = Inr (MbStop c' pos'')" "expects as k' c' t'" "at_pos c' pos''"
        "ahead c' pos'' @ fut = t' @ aft" "same_else ?c c'" "sdslen (querybuf c') \<le> sdslen (querybuf ?c)"
        "k' = length as \<longleftrightarrow> length fut \<le> length aft" "bulklen c' \<noteq> -1 \<longrightarrow> int (length (ahead c' pos'')) < bulklen c' + 2"
      unfolding k(2) by blast
    have "bulk_loop e (Suc n) c pos = Inr (MbStop c' pos'')"
      using c1(1) r(1) f(1) by simp
    moreover have "same_else c c'" using same_else_trans [OF c1(5)] same_else_trans [OF same_else_upd(3) f(5)] by blast
    moreover have "sdslen (querybuf c') \<le> sdslen (querybuf c)" using f(6) r(6) c1(6) by simp
    ultimately show ?thesis using f(2-4,7,8) unfolding k(3) [symmetric]
      by (intro exI [of _ c'] exI [of _ pos''] exI [of _ k'] exI [of _ t']) (simp del: bulk_loop.simps)
  next
    case False
    note n = read_bulk_arg_ok(2) [OF c1(2,3) a c1(4) False, of e]
    have "length aft < length fut" using False arg_cong [OF c1(3), of length] by (simp add: crlf_def)
    moreover have "expects as k c1 (?a @ crlf @ ?R)" using Suc.prems(1) c1(4,7,8) k by (auto simp: expects_def)
    moreover have "int (length (ahead c1 pos1)) < bulklen c1 + 2" using False c1(4) by linarith
    ultimately show ?thesis using stop [of c1 pos1 "?a @ crlf @ ?R"] c1 n by auto
  qed
  show ?case
  proof (cases "bulklen c = -1")
    case True
    note t = expects_start [OF Suc.prems(1) True k(1)]
    have str: "ahead c pos @ fut = resp_bulk ?a @ (?R @ aft)" using Suc.prems(3) t by simp
    show ?thesis
    proof (cases "length (dec (length ?a)) + 2 < length (ahead c pos)")
      case long: True
      from read_bulk_len_ok(1) [OF Suc.prems(2) str a long, of e] obtain q' pos' where
        r: "read_bulk_len e c pos = Inr (LenOk (c\<lparr>querybuf := q', bulklen := int (length ?a)\<rparr>) pos')"
          "at_pos (c\<lparr>querybuf := q'\<rparr>) pos'" "ahead (c\<lparr>querybuf := q'\<rparr>) pos' @ fut = ?a @ crlf @ ?R @ aft"
          "sdslen q' \<le> sdslen (querybuf c)" by blast
      show ?thesis using r True by (intro arg [of "c\<lparr>querybuf := q', bulklen := int (length ?a)\<rparr>" pos']) (simp_all add: at_pos_def)
    next
      case short: False
      then have fm: "length aft < length fut"
        using arg_cong [OF str, of length] by (simp add: length_resp_bulk)
      then have "sdslen (querybuf c) \<le> PROTO_INLINE_MAX_SIZE" using Suc.prems(5) by auto
      from read_bulk_len_ok(2) [OF Suc.prems(2) str a short this, of e] show ?thesis
        using stop [of c pos t] Suc.prems fm True by simp
    qed
  next
    case False
    then have b: "bulklen c = int (length ?a)" "t = ?a @ crlf @ ?R" using Suc.prems(1) k by (auto simp: expects_def)
    show ?thesis using Suc.prems(2,3) b False by (intro arg [of c pos]) auto
  qed
qed

definition hungry :: "client \<Rightarrow> bool" where
  "hungry c \<longleftrightarrow> (bulklen c \<noteq> -1 \<longrightarrow> int (sdslen (querybuf c)) < bulklen c + 2)"

definition waits :: "string list \<Rightarrow> client \<Rightarrow> string \<Rightarrow> bool" where
  "waits as c t \<longleftrightarrow>
     multibulklen c = 0 \<and> bulklen c = -1 \<and> argv c = [] \<and> t = resp_command as \<or>
     (\<exists>k < length as. expects as k c t)"

lemma read_multibulk_len_ok:
  assumes q: "sds_ok (querybuf c)" "sdslen (querybuf c) < 2 ^ 31" and str: "sdsval (querybuf c) @ fut = resp_command as @ aft"
    and as: "as \<noteq> []" "length as \<le> 1024 * 1024" and c: "argv c = []" "bulklen c = -1"
  shows "length (dec (length as)) + 2 < sdslen (querybuf c) \<Longrightarrow>
      \<exists>pos. read_multibulk_len e c = Inr (HeadOk (c\<lparr>multibulklen := int (length as), argv := []\<rparr>) pos) \<and> at_pos c pos \<and>
        ahead c pos @ fut = concat (map resp_bulk as) @ aft"
    and "\<not> length (dec (length as)) + 2 < sdslen (querybuf c) \<Longrightarrow> sdslen (querybuf c) \<le> PROTO_INLINE_MAX_SIZE \<Longrightarrow>
      read_multibulk_len e c = Inr (HeadErr c)"
proof -
  let ?q = "querybuf c" and ?n = "length (dec (length as))"
  have str': "sdsval ?q @ fut = (CHR ''*'' # dec (length as)) @ CR # LF # (concat (map resp_bulk as) @ aft)"
    using str by (simp add: resp_command_def crlf_def)
  have chs: "CHR ''*'' \<noteq> CR" "CHR ''*'' \<noteq> NUL" by simp_all
  note h = bulk_header [OF str' chs, unfolded length_sdsval [OF q(1)]]
  have f: "find_char ?q CR 0 = Inr (map_option int (strchr (cstr (sdsval ?q)) CR))"
    using find_char_ok [OF q(1), of 0 CR] by simp
  have last: "ck_int32 (to_int32 (int (sdslen ?q)) - 2) = Inr (int (sdslen ?q) - 2)"
    using q(2) by (simp add: ck_int32_def in_int32_def to_int32_def)
  have as0: "rassert (argv c = []) AssertFail = Inr ()" using c(1) by simp
  show "read_multibulk_len e c = Inr (HeadErr c)"
    if short: "\<not> ?n + 2 < sdslen ?q" and small: "sdslen ?q \<le> PROTO_INLINE_MAX_SIZE"
  proof (cases "?n + 1 < sdslen ?q")
    case True
    then have "int (?n + 1) > int (sdslen ?q) - 2" using short by linarith
    then show ?thesis using h(2) [OF True] f last c(1) by (simp add: read_multibulk_len_def Let_def)
  next
    case False
    then have none: "strchr (cstr (sdsval ?q)) CR = None" using h(1) by simp
    show ?thesis unfolding read_multibulk_len_def Let_def f none using small c(1) by simp
  qed
  assume long: "?n + 2 < sdslen ?q"
  have nl: "find_char ?q CR 0 = Inr (Some (int (?n + 1)))" using h(2) f long by simp
  note D = h(3) [OF long]
  have le: "\<not> int (?n + 1) > int (sdslen ?q) - 2" using long by linarith
  have first: "rd (hdr_buf ?q) 0 = Inr (CHR ''*'')"
    using rd_buf [OF q(1), of 0] long D by (metis append_Cons nth_Cons_0 less_nat_zero_code linorder_neqE_nat)
  have num: "rd_bytes (hdr_buf ?q) 1 (nat (int (?n + 1) - 1)) = Inr (dec (length as))"
  proof -
    have "drop 1 (sdsval ?q) = dec (length as) @ CR # LF # drop (?n + 3) (sdsval ?q)"
      using arg_cong [OF conjunct1 [OF D], of tl] by (simp add: drop_Suc)
    then show ?thesis using rd_bytes_buf [OF q(1), of 1 ?n] long by simp
  qed
  have s2: "string2ll (dec (length as)) = Some (int (length as))"
    using string2ll_deci [of "int (length as)"] as by (simp add: deci_def in_int64_def)
  have nb: "\<not> (Some (int (length as)) = None \<or> int (length as) > 1024 * 1024)" "\<not> int (length as) \<le> 0"
    using as by auto
  have "read_multibulk_len e c = Inr (HeadOk (c\<lparr>multibulklen := int (length as), argv := []\<rparr>) (int (?n + 1) + 2))"
    unfolding read_multibulk_len_def Let_def as0 rbind_simps nl option.case last if_not_P [OF le] first num s2 option.sel
      if_not_P [OF nb(1)] if_not_P [OF nb(2)] by simp
  moreover have "at_pos c (int (?n + 1) + 2)" using q long by (simp add: at_pos_def)
  moreover have "ahead c (int (?n + 1) + 2) @ fut = concat (map resp_bulk as) @ aft"
  proof -
    have "nat (int (?n + 1) + 2) = ?n + 3" by simp
    then show ?thesis using conjunct2 [OF D] by metis
  qed
  ultimately show "\<exists>pos. read_multibulk_len e c = Inr (HeadOk (c\<lparr>multibulklen := int (length as), argv := []\<rparr>) pos) \<and> at_pos c pos \<and>
        ahead c pos @ fut = concat (map resp_bulk as) @ aft" by blast
qed

lemma bulk_rest_ok:
  assumes "expects as k c t" "k < length as" "at_pos c pos" "ahead c pos @ fut = t @ aft"
    and "\<forall>a \<in> set as. length a \<le> 512 * 1024 * 1024"
    and "length fut \<le> length aft \<or> sdslen (querybuf c) \<le> PROTO_INLINE_MAX_SIZE"
  shows "\<exists>c' k' t'. bulk_rest e c pos = Inr (length fut \<le> length aft, c') \<and> same_else c c' \<and> sds_ok (querybuf c') \<and>
    sdslen (querybuf c') \<le> sdslen (querybuf c) \<and> expects as k' c' t' \<and> sdsval (querybuf c') @ fut = t' @ aft \<and>
    (k' = length as \<longleftrightarrow> length fut \<le> length aft) \<and> hungry c'"
proof -
  obtain c1 pos1 k1 t1 where l: "bulk_loop e (length as - k) c pos = Inr (MbStop c1 pos1)" "expects as k1 c1 t1" "at_pos c1 pos1"
      "ahead c1 pos1 @ fut = t1 @ aft" "same_else c c1" "sdslen (querybuf c1) \<le> sdslen (querybuf c)"
      "k1 = length as \<longleftrightarrow> length fut \<le> length aft" "bulklen c1 \<noteq> -1 \<longrightarrow> int (length (ahead c1 pos1)) < bulklen c1 + 2"
    using bulk_loop_ok [OF assms(1,3-6)] by blast
  have n: "nat (multibulklen c) = length as - k" "multibulklen c > 0" using assms(1,2) by (auto simp: expects_def)
  have z: "multibulklen c1 = 0 \<longleftrightarrow> length fut \<le> length aft" using l(2,7) by (auto simp: expects_def)
  obtain q where q: "(if pos1 \<noteq> 0 then sdsrange (querybuf c1) pos1 (-1) else Inr (querybuf c1)) = Inr q" "sds_ok q" "sdsval q = ahead c1 pos1"
  proof (cases "pos1 = 0")
    case True
    then show ?thesis using that [of "querybuf c1"] l(3) by (simp add: at_pos_def)
  next
    case False
    have "sds_ok (querybuf c1)" "sdslen (querybuf c1) < 2 ^ 31" "nat pos1 < 2 ^ 31" "int (nat pos1) = pos1"
      using l(3) by (auto simp: at_pos_def)
    then show ?thesis using that sdsrange_suffix [of "querybuf c1" "nat pos1"] False by auto
  qed
  have "bulk_rest e c pos = Inr (length fut \<le> length aft, c1\<lparr>querybuf := q\<rparr>)"
    using n l(1) q(1) z by (simp add: bulk_rest_def)
  moreover have "expects as k1 (c1\<lparr>querybuf := q\<rparr>) t1" using l(2) by (simp add: expects_def)
  moreover have "hungry (c1\<lparr>querybuf := q\<rparr>)" using l(8) arg_cong [OF q(3), of length] q(2) by (simp add: hungry_def)
  moreover have "sdslen q \<le> sdslen (querybuf c)"
    using arg_cong [OF q(3), of length] q(2) l(3,6) by (simp add: at_pos_def)
  ultimately show ?thesis using l(4,7) q same_else_trans [OF l(5) same_else_upd(1)]
    by (intro exI [of _ "c1\<lparr>querybuf := q\<rparr>"] exI [of _ k1] exI [of _ t1]) simp
qed

lemma processMultibulkBuffer_ok:
  assumes w: "waits as c t" and q: "sds_ok (querybuf c)" "sdslen (querybuf c) < 2 ^ 31"
    and str: "sdsval (querybuf c) @ fut = t @ aft" and as: "as \<noteq> []" "length as \<le> 1024 * 1024"
    and args: "\<forall>a \<in> set as. length a \<le> 512 * 1024 * 1024"
    and small: "length fut \<le> length aft \<or> sdslen (querybuf c) \<le> PROTO_INLINE_MAX_SIZE"
  shows "\<exists>c'. processMultibulkBuffer e c = Inr (length fut \<le> length aft, c') \<and> same_else c c' \<and> sds_ok (querybuf c') \<and>
    sdslen (querybuf c') \<le> sdslen (querybuf c) \<and>
    (if length fut \<le> length aft
     then list_all arg_obj (argv c') \<and> map obj_text (argv c') = as \<and> sdsval (querybuf c') @ fut = aft
     else hungry c' \<and> (\<exists>t'. waits as c' t' \<and> sdsval (querybuf c') @ fut = t' @ aft))"
proof -
  have fin: ?thesis if r: "processMultibulkBuffer e c = bulk_rest e c1 pos" "expects as k c1 t1" "k < length as" "at_pos c1 pos"
    "ahead c1 pos @ fut = t1 @ aft" "same_else c c1" "querybuf c1 = querybuf c" for c1 pos k t1
  proof -
    have "length fut \<le> length aft \<or> sdslen (querybuf c1) \<le> PROTO_INLINE_MAX_SIZE" using small r(7) by simp
    from bulk_rest_ok [OF r(2-5) args this, of e] obtain c' k' t' where
      b: "bulk_rest e c1 pos = Inr (length fut \<le> length aft, c')" "same_else c1 c'" "sds_ok (querybuf c')"
        "sdslen (querybuf c') \<le> sdslen (querybuf c1)" "expects as k' c' t'" "sdsval (querybuf c') @ fut = t' @ aft"
        "k' = length as \<longleftrightarrow> length fut \<le> length aft" "hungry c'" by blast
    have "list_all arg_obj (argv c') \<and> map obj_text (argv c') = as \<and> t' = []" if "k' = length as"
      using b(5) that by (auto simp: expects_def)
    moreover have "waits as c' t'" if "k' \<noteq> length as"
      using b(5) that unfolding waits_def expects_def by (metis le_neq_implies_less)
    ultimately show ?thesis using r(1,7) b same_else_trans [OF r(6) b(2)] by auto
  qed
  show ?thesis
  proof (cases "multibulklen c = 0")
    case False
    then obtain k where k: "k < length as" "expects as k c t" using w by (auto simp: waits_def)
    show ?thesis using False k str q by (intro fin [of c 0 k t]) (simp_all add: processMultibulkBuffer_def at_pos_def)
  next
    case True
    have "\<not> expects as k c t" if "k < length as" for k using True that by (auto simp: expects_def)
    then have st: "bulklen c = -1" "argv c = []" "t = resp_command as" using w by (auto simp: waits_def)
    have str': "sdsval (querybuf c) @ fut = resp_command as @ aft" using str st(3) by simp
    note h = read_multibulk_len_ok [OF q str' as st(2,1), of e]
    show ?thesis
    proof (cases "length (dec (length as)) + 2 < sdslen (querybuf c)")
      case long: True
      from h(1) [OF this] obtain pos where
        p: "read_multibulk_len e c = Inr (HeadOk (c\<lparr>multibulklen := int (length as), argv := []\<rparr>) pos)" "at_pos c pos"
          "ahead c pos @ fut = concat (map resp_bulk as) @ aft" by blast
      let ?c = "c\<lparr>multibulklen := int (length as), argv := []\<rparr>"
      have "expects as 0 ?c (concat (map resp_bulk as))" using st by (simp add: expects_def)
      then show ?thesis using True p as(1)
        by (intro fin [of ?c pos 0 "concat (map resp_bulk as)"]) (simp_all add: processMultibulkBuffer_def at_pos_def)
    next
      case short: False
      have fm: "length aft < length fut"
        using short arg_cong [OF str', of length] q(1) by (cases as) (simp_all add: resp_command_def crlf_def length_resp_bulk)
      then have "processMultibulkBuffer e c = Inr (False, c)"
        using h(2) [OF short] small True by (simp add: processMultibulkBuffer_def)
      moreover have "hungry c" using st(1) by (simp add: hungry_def)
      ultimately show ?thesis using fm w str q(1) by auto
    qed
  qed
qed

section \<open>Requests over a connection\<close>

text \<open>
  What the loop needs of the execution of a command: it runs, it depends on the arguments only, and
  it leaves alone the query buffer, the parser state and the flags that stop the loop.
\<close>

definition stop_flags :: "client_flag set" where
  "stop_flags = {CLIENT_SLAVE, CLIENT_BLOCKED, CLIENT_CLOSE_AFTER_REPLY}"

definition parse_same :: "client \<Rightarrow> client \<Rightarrow> bool" where
  "parse_same c c' \<longleftrightarrow> querybuf c' = querybuf c \<and> list_all str_obj (argv c') \<and> flags c' \<inter> stop_flags = flags c \<inter> stop_flags"

text \<open>What the input side does to a client between two commands: it fills and cuts the query buffer, and resets.\<close>

definition input_step :: "client \<Rightarrow> client \<Rightarrow> bool" where
  "input_step c c' \<longleftrightarrow> resetClient False c = Inr c' \<or>
     (\<exists>q m b a r l p. c' = c\<lparr>querybuf := q, multibulklen := m, bulklen := b, argv := a, reqtype := r, lastinteraction := l, reploff := p\<rparr>)"

definition executor :: "('s \<Rightarrow> string list \<Rightarrow> 's) \<Rightarrow> ('s \<Rightarrow> client \<Rightarrow> (bool \<times> bool \<times> bool \<times> 's \<times> client) res) \<Rightarrow> bool" where
  "executor run exec \<longleftrightarrow> (\<forall>s c. list_all str_obj (argv c) \<longrightarrow>
     (\<exists>c'. exec s c = Inr (True, False, True, run s (map obj_text (argv c)), c') \<and> parse_same c c'))"

definition running :: "client \<Rightarrow> bool" where
  "running c \<longleftrightarrow> flags c \<inter> stop_flags = {}"

definition resp_stream :: "string list list \<Rightarrow> string" where
  "resp_stream cmds = concat (map resp_command cmds)"

definition command_ok :: "string list \<Rightarrow> bool" where
  "command_ok as \<longleftrightarrow> as \<noteq> [] \<and> length (resp_command as) \<le> 48 * 1024"

text \<open>The state between two reads: the commands not yet executed and the bytes not yet read.\<close>

definition conn :: "string list list \<Rightarrow> client \<Rightarrow> string \<Rightarrow> bool" where
  "conn cmds c net \<longleftrightarrow> sds_ok (querybuf c) \<and> running c \<and>
     (case cmds of
        [] \<Rightarrow> reqtype c = 0 \<and> multibulklen c = 0 \<and> bulklen c = -1 \<and> argv c = [] \<and> sdsval (querybuf c) = [] \<and> net = []
      | as # cs \<Rightarrow> \<exists>t. waits as c t \<and> sdsval (querybuf c) @ net = t @ resp_stream cs \<and>
          (reqtype c = PROTO_REQ_MULTIBULK \<or> reqtype c = 0 \<and> t = resp_command as))"

lemma freeStringObject_arg: "str_obj o' \<Longrightarrow> \<exists>r. decrRefCount o' = Inr r"
  by (auto simp: decrRefCount_def str_obj_def freeStringObject_def sds_of_def split: objptr.splits encoding.splits)

lemma freeClientArgv_ok: "list_all str_obj (argv c) \<Longrightarrow> freeClientArgv c = Inr (c\<lparr>argv := []\<rparr>)"
proof -
  assume "list_all str_obj (argv c)"
  then have "\<exists>ys. rmap decrRefCount (argv c) = Inr ys"
    using rmap_ex [of "argv c" decrRefCount "\<lambda>_ _. True"] freeStringObject_arg by (auto simp: list_all_iff)
  then show ?thesis by (auto simp: freeClientArgv_def)
qed

lemma resetClient_ok:
  assumes "list_all str_obj (argv c)"
  shows "\<exists>c'. resetClient False c = Inr c' \<and> reqtype c' = 0 \<and> multibulklen c' = 0 \<and> bulklen c' = -1 \<and> argv c' = [] \<and>
    querybuf c' = querybuf c \<and> flags c' \<inter> stop_flags = flags c \<inter> stop_flags"
  using freeClientArgv_ok [OF assms] by (auto simp: resetClient_def Let_def stop_flags_def)

lemma waits_fresh: "multibulklen c = 0 \<Longrightarrow> bulklen c = -1 \<Longrightarrow> argv c = [] \<Longrightarrow> waits as c (resp_command as)"
  by (simp add: waits_def)

lemma waits_nonempty: "waits as c t \<Longrightarrow> t \<noteq> []"
proof -
  assume "waits as c t"
  then consider "t = resp_command as" | k where "k < length as" "expects as k c t" by (auto simp: waits_def)
  then show ?thesis
  proof cases
    case 1
    then show ?thesis by (simp add: resp_command_def)
  next
    case (2 k)
    then have "drop k as \<noteq> []" by simp
    then show ?thesis using 2 by (cases "drop k as") (auto simp: expects_def resp_bulk_def crlf_def)
  qed
qed

lemma conn_next:
  assumes "reqtype c = 0" "multibulklen c = 0" "bulklen c = -1" "argv c = []" "sds_ok (querybuf c)" "running c"
    and "sdsval (querybuf c) @ net = resp_stream cs"
  shows "conn cs c net"
  using assms waits_fresh [OF assms(2-4)] by (cases cs) (auto simp: conn_def resp_stream_def)

lemma same_else_fields:
  "same_else c c' \<Longrightarrow> flags c' = flags c \<and> reqtype c' = reqtype c"
  by (auto simp: same_else_def)

lemma args_small: "command_ok as \<Longrightarrow> a \<in> set as \<Longrightarrow> length a \<le> 512 * 1024 * 1024"
  and args_count: "command_ok as \<Longrightarrow> length as \<le> 1024 * 1024"
proof -
  assume ok: "command_ok as"
  have l: "length (concat (map resp_bulk as)) \<le> 48 * 1024" using ok by (simp add: command_ok_def resp_command_def)
  have "length as \<le> length (concat (map resp_bulk as))" by (induction as) (auto simp: length_resp_bulk)
  then show "length as \<le> 1024 * 1024" using l by linarith
  have "length a \<le> length (concat (map resp_bulk as))" if "a \<in> set as" using that
    by (induction as) (auto simp: length_resp_bulk)
  then show "a \<in> set as \<Longrightarrow> length a \<le> 512 * 1024 * 1024" using l by linarith
qed

subsection \<open>Reads of any size\<close>

text \<open>
  A connection over which the peer sends the bytes \<open>net\<close>: each read brings at most the given number
  of bytes, and at most what \<open>readQueryFromClient\<close> asks for. No result when the client was freed or
  the loop ran out of rounds.
\<close>

fun read_all ::
  "env \<Rightarrow> nat \<Rightarrow> ('s \<Rightarrow> client \<Rightarrow> (bool \<times> bool \<times> bool \<times> 's \<times> client) res) \<Rightarrow> nat \<Rightarrow> nat list \<Rightarrow> string \<Rightarrow> 's \<Rightarrow> client \<Rightarrow>
   ('s \<times> client) option res" where
  "read_all e maxlen exec n [] net s c = Inr (Some (s, c))"
| "read_all e maxlen exec n (k # ks) net s c =
     (if net = [] then Inr (Some (s, c))
      else
        let t = take (min k (nat (query_readlen c))) net in
        rbind (readQueryFromClient e False maxlen exec n s c (ReadBytes t)) (\<lambda>r.
        case r of
          Some (s', Some c') \<Rightarrow> read_all e maxlen exec n ks (drop (length t) net) s' c'
        | _ \<Rightarrow> Inr None))"

lemma sdsMakeRoomFor_type:
  assumes "sdsMakeRoomFor jk s n = Inr s'" "0 < n"
  shows "hdr_type s' \<noteq> SDS_TYPE_5"
proof (cases "sdsavail s \<ge> n")
  case True
  then show ?thesis using assms by (auto simp: sdsMakeRoomFor_def sdsavail_def split: if_splits)
next
  case False
  then show ?thesis using assms sds_grow_type_fits(2)
    by (auto simp: sdsMakeRoomFor_def Let_def sds_realloc_def sdssetalloc_def sdssetlen_def split: if_splits)
qed

lemma take_upd_last: "take n b = v \<Longrightarrow> n < length b \<Longrightarrow> take (Suc n) (b[n := x]) = v @ [x]"
  by (simp add: take_Suc_conv_app_nth)

lemma read_into_ok:
  assumes "sds_ok q" "sdslen q + n < 2 ^ 31" "0 < length t" "length t \<le> n"
  shows "\<exists>q1 b q2. sdsMakeRoomFor jk q n = Inr q1 \<and> wr_bytes (hdr_buf q1) (sdslen q) t = Inr b \<and>
    sdsIncrLen (q1\<lparr>hdr_buf := b\<rparr>) (int (length t)) = Inr q2 \<and> sds_ok q2 \<and> sdsval q2 = sdsval q @ t"
proof -
  have "sdslen q + n < 2 ^ 63" using assms(2) by simp
  from sdsMakeRoomFor_ok [OF assms(1) this, of jk] obtain q1 where
    q1: "sdsMakeRoomFor jk q n = Inr q1" "sds_ok q1" "sdsval q1 = sdsval q" "sdslen q1 = sdslen q" "sdslen q + n \<le> sdsalloc q1" by blast
  have ty: "hdr_type q1 \<noteq> SDS_TYPE_5" using sdsMakeRoomFor_type [OF q1(1)] assms(3,4) by simp
  have al: "sdsalloc q1 < length (hdr_buf q1)" using q1(2) by (simp add: sds_ok_def)
  let ?b = "take (sdslen q) (hdr_buf q1) @ t @ drop (sdslen q + length t) (hdr_buf q1)"
  have b: "wr_bytes (hdr_buf q1) (sdslen q) t = Inr ?b" using al q1(5) assms(4) by (simp add: wr_bytes_def)
  let ?n = "sdslen q + length t"
  let ?q2 = "q1\<lparr>hdr_len := ?n, hdr_buf := ?b[?n := NUL]\<rparr>"
  have room: "sds_room (q1\<lparr>hdr_buf := ?b\<rparr>) = int (sdsavail q1)"
    using sds_room_eq [OF q1(2) ty] by (simp add: sds_room_def)
  have av: "length t \<le> sdsavail q1" using sdsavail_eq [OF q1(2)] q1(4,5) assms(4) by simp
  have fits: "?n < 2 ^ sds_bits (hdr_type q1)" using q1(2,5) assms(4) by (simp add: sds_ok_def)
  have len: "nat ((int (sdslen q) + int (length t)) mod 2 ^ sds_bits (hdr_type q1)) = ?n"
    using fits by (metis mod_less nat_int of_nat_add of_nat_mod of_nat_numeral of_nat_power)
  have lb: "length ?b = length (hdr_buf q1)" using al q1(5) assms(4) by simp
  have "sdsIncrLen (q1\<lparr>hdr_buf := ?b\<rparr>) (int (length t)) = Inr ?q2"
    unfolding sdsIncrLen_def Let_def using ty room av len lb al q1(4,5) assms(3,4)
    by (simp add: wr_def sdslen_def)
  moreover have "sds_ok ?q2 \<and> sdsval ?q2 = sdsval q @ t"
  proof (rule sds_okI)
    show "hdr_len ?q2 \<le> sdsalloc ?q2" "sdsalloc ?q2 < length (hdr_buf ?q2)" "sdsalloc ?q2 < 2 ^ sds_bits (hdr_type ?q2)"
      using q1(2,5) ty assms(4) lb al by (auto simp: sdsalloc_def sds_ok_def)
    have pre: "take (sdslen q) (hdr_buf q1) = sdsval q" using take_bufI [OF q1(2)] q1(3,4) by simp
    have lp: "length (sdsval q) = sdslen q" using assms(1) by simp
    have tk: "take ?n ?b = sdsval q @ t" unfolding pre using lp by simp
    have "?n < length ?b" using lb al q1(5) assms(4) by linarith
    then show "take (Suc (hdr_len ?q2)) (hdr_buf ?q2) = (sdsval q @ t) @ [NUL]"
      using take_upd_last [OF tk] by simp
  qed
  ultimately show ?thesis using q1(1) b by blast
qed

lemma waits_length: "waits as c t \<Longrightarrow> length t \<le> length (resp_command as)"
proof -
  have tails: "length (concat (map resp_bulk (drop k as))) \<le> length (concat (map resp_bulk as))" for k
    by (metis append_take_drop_id concat_append le_add2 length_append map_append)
  assume "waits as c t"
  then consider "t = resp_command as" | k where "k < length as" "expects as k c t" by (auto simp: waits_def)
  then show ?thesis
  proof cases
    case (2 k)
    then have "length t \<le> length (concat (map resp_bulk (drop k as)))"
      by (auto simp: expects_def Cons_nth_drop_Suc [symmetric] length_resp_bulk crlf_def)
    then show ?thesis using tails [of k] by (simp add: resp_command_def)
  qed simp
qed

lemma query_readlen_ok:
  assumes "waits as c t" "command_ok as" "hungry c" "sdslen (querybuf c) < 2 ^ 31"
  shows "0 < query_readlen c" "query_readlen c \<le> PROTO_IOBUF_LEN"
proof -
  show "query_readlen c \<le> PROTO_IOBUF_LEN" by (simp add: query_readlen_def)
  show "0 < query_readlen c"
  proof (cases "bulklen c = -1")
    case True
    then show ?thesis by (simp add: query_readlen_def PROTO_IOBUF_LEN_def)
  next
    case False
    then obtain k where k: "k < length as" "bulklen c = int (length (as ! k))" using assms(1) by (auto simp: waits_def expects_def)
    have b: "bulklen c \<le> 512 * 1024 * 1024" using args_small [OF assms(2), of "as ! k"] k by simp
    have "to_uint32 (bulklen c + 2) = nat (bulklen c + 2)" using b k(2) by (simp add: to_uint32_def)
    then have "to_int32 (int (to_uint32 (bulklen c + 2)) - int (sdslen (querybuf c))) = bulklen c + 2 - int (sdslen (querybuf c))"
      using b k(2) assms(4) by (simp add: to_int32_def)
    then show ?thesis using assms(3) False by (simp add: query_readlen_def PROTO_IOBUF_LEN_def hungry_def)
  qed
qed

lemma conn_fields:
  assumes "waits as c t" "querybuf c' = q" "argv c' = argv c" "multibulklen c' = multibulklen c" "bulklen c' = bulklen c"
  shows "waits as c' t"
  using assms by (simp add: waits_def expects_def)

subsection \<open>The interface of a command server\<close>

text \<open>
  What the input side needs of the execution of commands. \<open>ready_for s cmds c\<close> says that the commands may be
  executed one after the other: executing the first leads to a state that is ready for the rest and leaves
  the input side of the client alone, and reading input keeps the client ready.
\<close>

locale command_server =
  fixes exec :: "'s \<Rightarrow> client \<Rightarrow> (bool \<times> bool \<times> bool \<times> 's \<times> client) res"
    and ready_for :: "'s \<Rightarrow> string list list \<Rightarrow> client \<Rightarrow> bool"
  assumes exec_law: "ready_for s (as # cmds) c \<Longrightarrow> list_all arg_obj (argv c) \<Longrightarrow> map obj_text (argv c) = as \<Longrightarrow>
      \<exists>s' c'. exec s c = Inr (True, False, True, s', c') \<and> parse_same c c' \<and> ready_for s' cmds c'"
    and input_law: "ready_for s cmds c \<Longrightarrow> input_step c c' \<Longrightarrow> ready_for s cmds c'"
begin

lemma processInputBuffer_conn:
  assumes "ready_for s cmds c" "conn cmds c net" "\<forall>as \<in> set cmds. command_ok as" "length cmds < n"
    and "sdslen (querybuf c) \<le> PROTO_INLINE_MAX_SIZE"
  shows "\<exists>before left s' c'. cmds = before @ left \<and> processInputBuffer e False exec n s c = Inr (Some (s', c')) \<and>
    ready_for s' left c' \<and> conn left c' net \<and> sdslen (querybuf c') \<le> sdslen (querybuf c) \<and>
    (left = [] \<or> length (resp_stream (tl left)) < length net) \<and> hungry c'"
  using assms
proof (induction cmds arbitrary: c n s)
  case Nil
  then have "sdslen (querybuf c) = 0" using length_sdsval [of "querybuf c"] by (auto simp: conn_def)
  moreover have "hungry c" using Nil by (simp add: conn_def hungry_def)
  ultimately show ?case using Nil by (cases n) auto
next
  case (Cons as cs)
  obtain t where t: "waits as c t" "sdsval (querybuf c) @ net = t @ resp_stream cs"
      "reqtype c = PROTO_REQ_MULTIBULK \<or> reqtype c = 0 \<and> t = resp_command as" and q: "sds_ok (querybuf c)" and run: "running c"
    using Cons.prems(2) by (auto simp: conn_def)
  obtain m where m: "n = Suc m" "length cs < m" using Cons.prems(4) by (cases n) auto
  have ok: "command_ok as" "\<forall>as \<in> set cs. command_ok as" using Cons.prems(3) by auto
  have len: "length (sdsval (querybuf c)) = sdslen (querybuf c)" using q by simp
  have fl: "CLIENT_BLOCKED \<notin> flags c" "CLIENT_CLOSE_AFTER_REPLY \<notin> flags c" using run by (auto simp: running_def stop_flags_def)
  show ?case
  proof (cases "sdslen (querybuf c) = 0")
    case True
    then have "length (resp_stream cs) < length net"
      using arg_cong [OF t(2), of length] len waits_nonempty [OF t(1)] by (cases t) auto
    moreover have "hungry c" using True t(1) by (auto simp: hungry_def waits_def expects_def)
    ultimately show ?thesis using True Cons.prems(2) m(1)
      by (intro exI [of _ "[]"] exI [of _ "as # cs"] exI [of _ s] exI [of _ c]) (simp add: Cons.prems(1))
  next
    case False
    define c1 where "c1 = c\<lparr>reqtype := PROTO_REQ_MULTIBULK\<rparr>"
    have first: "rd (hdr_buf (querybuf c)) 0 = Inr (CHR ''*'')" if "t = resp_command as"
    proof -
      obtain x xs where "sdsval (querybuf c) = x # xs" using False len by (cases "sdsval (querybuf c)") auto
      then have "sdsval (querybuf c) ! 0 = CHR ''*''" using t(2) that by (simp add: resp_command_def)
      then show ?thesis using rd_buf [OF q, of 0] False by simp
    qed
    have c1: "(if reqtype c = 0 then rbind (rd (hdr_buf (querybuf c)) 0) (\<lambda>first.
          Inr (c\<lparr>reqtype := if first = CHR ''*'' then PROTO_REQ_MULTIBULK else PROTO_REQ_INLINE\<rparr>)) else Inr c) = Inr c1"
    proof (cases "reqtype c = 0")
      case True
      then have "t = resp_command as" using t(3) by (simp add: PROTO_REQ_MULTIBULK_def)
      from first [OF this] True show ?thesis by (simp add: c1_def)
    next
      case False
      then have "c1 = c" using t(3) by (cases c) (simp add: c1_def)
      then show ?thesis using False by simp
    qed
    have w: "waits as c1 t" "sds_ok (querybuf c1)" "sdslen (querybuf c1) < 2 ^ 31" "sdsval (querybuf c1) @ net = t @ resp_stream cs"
        "sdslen (querybuf c1) \<le> PROTO_INLINE_MAX_SIZE"
      using t(1,2) q Cons.prems(5) by (auto simp: c1_def waits_def expects_def PROTO_INLINE_MAX_SIZE_def)
    obtain c2 where c2: "processMultibulkBuffer e c1 = Inr (length net \<le> length (resp_stream cs), c2)" "same_else c1 c2"
        "sds_ok (querybuf c2)" "sdslen (querybuf c2) \<le> sdslen (querybuf c1)"
        "if length net \<le> length (resp_stream cs)
         then list_all arg_obj (argv c2) \<and> map obj_text (argv c2) = as \<and> sdsval (querybuf c2) @ net = resp_stream cs
         else hungry c2 \<and> (\<exists>t'. waits as c2 t' \<and> sdsval (querybuf c2) @ net = t' @ resp_stream cs)"
      using processMultibulkBuffer_ok [OF w(1-4), of e] w(5) ok(1) args_small args_count
      by (auto simp: command_ok_def)
    have run2: "running c2" and rt: "reqtype c2 = PROTO_REQ_MULTIBULK"
      using same_else_fields [OF c2(2)] run by (simp_all add: c1_def running_def)
    have proc: "(if reqtype c1 = PROTO_REQ_INLINE then processInlineBuffer e c1
        else if reqtype c1 = PROTO_REQ_MULTIBULK then processMultibulkBuffer e c1 else Inl Panic) =
        Inr (length net \<le> length (resp_stream cs), c2)"
      using c2(1) by (simp add: c1_def PROTO_REQ_MULTIBULK_def PROTO_REQ_INLINE_def)
    have in2: "input_step c c2"
    proof -
      obtain q m b a where "c2 = c1\<lparr>querybuf := q, multibulklen := m, bulklen := b, argv := a\<rparr>" using c2(2) by (auto simp: same_else_def)
      then have "c2 = c\<lparr>querybuf := q, multibulklen := m, bulklen := b, argv := a, reqtype := PROTO_REQ_MULTIBULK,
        lastinteraction := lastinteraction c, reploff := reploff c\<rparr>" by (simp add: c1_def)
      then show ?thesis unfolding input_step_def by blast
    qed
    have lc: "sdslen (querybuf c1) = sdslen (querybuf c)" by (simp add: c1_def)
    note step = processInputBuffer.simps(2) [of e False exec m s c, unfolded c1 rbind_simps proc prod.case]
    show ?thesis
    proof (cases "length net \<le> length (resp_stream cs)")
      case comp: True
      then have a: "list_all arg_obj (argv c2)" "map obj_text (argv c2) = as" "sdsval (querybuf c2) @ net = resp_stream cs"
        using c2(5) by auto
      have ne: "argv c2 \<noteq> []" using a(2) ok(1) by (auto simp: command_ok_def)
      have "ready_for s (as # cs) c2" using input_law [OF Cons.prems(1) in2] .
      from exec_law [OF this a(1,2)] obtain s3 c3 where
        c3: "exec s c2 = Inr (True, False, True, s3, c3)" "parse_same c2 c3" "ready_for s3 cs c3" by blast
      have "list_all str_obj (argv c3)" using c3(2) by (simp add: parse_same_def)
      from resetClient_ok [OF this] obtain c4 where c4: "resetClient False c3 = Inr c4" "reqtype c4 = 0" "multibulklen c4 = 0"
          "bulklen c4 = -1" "argv c4 = []" "querybuf c4 = querybuf c3" "flags c4 \<inter> stop_flags = flags c3 \<inter> stop_flags" by blast
      have q4: "querybuf c4 = querybuf c2" "running c4" using c3(2) c4(6,7) run2 by (simp_all add: parse_same_def running_def)
      have "conn cs c4 net" using conn_next [OF c4(2-5)] q4 c2(3) a(3) by simp
      moreover have "ready_for s3 cs c4" using input_law [OF c3(3)] c4(1) by (simp add: input_step_def)
      ultimately obtain before left s' c' where
        i: "cs = before @ left" "processInputBuffer e False exec m s3 c4 = Inr (Some (s', c'))" "ready_for s' left c'"
          "conn left c' net" "sdslen (querybuf c') \<le> sdslen (querybuf c4)" "left = [] \<or> length (resp_stream (tl left)) < length net" "hungry c'"
        using Cons.IH [of s3 c4 m] ok(2) m(2) q4(1) c2(4) w(5) by auto
      have "processInputBuffer e False exec n s c = processInputBuffer e False exec m s3 c4"
        unfolding m(1) step using False fl comp ne c3(1) c4(1) by simp
      then show ?thesis using i q4(1) c2(4) lc
        by (intro exI [of _ "as # before"] exI [of _ left] exI [of _ s'] exI [of _ c']) simp
    next
      case part: False
      then obtain t' where t': "waits as c2 t'" "sdsval (querybuf c2) @ net = t' @ resp_stream cs" "hungry c2" using c2(5) by auto
      have "processInputBuffer e False exec n s c = Inr (Some (s, c2))" unfolding m(1) step using False fl part by simp
      moreover have "conn (as # cs) c2 net" using t'(1,2) c2(3) run2 rt by (auto simp: conn_def)
      ultimately show ?thesis using c2(4) lc part t'(3) input_law [OF Cons.prems(1) in2]
        by (intro exI [of _ "[]"] exI [of _ "as # cs"] exI [of _ s] exI [of _ c2]) simp
    qed
  qed
qed

lemma readQueryFromClient_conn:
  assumes ex: "ready_for s cmds c" and cn: "conn cmds c net" "cmds \<noteq> []" "length (resp_stream (tl cmds)) < length net" "hungry c"
    and ok: "\<forall>as \<in> set cmds. command_ok as" "length cmds < n" "PROTO_INLINE_MAX_SIZE \<le> maxlen" and k: "0 < k"
    and t: "t = take (min k (nat (query_readlen c))) net"
  shows "t \<noteq> [] \<and> (\<exists>before left s' c'. cmds = before @ left \<and>
    readQueryFromClient e False maxlen exec n s c (ReadBytes t) = Inr (Some (s', Some c')) \<and> ready_for s' left c' \<and>
    conn left c' (drop (length t) net) \<and>
    (left = [] \<or> length (resp_stream (tl left)) < length (drop (length t) net)) \<and> hungry c')"
proof -
  obtain as cs where cmds: "cmds = as # cs" using cn(2) by (cases cmds) auto
  obtain u where u: "waits as c u" "sdsval (querybuf c) @ net = u @ resp_stream cs"
      "reqtype c = PROTO_REQ_MULTIBULK \<or> reqtype c = 0 \<and> u = resp_command as" and q: "sds_ok (querybuf c)" and rn: "running c"
    using cn(1) by (auto simp: cmds conn_def)
  have cmd: "command_ok as" using ok(1) by (simp add: cmds)
  have len: "sdslen (querybuf c) < 48 * 1024"
    using arg_cong [OF u(2), of length] q cn(3) waits_length [OF u(1)] cmd by (simp add: cmds command_ok_def)
  then have l31: "sdslen (querybuf c) < 2 ^ 31" by simp
  note rl = query_readlen_ok [OF u(1) cmd cn(4) l31]
  have tl: "0 < length t" "length t \<le> nat (query_readlen c)" using rl(1) k cn(3) by (auto simp: t)
  have rl': "to_uint64 (query_readlen c) = nat (query_readlen c)"
    using to_uint64_of_nat [of "nat (query_readlen c)"] rl by (simp add: PROTO_IOBUF_LEN_def)
  have "sdslen (querybuf c) + nat (query_readlen c) < 2 ^ 31" using len rl(2) by (simp add: PROTO_IOBUF_LEN_def)
  from read_into_ok [OF q this tl, of "junk e"] obtain q1 b q2 where
    r: "sdsMakeRoomFor (junk e) (querybuf c) (nat (query_readlen c)) = Inr q1" "wr_bytes (hdr_buf q1) (sdslen (querybuf c)) t = Inr b"
      "sdsIncrLen (q1\<lparr>hdr_buf := b\<rparr>) (int (length t)) = Inr q2" "sds_ok q2" "sdsval q2 = sdsval (querybuf c) @ t" by blast
  define c1 where "c1 = c\<lparr>querybuf := q2, lastinteraction := unixtime e\<rparr>"
  define c2 where "c2 = (if CLIENT_MASTER \<in> flags c1 then c1\<lparr>reploff := reploff c1 + int (length t)\<rparr> else c1)"
  have f: "querybuf c2 = q2" "argv c2 = argv c" "multibulklen c2 = multibulklen c" "bulklen c2 = bulklen c" "reqtype c2 = reqtype c"
      "flags c2 = flags c" by (simp_all add: c2_def c1_def)
  have l2: "sdslen q2 \<le> PROTO_INLINE_MAX_SIZE"
    using arg_cong [OF r(5), of length] r(4) q len tl(2) rl(2) by (simp add: PROTO_INLINE_MAX_SIZE_def PROTO_IOBUF_LEN_def)
  have net: "t @ drop (length t) net = net" unfolding t by (simp add: min_def)
  have "conn cmds c2 (drop (length t) net)"
    using conn_fields [OF u(1) f(1-4)] u(2,3) r(4,5) rn f net by (auto simp: cmds conn_def running_def)
  moreover have "ready_for s cmds c2"
  proof (rule input_law [OF ex])
    have "c2 = c\<lparr>querybuf := q2, multibulklen := multibulklen c, bulklen := bulklen c, argv := argv c, reqtype := reqtype c,
      lastinteraction := unixtime e, reploff := reploff c2\<rparr>" by (simp add: c2_def c1_def)
    then show "input_step c c2" unfolding input_step_def by blast
  qed
  ultimately obtain before left s' c' where
    p: "cmds = before @ left" "processInputBuffer e False exec n s c2 = Inr (Some (s', c'))" "ready_for s' left c'"
      "conn left c' (drop (length t) net)" "left = [] \<or> length (resp_stream (tl left)) < length (drop (length t) net)" "hungry c'"
    using processInputBuffer_conn [OF _ _ ok(1,2), of s c2 "drop (length t) net" e] l2 f(1) by auto
  have "readQueryFromClient e False maxlen exec n s c (ReadBytes t) = Inr (Some (s', Some c'))"
    using r(1-3) tl(1) l2 ok(3) p(2) [unfolded c2_def c1_def]
    by (simp add: readQueryFromClient_def Let_def rl' split: if_splits)
  then show ?thesis using p tl(1) by auto
qed

lemma read_all_ok:
  assumes "ready_for s cmds c" "conn cmds c net" "cmds = [] \<or> length (resp_stream (tl cmds)) < length net" "hungry c"
    and "\<forall>as \<in> set cmds. command_ok as" "length cmds < n" "PROTO_INLINE_MAX_SIZE \<le> maxlen"
    and "\<forall>k \<in> set ks. 0 < k" "length net \<le> length ks"
  shows "\<exists>s' c'. read_all e maxlen exec n ks net s c = Inr (Some (s', c')) \<and> ready_for s' [] c' \<and> conn [] c' []"
  using assms(1-6,8,9)
proof (induction ks arbitrary: cmds c net s)
  case Nil
  then have "cmds = []" by auto
  then show ?case using Nil by (auto simp: conn_def)
next
  case (Cons k ks)
  show ?case
  proof (cases "net = []")
    case True
    then have "cmds = []" using Cons.prems(3) by auto
    then show ?thesis using True Cons.prems(1,2) by auto
  next
    case False
    then have ne: "cmds \<noteq> []" using Cons.prems(2) by (auto simp: conn_def)
    define t where "t = take (min k (nat (query_readlen c))) net"
    have inc: "length (resp_stream (tl cmds)) < length net" and k: "0 < k" using Cons.prems(3,7) ne by auto
    from readQueryFromClient_conn [OF Cons.prems(1,2) ne inc Cons.prems(4-6) assms(7) k t_def, of e]
    obtain before left s' c' where r: "t \<noteq> []" "cmds = before @ left"
        "readQueryFromClient e False maxlen exec n s c (ReadBytes t) = Inr (Some (s', Some c'))" "ready_for s' left c'"
        "conn left c' (drop (length t) net)" "left = [] \<or> length (resp_stream (tl left)) < length (drop (length t) net)" "hungry c'"
      by blast
    have "length (drop (length t) net) \<le> length ks" using r(1) Cons.prems(8) False by (cases t) auto
    from Cons.IH [OF r(4-7) _ _ _ this] r(2) Cons.prems(5-7) obtain s'' c'' where
      "read_all e maxlen exec n ks (drop (length t) net) s' c' = Inr (Some (s'', c''))" "ready_for s'' [] c''" "conn [] c'' []" by auto
    then show ?thesis using False r(3) by (simp add: Let_def t_def [symmetric])
  qed
qed

lemma stream_ok:
  assumes "ready_for s cmds c" "\<forall>as \<in> set cmds. command_ok as" "conn [] c []"
    and "length cmds < n" "PROTO_INLINE_MAX_SIZE \<le> maxlen" "\<forall>k \<in> set ks. 0 < k" "length (resp_stream cmds) \<le> length ks"
  shows "\<exists>s' c'. read_all e maxlen exec n ks (resp_stream cmds) s c = Inr (Some (s', c')) \<and> ready_for s' [] c' \<and> conn [] c' []"
proof (rule read_all_ok [OF assms(1) _ _ _ assms(2,4-7)])
  have f: "reqtype c = 0" "multibulklen c = 0" "bulklen c = -1" "argv c = []" "sds_ok (querybuf c)" "running c" "sdsval (querybuf c) = []"
    using assms(3) by (simp_all add: conn_def)
  show "conn cmds c (resp_stream cmds)" using f by (intro conn_next) simp_all
  show "cmds = [] \<or> length (resp_stream (tl cmds)) < length (resp_stream cmds)"
    by (cases cmds) (simp_all add: resp_stream_def resp_command_def)
  show "hungry c" using f(3) by (simp add: hungry_def)
qed

end

lemma executor_server: "executor run exec \<Longrightarrow> command_server exec (\<lambda>s cmds c. foldl run s cmds = r)"
proof
  fix s as cmds and c :: client
  assume ex: "executor run exec" and a: "list_all arg_obj (argv c)" "map obj_text (argv c) = as" and r: "foldl run s (as # cmds) = r"
  obtain c' where "exec s c = Inr (True, False, True, run s (map obj_text (argv c)), c')" "parse_same c c'"
    using ex args_str [OF a(1)] unfolding executor_def by blast
  then show "\<exists>s' c'. exec s c = Inr (True, False, True, s', c') \<and> parse_same c c' \<and> foldl run s' cmds = r" using a(2) r by auto
qed

section \<open>Properties\<close>

text \<open>
  C4. Requests are independent of how the network cuts them. Commands sent one
  after the other over a connection, read in pieces of any size, are executed exactly once each, in
  order, with the arguments sent, whatever bytes these hold; nothing of them stays in the query
  buffer, and neither the parser nor the loop commits a fault or reports a protocol error. Each
  command's text has at most 48 KB, so that a part of one and a full read stay below the 64 KB at
  which the parser gives up on a line without an end.
\<close>

theorem requests_in_order:
  assumes "executor run exec" "\<forall>as \<in> set cmds. command_ok as" "conn [] c []"
    and "length cmds < n" "PROTO_INLINE_MAX_SIZE \<le> maxlen"
    and "\<forall>k \<in> set ks. 0 < k" "length (resp_stream cmds) \<le> length ks"
  shows "\<exists>c'. read_all e maxlen exec n ks (resp_stream cmds) s c = Inr (Some (foldl run s cmds, c')) \<and> conn [] c' []"
  using command_server.stream_ok [OF executor_server [OF assms(1)] refl assms(2-7)] by auto

definition log_exec :: "string list list \<Rightarrow> client \<Rightarrow> (bool \<times> bool \<times> bool \<times> string list list \<times> client) res" where
  "log_exec s c = Inr (True, False, True, s @ [map obj_text (argv c)], c)"

lemma log_executor: "executor (\<lambda>s as. s @ [as]) log_exec"
  by (simp add: executor_def log_exec_def parse_same_def)

theorem requests_in_order_witness:
  "\<exists>q c'. sdsempty = Inr q \<and> sdsval (querybuf c') = [] \<and>
    read_all demo_env (1024 * 1024) log_exec 3 (replicate 100 2) (resp_stream [[''SET'', ''k'', [NUL, CR]], [''GET'', ''k'']]) [] (demo_client q) =
      Inr (Some ([[''SET'', ''k'', [NUL, CR]], [''GET'', ''k'']], c'))"
proof -
  let ?cmds = "[[''SET'', ''k'', [NUL, CR]], [''GET'', ''k'']]"
  obtain q where q: "sdsempty = Inr q" "sds_ok q" "sdsval q = []" using sdsempty_ok by blast
  have "conn [] (demo_client q) []" using q by (simp add: conn_def demo_client_def running_def)
  moreover have "\<forall>as \<in> set ?cmds. command_ok as" "length (resp_stream ?cmds) \<le> length (replicate 100 (2 :: nat))"
    by (simp_all add: command_ok_def resp_stream_def resp_command_def resp_bulk_def crlf_def dec.simps)
  moreover have "PROTO_INLINE_MAX_SIZE \<le> 1024 * 1024" "length ?cmds < 3" "\<forall>k \<in> set (replicate 100 (2 :: nat)). 0 < k"
    by (simp_all add: PROTO_INLINE_MAX_SIZE_def)
  ultimately obtain c' where "read_all demo_env (1024 * 1024) log_exec 3 (replicate 100 2) (resp_stream ?cmds) [] (demo_client q) =
      Inr (Some (foldl (\<lambda>s as. s @ [as]) [] ?cmds, c'))" "conn [] c' []"
    using requests_in_order [OF log_executor, of ?cmds "demo_client q" 3 "1024 * 1024" "replicate 100 2" demo_env "[]"] by blast
  then show ?thesis using q(1) by (auto simp: conn_def)
qed

lemma inline_line_ok:
  assumes q: "sds_ok (querybuf c)" "sdslen (querybuf c) + 1 < 2 ^ 31" and val: "sdsval (querybuf c) = line @ nl @ rest"
    and nl: "nl = [CR, LF] \<or> nl = [LF] \<and> (line = [] \<or> last line \<noteq> CR)" and line: "LF \<notin> set line" "is_cstring line"
    and split: "sdssplitargs line = Some args" and small: "\<forall>a \<in> set args. length a < 2 ^ 64"
  shows "\<exists>c'. processInlineBuffer e c = Inr (True, c') \<and> map obj_text (argv c') = filter (\<lambda>a. a \<noteq> []) args \<and>
    sds_ok (querybuf c') \<and> sdsval (querybuf c') = drop (length line + 2) (sdsval (querybuf c))"
proof -
  let ?q = "querybuf c" and ?k = "length line + length nl - 1"
  have len: "length line + length nl \<le> sdslen ?q" using arg_cong [OF val, of length] q(1) by simp
  have "strchr (cstr (sdsval ?q)) LF = Some ?k"
  proof (cases "nl = [LF]")
    case True
    then have "cstr (sdsval ?q) = line @ LF # cstr rest" using val cstr_append_clean [OF line(2), of "LF # rest"] by simp
    then show ?thesis using strchr_append [OF line(1)] True by simp
  next
    case False
    then have n: "nl = [CR, LF]" using nl by blast
    have "cstr (sdsval ?q) = (line @ [CR]) @ LF # cstr rest"
      using val n cstr_append_clean [OF line(2), of "CR # LF # rest"] by simp
    then show ?thesis using strchr_append [of LF "line @ [CR]"] line(1) n by simp
  qed
  then have f: "find_char ?q LF 0 = Inr (Some (int ?k))" using find_char_ok [OF q(1), of 0 LF] by simp
  define before where "before = (if int ?k \<noteq> 0 then sdsval ?q ! (?k - 1) else NUL)"
  have b: "(if int ?k \<noteq> 0 then rd (hdr_buf ?q) (nat (int ?k - 1)) else Inr NUL) = Inr before"
  proof (cases "?k = 0")
    case False
    have "nat (int ?k - 1) = ?k - 1" "?k - 1 < sdslen ?q" using False len by linarith+
    then show ?thesis using rd_buf [OF q(1), of "?k - 1"] False by (simp add: before_def)
  qed (simp add: before_def)
  have nlpos: "(if int ?k \<noteq> 0 \<and> before = CR then int ?k - 1 else int ?k) = int (length line)"
  proof (cases "nl = [LF]")
    case True
    then have "before \<noteq> CR" using nl val by (cases line rule: rev_cases) (auto simp: before_def nth_append)
    then show ?thesis using True by simp
  next
    case False
    then have "nl = [CR, LF]" using nl by blast
    then show ?thesis using val by (simp add: before_def nth_append)
  qed
  have fit: "length line \<le> length (hdr_buf ?q)" using len sdslen_le_buf [OF q(1)] by simp
  have "take (length line) (hdr_buf ?q) = line"
    using drop_buf(1) [OF q(1), of 0 "length line"] len val by simp
  then obtain aux where aux: "sdsnewlen (Some (hdr_buf ?q)) (length line) = Inr aux" "sdsval aux = line"
    using sdsnewlen_ok(1) [of "length line" "hdr_buf ?q"] fit len q(2) by auto
  have l2: "length line + 2 < 2 ^ 31" "sdslen ?q < 2 ^ 31" using len q(2) nl by auto
  obtain q1 where q1: "sdsrange ?q (int (length line + 2)) (-1) = Inr q1" "sds_ok q1" "sdsval q1 = drop (length line + 2) (sdsval ?q)"
    using sdsrange_suffix [OF q(1) l2(2,1)] by blast
  have i32: "to_int32 (int (length line) + 2) = int (length line + 2)" using l2(1) by (simp add: to_int32_def)
  have "\<exists>o'. new_string_arg e a = Inr o' \<and> obj_text o' = a" if "a \<in> set (filter (\<lambda>a. a \<noteq> []) args)" for a
    using that small sdsnewlen_ok(1) [of "length a" a] createObject_sds by (fastforce simp: new_string_arg_def)
  from rmap_ex [of "filter (\<lambda>a. a \<noteq> []) args" "new_string_arg e" "\<lambda>a o'. obj_text o' = a", OF this] obtain objs
    where objs: "rmap (new_string_arg e) (filter (\<lambda>a. a \<noteq> []) args) = Inr objs" "list_all2 (\<lambda>a o'. obj_text o' = a) (filter (\<lambda>a. a \<noteq> []) args) objs"
    by blast
  have otxt: "map obj_text objs = filter (\<lambda>a. a \<noteq> []) args"
    using objs(2) by (auto simp: list_all2_conv_all_nth intro: nth_equalityI)
  define c1 where "c1 = (if length line = 0 \<and> CLIENT_SLAVE \<in> flags c then c\<lparr>repl_ack_time := unixtime e\<rparr> else c)"
  have "processInlineBuffer e c = Inr (True, c1\<lparr>querybuf := q1, argv := objs\<rparr>)"
    unfolding processInlineBuffer_def Let_def f rbind_simps option.case b nlpos nat_int aux split i32 q1(1) objs(1) c1_def ..
  then show ?thesis using q1 otxt by simp
qed

text \<open>
  C29. An inline request that ends with CR LF is split into its arguments, empty ones
  dropped, and the query buffer keeps what follows the line. When the line ends with LF alone, the
  first byte after it is lost: the buffer is cut two bytes behind the text of the line in both cases.
\<close>

theorem inline_requests:
  assumes "sds_ok (querybuf c)" "sdslen (querybuf c) + 1 < 2 ^ 31" "LF \<notin> set line" "is_cstring line"
    and "sdssplitargs line = Some args" "\<forall>a \<in> set args. length a < 2 ^ 64"
  shows "(sdsval (querybuf c) = line @ [CR, LF] @ rest \<longrightarrow>
      (\<exists>c'. processInlineBuffer e c = Inr (True, c') \<and> map obj_text (argv c') = filter (\<lambda>a. a \<noteq> []) args \<and> sdsval (querybuf c') = rest)) \<and>
    (sdsval (querybuf c) = line @ [LF] @ rest \<and> (line = [] \<or> last line \<noteq> CR) \<longrightarrow>
      (\<exists>c'. processInlineBuffer e c = Inr (True, c') \<and> map obj_text (argv c') = filter (\<lambda>a. a \<noteq> []) args \<and> sdsval (querybuf c') = drop 1 rest))"
  using inline_line_ok [OF assms(1,2) _ _ assms(3-6), of "[CR, LF]" rest e] inline_line_ok [OF assms(1,2) _ _ assms(3-6), of "[LF]" rest e]
  by auto

theorem inline_requests_witness:
  "\<exists>q c'. sdsnewlen (Some (''PING'' @ [LF] @ ''PING'' @ [LF])) 10 = Inr q \<and> processInlineBuffer demo_env (demo_client q) = Inr (True, c') \<and>
    map obj_text (argv c') = [''PING''] \<and> sdsval (querybuf c') = ''ING'' @ [LF]"
proof -
  obtain q where q: "sdsnewlen (Some (''PING'' @ [LF] @ ''PING'' @ [LF])) 10 = Inr q" "sds_ok q" "sdsval q = ''PING'' @ [LF] @ ''PING'' @ [LF]"
    using sdsnewlen_ok(1) [of 10 "''PING'' @ [LF] @ ''PING'' @ [LF]"] by auto
  have len: "sdslen q = 10" using arg_cong [OF q(3), of length] q(2) by simp
  have "sdssplitargs ''PING'' = Some [''PING'']"
    by (simp add: sdssplitargs_def splitargs_loop.simps splitargs_token.simps isspace_def byte_val_def)
  with inline_requests [of "demo_client q" "''PING''" "[''PING'']" "''PING'' @ [LF]" demo_env] q len
  obtain c' where "processInlineBuffer demo_env (demo_client q) = Inr (True, c')" "map obj_text (argv c') = [''PING'']"
      "sdsval (querybuf c') = ''ING'' @ [LF]" by (auto simp: demo_client_def)
  then show ?thesis using q(1) by (intro exI [of _ q] exI [of _ c']) simp
qed

text \<open>
  C30. A request whose number of arguments is not a number or is above the limit gets one
  error reply, is marked to be closed once the reply is sent, and stays unread: the parser returns an
  error and the client holds no argument.
\<close>

theorem bad_count_closes:
  assumes "sds_ok (querybuf c)" "sdslen (querybuf c) < 2 ^ 31" "multibulklen c = 0" "argv c = []"
    and "sdsval (querybuf c) = CHR ''*'' # t @ crlf @ rest" "CR \<notin> set t" "is_cstring t"
    and "string2ll t = None \<or> (\<exists>n. string2ll t = Some n \<and> n > 1024 * 1024)"
    and "out_ok e c" "env_ok e" "has_room 3 c"
  shows "\<exists>c'. processMultibulkBuffer e c = Inr (False, c') \<and> CLIENT_CLOSE_AFTER_REPLY \<in> flags c' \<and> argv c' = [] \<and>
    sdsval (querybuf c') = sdsval (querybuf c) \<and>
    (takes_replies c \<longrightarrow> out_bytes c' = out_bytes c @ ''-ERR Protocol error: invalid multibulk length'' @ crlf)"
proof -
  let ?q = "querybuf c" and ?m = "''Protocol error: invalid multibulk length''"
  let ?h = "CHR ''*'' # t"
  have len: "length t + 3 \<le> sdslen ?q" using arg_cong [OF assms(5), of length] assms(1) by (simp add: crlf_def)
  have "cstr (sdsval ?q) = ?h @ CR # cstr (LF # rest)"
    using assms(5,7) cstr_append_clean [of ?h "crlf @ rest"] by (simp add: crlf_def)
  then have "strchr (cstr (sdsval ?q)) CR = Some (length ?h)" using strchr_append [of CR ?h] assms(6) by simp
  then have f: "find_char ?q CR 0 = Inr (Some (int (length ?h)))" using find_char_ok [OF assms(1), of 0 CR] by simp
  have last: "ck_int32 (to_int32 (int (sdslen ?q)) - 2) = Inr (int (sdslen ?q) - 2)"
    using assms(2) by (simp add: ck_int32_def in_int32_def to_int32_def)
  have le: "\<not> int (length ?h) > int (sdslen ?q) - 2" using len by simp
  have first: "rd (hdr_buf ?q) 0 = Inr (CHR ''*'')" using rd_buf [OF assms(1), of 0] len assms(5) by simp
  have num: "rd_bytes (hdr_buf ?q) 1 (nat (int (length ?h) - 1)) = Inr t"
    using rd_bytes_buf [OF assms(1), of 1 "length t"] len assms(5) by simp
  have bad: "string2ll t = None \<or> the (string2ll t) > 1024 * 1024" using assms(8) by auto
  obtain c1 where c1: "addReplyError e c ?m = Inr c1" "appends e 3 (''-ERR '' @ ?m @ crlf) c c1"
    using addReplyError_ok [OF assms(9-11), of ?m] by auto
  have "core c1 = core c" using c1(2) by (simp add: appends_def keeps_def)
  from arg_cong [OF this, of querybuf] arg_cong [OF this, of argv] have k: "querybuf c1 = ?q" "argv c1 = argv c"
    by (simp_all add: core_def)
  obtain q' where q': "sdsrange ?q 0 (-1) = Inr q'" "sdsval q' = sdsval ?q"
    using sdsrange_suffix [OF assms(1,2), of 0] by auto
  let ?c = "c1\<lparr>flags := insert CLIENT_CLOSE_AFTER_REPLY (flags c1), querybuf := q'\<rparr>"
  have pe: "protocol_error e c ?m 0 = Inr ?c" using c1(1) q'(1) k(1) by (simp add: protocol_error_def setProtocolError_def)
  have "read_multibulk_len e c = Inr (HeadErr ?c)"
    unfolding read_multibulk_len_def Let_def assms(4) f last if_not_P [OF le] first num if_P [OF bad] pe rbind_simps option.case
    by simp
  then have "processMultibulkBuffer e c = Inr (False, ?c)" using assms(3) by (simp add: processMultibulkBuffer_def)
  moreover have "takes_replies c \<longrightarrow> out_bytes ?c = out_bytes c @ ''-ERR '' @ ?m @ crlf"
    using c1(2) by (auto simp: appends_def out_bytes_def)
  ultimately show ?thesis using k assms(4) q'(2) by simp
qed

theorem bad_count_closes_witness:
  "\<exists>q c'. sdsnewlen (Some (''*x'' @ crlf)) 4 = Inr q \<and> processMultibulkBuffer demo_env (demo_client q) = Inr (False, c') \<and>
    CLIENT_CLOSE_AFTER_REPLY \<in> flags c' \<and> out_bytes c' = ''-ERR Protocol error: invalid multibulk length'' @ crlf"
proof -
  obtain q where q: "sdsnewlen (Some (''*x'' @ crlf)) 4 = Inr q" "sds_ok q" "sdsval q = ''*x'' @ crlf"
    using sdsnewlen_ok(1) [of 4 "''*x'' @ crlf"] by (auto simp: crlf_def)
  have len: "sdslen q = 4" using arg_cong [OF q(3), of length] q(2) by (simp add: crlf_def)
  have "\<not> isdigit (CHR ''x'')" by (simp add: isdigit_def byte_val_def)
  then have "''x'' \<noteq> dec m" for m using dec_digits [of "CHR ''x''" m] by (metis list.set_intros(1))
  then have s: "string2ll ''x'' = None"
    using string2ll_sound [of "''x''"] by (cases "string2ll ''x''") (auto simp: deci_def split: if_splits)
  have "\<exists>c'. processMultibulkBuffer demo_env (demo_client q) = Inr (False, c') \<and> CLIENT_CLOSE_AFTER_REPLY \<in> flags c' \<and> argv c' = [] \<and>
      sdsval (querybuf c') = sdsval (querybuf (demo_client q)) \<and>
      (takes_replies (demo_client q) \<longrightarrow> out_bytes c' = out_bytes (demo_client q) @ ''-ERR Protocol error: invalid multibulk length'' @ crlf)"
    using s len q(2,3) by (intro bad_count_closes [of _ "''x''" "[]"]) (simp_all add: demo_ok, simp_all add: demo_client_def crlf_def)
  then show ?thesis using q(1) by (auto simp: demo_ok)
qed

end
