(* ===== verification/HttpUrl.thy ===== *)
theory HttpUrl
  imports Prelude
begin

text \<open>
  The URL parser of \<open>deps/http-parser/http_parser.c\<close>: the character classes, the two state machines
  (URL and host) and \<open>http_parser_parse_url\<close>, which marks the components of a URL by offsets and
  lengths of 16 bits. The parameter \<open>strict\<close> is the compile-time switch \<open>HTTP_PARSER_STRICT\<close>, which the
  makefile of the parser sets either way. A set of components stands for the bit mask \<open>field_set\<close>.
\<close>

unbundle bit_operations_syntax

section \<open>Character classes\<close>

definition normal_url_char :: "bool \<Rightarrow> nat list" where
  "normal_url_char strict =
     [0, if strict then 0 else 2 + 16, 0, 0, 2 + 4 + 16 + 32 + 64 + 128, 255, 255, 127] @ replicate 7 255 @ [127] @ replicate 16 0"

definition BIT_AT :: "nat list \<Rightarrow> nat \<Rightarrow> bool" where
  "BIT_AT a i = bit (a ! (i div 8)) (i mod 8)"

definition lower :: "char \<Rightarrow> nat" where
  "lower c = byte_val c OR 32"

definition IS_ALPHA :: "char \<Rightarrow> bool" where
  "IS_ALPHA c \<longleftrightarrow> 97 \<le> lower c \<and> lower c \<le> 122"

definition IS_NUM :: "char \<Rightarrow> bool" where
  "IS_NUM c \<longleftrightarrow> 48 \<le> byte_val c \<and> byte_val c \<le> 57"

definition IS_ALPHANUM :: "char \<Rightarrow> bool" where
  "IS_ALPHANUM c \<longleftrightarrow> IS_ALPHA c \<or> IS_NUM c"

definition IS_HEX :: "char \<Rightarrow> bool" where
  "IS_HEX c \<longleftrightarrow> IS_NUM c \<or> 97 \<le> lower c \<and> lower c \<le> 102"

definition IS_MARK :: "char \<Rightarrow> bool" where
  "IS_MARK c \<longleftrightarrow> c \<in> {CHR ''-'', CHR ''_'', CHR ''.'', CHR ''!'', CHR ''~'', CHR ''*'', CHR 0x27, CHR ''('', CHR '')''}"

definition IS_USERINFO_CHAR :: "char \<Rightarrow> bool" where
  "IS_USERINFO_CHAR c \<longleftrightarrow> IS_ALPHANUM c \<or> IS_MARK c \<or>
     c \<in> {CHR ''%'', CHR '';'', CHR '':'', CHR ''&'', CHR ''='', CHR ''+'', CHR ''$'', CHR '',''}"

definition IS_URL_CHAR :: "bool \<Rightarrow> char \<Rightarrow> bool" where
  "IS_URL_CHAR strict c \<longleftrightarrow> BIT_AT (normal_url_char strict) (byte_val c) \<or> \<not> strict \<and> byte_val c AND 128 \<noteq> 0"

definition IS_HOST_CHAR :: "bool \<Rightarrow> char \<Rightarrow> bool" where
  "IS_HOST_CHAR strict c \<longleftrightarrow> IS_ALPHANUM c \<or> c = CHR ''.'' \<or> c = CHR ''-'' \<or> \<not> strict \<and> c = CHR ''_''"

section \<open>The state machines\<close>

text \<open>The states the URL parser uses, out of the enumeration it shares with the message parser.\<close>

datatype state =
    s_dead | s_req_spaces_before_url | s_req_schema | s_req_schema_slash | s_req_schema_slash_slash
  | s_req_server_start | s_req_server | s_req_server_with_at | s_req_path | s_req_query_string_start
  | s_req_query_string | s_req_fragment_start | s_req_fragment

definition server_char :: "char \<Rightarrow> state" where
  "server_char ch =
     (if ch = CHR ''/'' then s_req_path
      else if ch = CHR ''?'' then s_req_query_string_start
      else if ch = CHR ''@'' then s_req_server_with_at
      else if IS_USERINFO_CHAR ch \<or> ch = CHR ''['' \<or> ch = CHR '']'' then s_req_server
      else s_dead)"

definition parse_url_char :: "bool \<Rightarrow> state \<Rightarrow> char \<Rightarrow> state" where
  "parse_url_char strict s ch =
     (if ch = CHR '' '' \<or> ch = CR \<or> ch = LF then s_dead
      else if strict \<and> (ch = CHR 0x09 \<or> ch = CHR 0x0C) then s_dead
      else
        case s of
          s_req_spaces_before_url \<Rightarrow>
            if ch = CHR ''/'' \<or> ch = CHR ''*'' then s_req_path
            else if IS_ALPHA ch then s_req_schema
            else s_dead
        | s_req_schema \<Rightarrow>
            if IS_ALPHA ch then s
            else if ch = CHR '':'' then s_req_schema_slash
            else s_dead
        | s_req_schema_slash \<Rightarrow> if ch = CHR ''/'' then s_req_schema_slash_slash else s_dead
        | s_req_schema_slash_slash \<Rightarrow> if ch = CHR ''/'' then s_req_server_start else s_dead
        | s_req_server_with_at \<Rightarrow> if ch = CHR ''@'' then s_dead else server_char ch
        | s_req_server_start \<Rightarrow> server_char ch
        | s_req_server \<Rightarrow> server_char ch
        | s_req_path \<Rightarrow>
            if IS_URL_CHAR strict ch then s
            else if ch = CHR ''?'' then s_req_query_string_start
            else if ch = CHR ''#'' then s_req_fragment_start
            else s_dead
        | s_req_query_string_start \<Rightarrow>
            if IS_URL_CHAR strict ch then s_req_query_string
            else if ch = CHR ''?'' then s_req_query_string
            else if ch = CHR ''#'' then s_req_fragment_start
            else s_dead
        | s_req_query_string \<Rightarrow>
            if IS_URL_CHAR strict ch then s_req_query_string
            else if ch = CHR ''?'' then s_req_query_string
            else if ch = CHR ''#'' then s_req_fragment_start
            else s_dead
        | s_req_fragment_start \<Rightarrow>
            if IS_URL_CHAR strict ch then s_req_fragment
            else if ch = CHR ''?'' then s_req_fragment
            else if ch = CHR ''#'' then s
            else s_dead
        | s_req_fragment \<Rightarrow>
            if IS_URL_CHAR strict ch then s
            else if ch = CHR ''?'' \<or> ch = CHR ''#'' then s
            else s_dead
        | _ \<Rightarrow> s_dead)"

datatype http_host_state =
    s_http_host_dead | s_http_userinfo_start | s_http_userinfo | s_http_host_start | s_http_host_v6_start
  | s_http_host | s_http_host_v6 | s_http_host_v6_end | s_http_host_v6_zone_start | s_http_host_v6_zone
  | s_http_host_port_start | s_http_host_port

definition http_parse_host_char :: "bool \<Rightarrow> http_host_state \<Rightarrow> char \<Rightarrow> http_host_state" where
  "http_parse_host_char strict s ch =
     (let host_end = (if ch = CHR '':'' then s_http_host_port_start else s_http_host_dead);
          v6 = (if IS_HEX ch \<or> ch = CHR '':'' \<or> ch = CHR ''.'' then s_http_host_v6
                else if s = s_http_host_v6 \<and> ch = CHR ''%'' then s_http_host_v6_zone_start
                else s_http_host_dead);
          zone = (if IS_ALPHANUM ch \<or> ch \<in> {CHR ''%'', CHR ''.'', CHR ''-'', CHR ''_'', CHR ''~''} then s_http_host_v6_zone
                  else s_http_host_dead)
      in case s of
           s_http_userinfo \<Rightarrow>
             if ch = CHR ''@'' then s_http_host_start else if IS_USERINFO_CHAR ch then s_http_userinfo else s_http_host_dead
         | s_http_userinfo_start \<Rightarrow>
             if ch = CHR ''@'' then s_http_host_start else if IS_USERINFO_CHAR ch then s_http_userinfo else s_http_host_dead
         | s_http_host_start \<Rightarrow>
             if ch = CHR ''['' then s_http_host_v6_start else if IS_HOST_CHAR strict ch then s_http_host else s_http_host_dead
         | s_http_host \<Rightarrow> if IS_HOST_CHAR strict ch then s_http_host else host_end
         | s_http_host_v6_end \<Rightarrow> host_end
         | s_http_host_v6 \<Rightarrow> if ch = CHR '']'' then s_http_host_v6_end else v6
         | s_http_host_v6_start \<Rightarrow> v6
         | s_http_host_v6_zone \<Rightarrow> if ch = CHR '']'' then s_http_host_v6_end else zone
         | s_http_host_v6_zone_start \<Rightarrow> zone
         | s_http_host_port \<Rightarrow> if IS_NUM ch then s_http_host_port else s_http_host_dead
         | s_http_host_port_start \<Rightarrow> if IS_NUM ch then s_http_host_port else s_http_host_dead
         | s_http_host_dead \<Rightarrow> s_http_host_dead)"

section \<open>Components\<close>

datatype url_field = UF_SCHEMA | UF_HOST | UF_PORT | UF_PATH | UF_QUERY | UF_FRAGMENT | UF_USERINFO | UF_MAX

record http_parser_url =
  field_set :: "url_field set"
  url_port :: nat
  field_off :: "url_field \<Rightarrow> nat"
  field_len :: "url_field \<Rightarrow> nat"

definition u16 :: "nat \<Rightarrow> nat" where
  "u16 n = n mod 2 ^ 16"

definition set_off :: "url_field \<Rightarrow> nat \<Rightarrow> http_parser_url \<Rightarrow> http_parser_url" where
  "set_off f n u = u\<lparr>field_off := (field_off u)(f := u16 n)\<rparr>"

definition set_len :: "url_field \<Rightarrow> nat \<Rightarrow> http_parser_url \<Rightarrow> http_parser_url" where
  "set_len f n u = u\<lparr>field_len := (field_len u)(f := u16 n)\<rparr>"

definition add_len :: "url_field \<Rightarrow> http_parser_url \<Rightarrow> http_parser_url" where
  "add_len f u = set_len f (field_len u f + 1) u"

definition mark_field :: "url_field \<Rightarrow> http_parser_url \<Rightarrow> http_parser_url" where
  "mark_field f u = u\<lparr>field_set := insert f (field_set u)\<rparr>"

text \<open>What \<open>http_parse_host\<close> notes for a character at a position on entering a state.\<close>

definition host_note :: "http_host_state \<Rightarrow> http_host_state \<Rightarrow> nat \<Rightarrow> http_parser_url \<Rightarrow> http_parser_url" where
  "host_note s new_s p u =
     (case new_s of
        s_http_host \<Rightarrow> add_len UF_HOST (if s \<noteq> s_http_host then set_off UF_HOST p u else u)
      | s_http_host_v6 \<Rightarrow> add_len UF_HOST (if s \<noteq> s_http_host_v6 then set_off UF_HOST p u else u)
      | s_http_host_v6_zone_start \<Rightarrow> add_len UF_HOST u
      | s_http_host_v6_zone \<Rightarrow> add_len UF_HOST u
      | s_http_host_port \<Rightarrow>
          add_len UF_PORT (if s \<noteq> s_http_host_port then mark_field UF_PORT (set_len UF_PORT 0 (set_off UF_PORT p u)) else u)
      | s_http_userinfo \<Rightarrow>
          add_len UF_USERINFO (if s \<noteq> s_http_userinfo then mark_field UF_USERINFO (set_len UF_USERINFO 0 (set_off UF_USERINFO p u)) else u)
      | _ \<Rightarrow> u)"

text \<open>The loop over \<open>n\<close> characters from a position; no state when a character does not fit (\<open>return 1\<close>).\<close>

fun host_loop :: "bool \<Rightarrow> string \<Rightarrow> nat \<Rightarrow> nat \<Rightarrow> http_host_state \<Rightarrow> http_parser_url \<Rightarrow> (http_host_state option \<times> http_parser_url) res" where
  "host_loop strict buf 0 p s u = Inr (Some s, u)"
| "host_loop strict buf (Suc n) p s u =
     rbind (rd buf p) (\<lambda>ch.
     let new_s = http_parse_host_char strict s ch in
     if new_s = s_http_host_dead then Inr (None, u)
     else host_loop strict buf n (Suc p) new_s (host_note s new_s p u))"

definition http_parse_host :: "bool \<Rightarrow> string \<Rightarrow> http_parser_url \<Rightarrow> bool \<Rightarrow> (nat \<times> http_parser_url) res" where
  "http_parse_host strict buf u found_at =
     (let off = field_off u UF_HOST; buflen = off + field_len u UF_HOST in
      rbind (rassert (UF_HOST \<in> field_set u) AssertFail) (\<lambda>_.
      rbind (host_loop strict buf (buflen - off) off (if found_at then s_http_userinfo_start else s_http_host_start)
               (set_len UF_HOST 0 u)) (\<lambda>(r, u1).
      case r of
        None \<Rightarrow> Inr (1, u1)
      | Some s \<Rightarrow>
          if s \<in> {s_http_host_start, s_http_host_v6_start, s_http_host_v6, s_http_host_v6_zone_start, s_http_host_v6_zone,
                  s_http_host_port_start, s_http_userinfo, s_http_userinfo_start}
          then Inr (1, u1) else Inr (0, u1))))"

definition http_parser_url_init :: http_parser_url where
  "http_parser_url_init = \<lparr>field_set = {}, url_port = 0, field_off = (\<lambda>_. 0), field_len = (\<lambda>_. 0)\<rparr>"

text \<open>The component a state belongs to: none for a delimiter, and a fault for a state no step leads to.\<close>

definition field_of_state :: "state \<Rightarrow> url_field option res" where
  "field_of_state s =
     (case s of
        s_req_schema_slash \<Rightarrow> Inr None
      | s_req_schema_slash_slash \<Rightarrow> Inr None
      | s_req_server_start \<Rightarrow> Inr None
      | s_req_query_string_start \<Rightarrow> Inr None
      | s_req_fragment_start \<Rightarrow> Inr None
      | s_req_schema \<Rightarrow> Inr (Some UF_SCHEMA)
      | s_req_server_with_at \<Rightarrow> Inr (Some UF_HOST)
      | s_req_server \<Rightarrow> Inr (Some UF_HOST)
      | s_req_path \<Rightarrow> Inr (Some UF_PATH)
      | s_req_query_string \<Rightarrow> Inr (Some UF_QUERY)
      | s_req_fragment \<Rightarrow> Inr (Some UF_FRAGMENT)
      | _ \<Rightarrow> Inl AssertFail)"

text \<open>The loop over \<open>n\<close> characters from a position; the answer has no flag when a character does not fit.\<close>

fun url_loop :: "bool \<Rightarrow> string \<Rightarrow> nat \<Rightarrow> nat \<Rightarrow> state \<Rightarrow> url_field \<Rightarrow> bool \<Rightarrow> http_parser_url \<Rightarrow> (bool option \<times> http_parser_url) res" where
  "url_loop strict buf 0 p s old_uf found_at u = Inr (Some found_at, u)"
| "url_loop strict buf (Suc n) p s old_uf found_at u =
     rbind (rd buf p) (\<lambda>ch.
     let s1 = parse_url_char strict s ch in
     if s1 = s_dead then Inr (None, u)
     else
       rbind (field_of_state s1) (\<lambda>f.
       case f of
         None \<Rightarrow> url_loop strict buf n (Suc p) s1 old_uf found_at u
       | Some uf \<Rightarrow>
           let found = (found_at \<or> s1 = s_req_server_with_at) in
           if uf = old_uf then url_loop strict buf n (Suc p) s1 old_uf found (add_len uf u)
           else url_loop strict buf n (Suc p) s1 uf found (mark_field uf (set_len uf 1 (set_off uf p u)))))"

text \<open>\<open>strtoul\<close> in base 10 of the text at an offset: blanks, a sign, digits; it must stop inside the block.\<close>

definition strtoul10 :: "string \<Rightarrow> nat \<Rightarrow> nat res" where
  "strtoul10 m off =
     (let t0 = dropWhile isspace (drop off m);
          neg = (t0 \<noteq> [] \<and> hd t0 = CHR ''-'');
          t1 = (if t0 \<noteq> [] \<and> (hd t0 = CHR ''-'' \<or> hd t0 = CHR ''+'') then tl t0 else t0);
          ds = takeWhile isdigit t1;
          v = undec ds
      in if length ds = length t1 then Inl OutOfBounds
         else if v \<ge> 2 ^ 64 then Inr (2 ^ 64 - 1)
         else Inr (if neg then (2 ^ 64 - v) mod 2 ^ 64 else v))"

text \<open>The checks at the end: the shape of a CONNECT target and the number of the port.\<close>

definition url_finish :: "bool \<Rightarrow> string \<Rightarrow> http_parser_url \<Rightarrow> (nat \<times> http_parser_url) res" where
  "url_finish is_connect buf u =
     (if is_connect \<and> field_set u \<noteq> {UF_HOST, UF_PORT} then Inr (1, u)
      else if UF_PORT \<in> field_set u then
        rbind (strtoul10 buf (field_off u UF_PORT)) (\<lambda>v.
        if v > 0xffff then Inr (1, u) else Inr (0, u\<lparr>url_port := v\<rparr>))
      else Inr (0, u))"

definition http_parser_parse_url :: "bool \<Rightarrow> string \<Rightarrow> nat \<Rightarrow> bool \<Rightarrow> http_parser_url \<Rightarrow> (nat \<times> http_parser_url) res" where
  "http_parser_parse_url strict buf buflen is_connect u0 =
     rbind (url_loop strict buf buflen 0 (if is_connect then s_req_server_start else s_req_spaces_before_url) UF_MAX False
              (u0\<lparr>url_port := 0, field_set := {}\<rparr>)) (\<lambda>(r, u).
     case r of
       None \<Rightarrow> Inr (1, u)
     | Some found_at \<Rightarrow>
         if UF_SCHEMA \<in> field_set u \<and> UF_HOST \<notin> field_set u then Inr (1, u)
         else
           rbind (if UF_HOST \<in> field_set u then http_parse_host strict buf u found_at else Inr (0, u)) (\<lambda>(rc, u1).
           if rc \<noteq> 0 then Inr (1, u1) else url_finish is_connect buf u1))"

section \<open>Every component lies inside the URL\<close>

lemma u16_id [simp]: "n < 2 ^ 16 \<Longrightarrow> u16 n = n"
  by (simp add: u16_def)

lemma field_simps [simp]:
  "field_off (set_off f n u) g = (if g = f then u16 n else field_off u g)" "field_len (set_off f n u) = field_len u"
  "field_set (set_off f n u) = field_set u"
  "field_len (set_len f n u) g = (if g = f then u16 n else field_len u g)" "field_off (set_len f n u) = field_off u"
  "field_set (set_len f n u) = field_set u"
  "field_set (mark_field f u) = insert f (field_set u)" "field_off (mark_field f u) = field_off u" "field_len (mark_field f u) = field_len u"
  by (simp_all add: set_off_def set_len_def mark_field_def)

definition inside :: "nat \<Rightarrow> http_parser_url \<Rightarrow> bool" where
  "inside i u \<longleftrightarrow> (\<forall>f \<in> field_set u. field_off u f + field_len u f \<le> i)"

definition url_fields :: "url_field set" where
  "url_fields = {UF_SCHEMA, UF_HOST, UF_PATH, UF_QUERY, UF_FRAGMENT}"

lemma parse_url_char_next: "parse_url_char strict s ch \<noteq> s_req_spaces_before_url"
  by (auto simp: parse_url_char_def server_char_def split: state.splits)

lemma field_of_state_ok:
  assumes "s \<noteq> s_dead" "s \<noteq> s_req_spaces_before_url"
  shows "\<exists>f. field_of_state s = Inr f \<and> (\<forall>uf. f = Some uf \<longrightarrow> uf \<in> url_fields)"
  using assms by (cases s) (auto simp: field_of_state_def url_fields_def)

lemma url_loop_ok:
  assumes "p + n \<le> length buf" "p + n < 2 ^ 16" "inside p u" "old_uf \<in> insert UF_MAX (field_set u)" "field_set u \<subseteq> url_fields"
  shows "\<exists>r u'. url_loop strict buf n p s old_uf fa u = Inr (r, u') \<and> inside (p + n) u' \<and> field_set u' \<subseteq> url_fields \<and> url_port u' = url_port u"
  using assms
proof (induction n arbitrary: p s old_uf fa u)
  case (Suc n)
  define s1 where "s1 = parse_url_char strict s (buf ! p)"
  have rd: "rd buf p = Inr (buf ! p)" using Suc.prems(1) by (simp add: rd_def)
  have mono: "inside i v \<Longrightarrow> i \<le> j \<Longrightarrow> inside j v" for i j v by (fastforce simp: inside_def)
  show ?case
  proof (cases "s1 = s_dead")
    case True
    then show ?thesis using rd Suc.prems(3,5) mono [of p u "p + Suc n"] by (simp add: s1_def [symmetric])
  next
    case False
    then obtain f where f: "field_of_state s1 = Inr f" "\<forall>uf. f = Some uf \<longrightarrow> uf \<in> url_fields"
      using field_of_state_ok parse_url_char_next s1_def by metis
    have ih: "\<exists>r u'. url_loop strict buf n (Suc p) s1 o1 fa1 u1 = Inr (r, u') \<and> inside (p + Suc n) u' \<and> field_set u' \<subseteq> url_fields \<and> url_port u' = url_port u"
      if "inside (Suc p) u1" "o1 \<in> insert UF_MAX (field_set u1)" "field_set u1 \<subseteq> url_fields" "url_port u1 = url_port u" for o1 fa1 u1
      using Suc.IH [of "Suc p" u1 o1 s1 fa1] Suc.prems(1,2) that by simp
    show ?thesis
    proof (cases f)
      case None
      then show ?thesis using rd False f(1) ih [of u old_uf fa] Suc.prems(3-5) mono [of p u "Suc p"] by (simp add: s1_def [symmetric] Let_def)
    next
      case (Some uf)
      let ?fa = "fa \<or> s1 = s_req_server_with_at"
      show ?thesis
      proof (cases "uf = old_uf")
        case True
        then have uf: "uf \<in> field_set u" using Suc.prems(4) f(2) Some by (auto simp: url_fields_def)
        then have l: "field_off u uf + field_len u uf \<le> p" using Suc.prems(3) by (auto simp: inside_def)
        then have "inside (Suc p) (add_len uf u)" using Suc.prems(2,3) by (auto simp: inside_def add_len_def)
        then show ?thesis using rd False f(1) Some True ih [of "add_len uf u" old_uf ?fa] Suc.prems(4,5)
          by (simp add: s1_def [symmetric] Let_def add_len_def set_len_def)
      next
        case new: False
        let ?u = "mark_field uf (set_len uf 1 (set_off uf p u))"
        have "inside (Suc p) ?u" using Suc.prems(2,3) by (auto simp: inside_def)
        then show ?thesis using rd False f Some new ih [of ?u uf ?fa] Suc.prems(5)
          by (simp add: s1_def [symmetric] Let_def) (simp add: mark_field_def set_len_def set_off_def)
      qed
    qed
  qed
qed simp

text \<open>The host machine: what is noted before a state, and that the port starts with a digit.\<close>

definition before_host :: "http_host_state \<Rightarrow> bool" where
  "before_host s \<longleftrightarrow> s \<in> {s_http_userinfo_start, s_http_userinfo, s_http_host_start, s_http_host_v6_start}"

definition host_inv :: "string \<Rightarrow> nat \<Rightarrow> http_host_state \<Rightarrow> http_parser_url \<Rightarrow> bool" where
  "host_inv buf p s u \<longleftrightarrow>
     field_off u UF_HOST + field_len u UF_HOST \<le> p \<and>
     (UF_PORT \<in> field_set u \<longrightarrow> field_off u UF_PORT + field_len u UF_PORT \<le> p) \<and>
     (UF_USERINFO \<in> field_set u \<longrightarrow> field_off u UF_USERINFO + field_len u UF_USERINFO \<le> p) \<and>
     (before_host s \<longrightarrow> field_len u UF_HOST = 0) \<and>
     (s = s_http_host_port \<longrightarrow> UF_PORT \<in> field_set u) \<and> (s = s_http_userinfo \<longrightarrow> UF_USERINFO \<in> field_set u) \<and>
     UF_HOST \<in> field_set u \<and>
     (UF_PORT \<in> field_set u \<longrightarrow> field_off u UF_PORT < length buf \<and> isdigit (buf ! field_off u UF_PORT))"

definition host_step_ok :: "http_host_state \<Rightarrow> http_host_state \<Rightarrow> char \<Rightarrow> bool" where
  "host_step_ok s n ch \<longleftrightarrow> (before_host n \<longrightarrow> before_host s) \<and>
     (n \<in> {s_http_host, s_http_host_v6} \<and> s \<noteq> n \<longrightarrow> before_host s) \<and> (n = s_http_host_port \<longrightarrow> isdigit ch)"

lemma host_step: "host_step_ok s (http_parse_host_char strict s ch) ch"
  by (cases s) (auto simp: host_step_ok_def before_host_def http_parse_host_char_def Let_def IS_NUM_def isdigit_def)

lemma host_inv_add:
  assumes "host_inv buf p s u" "Suc p < 2 ^ 16"
  shows "field_off u UF_HOST + u16 (Suc (field_len u UF_HOST)) \<le> Suc p"
    "UF_PORT \<in> field_set u \<Longrightarrow> field_off u UF_PORT + u16 (Suc (field_len u UF_PORT)) \<le> Suc p"
    "UF_USERINFO \<in> field_set u \<Longrightarrow> field_off u UF_USERINFO + u16 (Suc (field_len u UF_USERINFO)) \<le> Suc p"
  using assms by (simp_all add: host_inv_def)

lemma host_note_ok:
  assumes inv: "host_inv buf p s u" and st: "host_step_ok s n ch" and p: "p < length buf" "buf ! p = ch" "Suc p < 2 ^ 16"
  shows "host_inv buf (Suc p) n (host_note s n p u)"
proof -
  have b: "\<not> before_host s_http_host" "\<not> before_host s_http_host_v6" "\<not> before_host s_http_host_v6_zone_start"
      "\<not> before_host s_http_host_v6_zone" "\<not> before_host s_http_host_port" "before_host s_http_userinfo"
    by (simp_all add: before_host_def)
  have up: "p < 65536" "u16 p = p" "u16 (Suc 0) = Suc 0" "u16 0 = 0" "1 < (65536 :: nat)" using p(3) by (simp_all add: u16_def)
  note a = host_inv_add [OF inv p(3)]
  note f = inv [unfolded host_inv_def]
  have le: "x \<le> p \<Longrightarrow> x \<le> Suc p" for x by simp
  consider (host) "n = s_http_host" | (v6) "n = s_http_host_v6" | (zs) "n = s_http_host_v6_zone_start" | (z) "n = s_http_host_v6_zone"
    | (port) "n = s_http_host_port" | (user) "n = s_http_userinfo" | (other) "host_note s n p u = u" "n \<noteq> s_http_host_port" "n \<noteq> s_http_userinfo"
    by (cases n) (auto simp: host_note_def)
  then show ?thesis
  proof cases
    case host
    have z: "s \<noteq> s_http_host \<Longrightarrow> field_len u UF_HOST = 0" using st host f by (simp add: host_step_ok_def)
    show ?thesis using f a up b z host by (simp add: host_inv_def host_note_def add_len_def le)
  next
    case v6
    have z: "s \<noteq> s_http_host_v6 \<Longrightarrow> field_len u UF_HOST = 0" using st v6 f by (simp add: host_step_ok_def)
    show ?thesis using f a up b z v6 by (simp add: host_inv_def host_note_def add_len_def le)
  next
    case zs
    then show ?thesis using f a up b by (simp add: host_inv_def host_note_def add_len_def le)
  next
    case z
    then show ?thesis using f a up b by (simp add: host_inv_def host_note_def add_len_def le)
  next
    case port
    then have d: "isdigit (buf ! p)" using st p(2) by (simp add: host_step_ok_def)
    show ?thesis using f a up b d p(1) port by (cases "s = s_http_host_port") (simp_all add: host_inv_def host_note_def add_len_def le)
  next
    case user
    then have bs: "before_host s" using st b by (simp add: host_step_ok_def)
    show ?thesis using f a up b bs user by (cases "s = s_http_userinfo") (simp_all add: host_inv_def host_note_def add_len_def le)
  next
    case other
    have z: "before_host n \<longrightarrow> field_len u UF_HOST = 0" using st f by (simp add: host_step_ok_def)
    show ?thesis unfolding other(1) host_inv_def using f other(2,3) z by (simp add: le)
  qed
qed

lemma host_note_frame:
  "f \<notin> {UF_HOST, UF_PORT, UF_USERINFO} \<Longrightarrow> field_off (host_note s n p u) f = field_off u f \<and> field_len (host_note s n p u) f = field_len u f"
  "field_set u \<subseteq> field_set (host_note s n p u)" "field_set (host_note s n p u) \<subseteq> field_set u \<union> {UF_PORT, UF_USERINFO}"
  by (cases n; auto simp: host_note_def add_len_def)+

lemma host_loop_ok:
  assumes "p + n \<le> length buf" "p + n < 2 ^ 16" "host_inv buf p s u"
  shows "\<exists>r u'. host_loop strict buf n p s u = Inr (r, u') \<and>
    (r \<noteq> None \<longrightarrow> (\<exists>s'. host_inv buf (p + n) s' u')) \<and>
    (\<forall>f. f \<notin> {UF_HOST, UF_PORT, UF_USERINFO} \<longrightarrow> field_off u' f = field_off u f \<and> field_len u' f = field_len u f) \<and>
    field_set u \<subseteq> field_set u' \<and> field_set u' \<subseteq> field_set u \<union> {UF_PORT, UF_USERINFO}"
  using assms
proof (induction n arbitrary: p s u)
  case (Suc n)
  define s1 where "s1 = http_parse_host_char strict s (buf ! p)"
  have rd: "rd buf p = Inr (buf ! p)" using Suc.prems(1) by (simp add: rd_def)
  show ?case
  proof (cases "s1 = s_http_host_dead")
    case True
    then show ?thesis using rd by (auto simp: s1_def [symmetric] Let_def)
  next
    case False
    have "host_inv buf (Suc p) s1 (host_note s s1 p u)"
      using host_note_ok [OF Suc.prems(3) host_step, of "buf ! p" strict] Suc.prems(1,2) by (simp add: s1_def)
    from Suc.IH [OF _ _ this] Suc.prems(1,2) obtain r u' where
      h: "host_loop strict buf n (Suc p) s1 (host_note s s1 p u) = Inr (r, u')" "r \<noteq> None \<longrightarrow> (\<exists>s'. host_inv buf (Suc p + n) s' u')"
      "\<forall>f. f \<notin> {UF_HOST, UF_PORT, UF_USERINFO} \<longrightarrow> field_off u' f = field_off (host_note s s1 p u) f \<and> field_len u' f = field_len (host_note s s1 p u) f"
      "field_set (host_note s s1 p u) \<subseteq> field_set u'" "field_set u' \<subseteq> field_set (host_note s s1 p u) \<union> {UF_PORT, UF_USERINFO}"
      by auto
    have "host_loop strict buf (Suc n) p s u = Inr (r, u')"
      using rd False h(1) by (simp add: s1_def [symmetric] Let_def)
    moreover have "field_set u \<subseteq> field_set u'" "field_set u' \<subseteq> field_set u \<union> {UF_PORT, UF_USERINFO}"
      using h(4,5) host_note_frame(2) [of u s s1 p] host_note_frame(3) [of s s1 p u] by blast+
    moreover have "\<forall>f. f \<notin> {UF_HOST, UF_PORT, UF_USERINFO} \<longrightarrow> field_off u' f = field_off u f \<and> field_len u' f = field_len u f"
      using h(3) host_note_frame(1) [of _ s s1 p u] by metis
    ultimately show ?thesis using h(2) by auto
  qed
qed auto

lemma http_parse_host_ok:
  assumes "UF_HOST \<in> field_set u" "field_off u UF_HOST + field_len u UF_HOST \<le> length buf"
    "field_off u UF_HOST + field_len u UF_HOST < 2 ^ 16" "field_set u \<subseteq> url_fields"
  shows "\<exists>rc u'. http_parse_host strict buf u fa = Inr (rc, u') \<and>
    (rc = 0 \<longrightarrow> (\<exists>s'. host_inv buf (field_off u UF_HOST + field_len u UF_HOST) s' u')) \<and>
    (\<forall>f. f \<notin> {UF_HOST, UF_PORT, UF_USERINFO} \<longrightarrow> field_off u' f = field_off u f \<and> field_len u' f = field_len u f) \<and>
    field_set u' \<subseteq> field_set u \<union> {UF_PORT, UF_USERINFO}"
proof -
  let ?u = "set_len UF_HOST 0 u" and ?s = "if fa then s_http_userinfo_start else s_http_host_start"
  have "host_inv buf (field_off u UF_HOST) ?s ?u"
    using assms(1,4) by (auto simp: host_inv_def url_fields_def before_host_def)
  from host_loop_ok [OF assms(2,3) this, of strict] obtain r u' where
    h: "host_loop strict buf (field_len u UF_HOST) (field_off u UF_HOST) ?s ?u = Inr (r, u')"
      "r \<noteq> None \<longrightarrow> (\<exists>s'. host_inv buf (field_off u UF_HOST + field_len u UF_HOST) s' u')"
      "\<forall>f. f \<notin> {UF_HOST, UF_PORT, UF_USERINFO} \<longrightarrow> field_off u' f = field_off ?u f \<and> field_len u' f = field_len ?u f"
      "field_set u' \<subseteq> field_set ?u \<union> {UF_PORT, UF_USERINFO}" by blast
  have "\<exists>rc. http_parse_host strict buf u fa = Inr (rc, u') \<and> (rc = 0 \<longrightarrow> r \<noteq> None)"
    using h(1) assms(1) by (cases r) (simp_all add: http_parse_host_def Let_def)
  then obtain rc where "http_parse_host strict buf u fa = Inr (rc, u')" "rc = 0 \<longrightarrow> r \<noteq> None" by blast
  then show ?thesis using h(2-4) by (intro exI [of _ rc] exI [of _ u']) auto
qed

lemma strtoul10_ok:
  assumes "off < length m" "isdigit (m ! off)" "off \<le> i" "i < length m" "\<not> isdigit (m ! i)"
  shows "\<exists>v. strtoul10 m off = Inr v"
proof -
  have d: "drop off m = m ! off # drop (Suc off) m" using Cons_nth_drop_Suc [OF assms(1)] by simp
  have nsp: "\<not> isspace (m ! off)" "m ! off \<noteq> CHR ''-''" "m ! off \<noteq> CHR ''+''"
    using assms(2) by (auto simp: isdigit_def isspace_def byte_val_def)
  then have "dropWhile isspace (drop off m) = drop off m" by (simp add: d)
  moreover have "m ! i \<in> set (drop off m)" using assms(3,4) nth_mem [of "i - off" "drop off m"] by simp
  then have "takeWhile isdigit (drop off m) \<noteq> drop off m" using assms(5) by (metis takeWhile_eq_all_conv)
  then have "length (takeWhile isdigit (drop off m)) \<noteq> length (drop off m)"
    by (metis takeWhile_eq_take take_all_iff order_refl)
  ultimately show ?thesis using nsp by (simp add: strtoul10_def Let_def d)
qed

lemma url_finish_ok:
  assumes "UF_PORT \<in> field_set u \<longrightarrow> field_off u UF_PORT < length buf \<and> isdigit (buf ! field_off u UF_PORT) \<and> field_off u UF_PORT \<le> i"
    "i < length buf" "\<not> isdigit (buf ! i)"
  shows "\<exists>rc u'. url_finish is_connect buf u = Inr (rc, u') \<and> field_set u' = field_set u \<and> field_off u' = field_off u \<and>
    field_len u' = field_len u \<and> (rc = 0 \<and> UF_PORT \<in> field_set u \<longrightarrow> url_port u' < 2 ^ 16)"
proof (cases "UF_PORT \<in> field_set u")
  case True
  then obtain v where "strtoul10 buf (field_off u UF_PORT) = Inr v" using strtoul10_ok [OF _ _ _ assms(2,3)] assms(1) by blast
  then show ?thesis using True by (simp add: url_finish_def)
qed (simp add: url_finish_def)

text \<open>
  C6. The URL parser reads only the URL and, for a port, the byte that ends it, and
  commits no fault on any input, in either mode of compilation. When it accepts, every component it
  marks lies inside the URL and a port fits 16 bits. The URL is shorter than 64 KB, so that no
  16-bit offset wraps, and the byte behind it is not a digit.
\<close>

theorem parse_url_inside:
  assumes "buflen < length buf" "\<not> isdigit (buf ! buflen)" "buflen < 2 ^ 16"
  shows "\<exists>rc u. http_parser_parse_url strict buf buflen is_connect u0 = Inr (rc, u) \<and>
    (rc = 0 \<longrightarrow> (\<forall>f \<in> field_set u. field_off u f + field_len u f \<le> buflen) \<and> (UF_PORT \<in> field_set u \<longrightarrow> url_port u < 2 ^ 16))"
proof -
  let ?s = "if is_connect then s_req_server_start else s_req_spaces_before_url" and ?u0 = "u0\<lparr>url_port := 0, field_set := {}\<rparr>"
  have "\<exists>r u. url_loop strict buf buflen 0 ?s UF_MAX False ?u0 = Inr (r, u) \<and> inside (0 + buflen) u \<and> field_set u \<subseteq> url_fields \<and>
      url_port u = url_port ?u0"
    using assms by (intro url_loop_ok) (simp_all add: inside_def)
  then obtain r u where l: "url_loop strict buf buflen 0 ?s UF_MAX False ?u0 = Inr (r, u)" "inside buflen u" "field_set u \<subseteq> url_fields"
    by auto
  have fin: ?thesis if "http_parser_parse_url strict buf buflen is_connect u0 = url_finish is_connect buf u1"
    "\<forall>f \<in> field_set u1. field_off u1 f + field_len u1 f \<le> buflen"
    "UF_PORT \<in> field_set u1 \<longrightarrow> field_off u1 UF_PORT < length buf \<and> isdigit (buf ! field_off u1 UF_PORT) \<and> field_off u1 UF_PORT \<le> buflen" for u1
    using url_finish_ok [OF that(3) assms(1,2), of is_connect] that(1,2) by auto
  show ?thesis
  proof (cases r)
    case None
    then show ?thesis using l(1) by (simp add: http_parser_parse_url_def)
  next
    case (Some fa)
    note top = http_parser_parse_url_def [of strict buf buflen is_connect u0, unfolded l(1) Some rbind_simps prod.case option.case]
    show ?thesis
    proof (cases "UF_HOST \<in> field_set u")
      case False
      show ?thesis
      proof (cases "UF_SCHEMA \<in> field_set u")
        case True
        then show ?thesis using False by (simp add: top)
      next
        case ns: False
        have "UF_PORT \<notin> field_set u" using l(3) by (auto simp: url_fields_def)
        then show ?thesis using False ns l(2) by (intro fin [of u]) (auto simp: top inside_def)
      qed
    next
      case True
      have hb: "field_off u UF_HOST + field_len u UF_HOST \<le> buflen" using l(2) True by (auto simp: inside_def)
      then have hb': "field_off u UF_HOST + field_len u UF_HOST \<le> length buf" "field_off u UF_HOST + field_len u UF_HOST < 2 ^ 16"
        using assms by linarith+
      from http_parse_host_ok [OF True hb' l(3), of strict fa] obtain rc u1 where
        h: "http_parse_host strict buf u fa = Inr (rc, u1)"
          "rc = 0 \<longrightarrow> (\<exists>s'. host_inv buf (field_off u UF_HOST + field_len u UF_HOST) s' u1)"
          "\<forall>f. f \<notin> {UF_HOST, UF_PORT, UF_USERINFO} \<longrightarrow> field_off u1 f = field_off u f \<and> field_len u1 f = field_len u f"
          "field_set u1 \<subseteq> field_set u \<union> {UF_PORT, UF_USERINFO}" by blast
      show ?thesis
      proof (cases "rc = 0")
        case False
        then show ?thesis using True h(1) by (simp add: top)
      next
        case ok: True
        then obtain s' where inv: "host_inv buf (field_off u UF_HOST + field_len u UF_HOST) s' u1" using h(2) by blast
        have all: "field_off u1 f + field_len u1 f \<le> buflen" if "f \<in> field_set u1" for f
        proof (cases "f \<in> {UF_HOST, UF_PORT, UF_USERINFO}")
          case in_host: True
          then show ?thesis using inv that hb by (auto simp: host_inv_def)
        next
          case out: False
          then have "f \<in> field_set u" using that h(4) by auto
          then show ?thesis using out h(3) l(2) by (auto simp: inside_def)
        qed
        show ?thesis
        proof (rule fin [of u1])
          show "http_parser_parse_url strict buf buflen is_connect u0 = url_finish is_connect buf u1"
            using True h(1) ok by (simp add: top)
          show "\<forall>f \<in> field_set u1. field_off u1 f + field_len u1 f \<le> buflen" using all by blast
          show "UF_PORT \<in> field_set u1 \<longrightarrow> field_off u1 UF_PORT < length buf \<and> isdigit (buf ! field_off u1 UF_PORT) \<and> field_off u1 UF_PORT \<le> buflen"
            using inv all [of UF_PORT] unfolding host_inv_def by linarith
        qed
      qed
    qed
  qed
qed

theorem parse_url_inside_witness:
  "\<exists>rc u. http_parser_parse_url True (''http://a:80/x'' @ [NUL]) 13 False http_parser_url_init = Inr (rc, u) \<and>
    (rc = 0 \<longrightarrow> (\<forall>f \<in> field_set u. field_off u f + field_len u f \<le> 13) \<and> (UF_PORT \<in> field_set u \<longrightarrow> url_port u < 2 ^ 16))"
  using parse_url_inside [of 13 "''http://a:80/x'' @ [NUL]" True False http_parser_url_init] by (simp add: isdigit_def byte_val_def)

section \<open>Paths and queries\<close>

lemma url_char_plain:
  assumes "IS_URL_CHAR strict c"
  shows "c \<noteq> CHR '' ''" "c \<noteq> CR" "c \<noteq> LF" "strict \<Longrightarrow> c \<noteq> CHR 0x09" "strict \<Longrightarrow> c \<noteq> CHR 0x0C" "c \<noteq> CHR ''?''" "c \<noteq> CHR ''#''"
  using assms by (auto simp: IS_URL_CHAR_def BIT_AT_def normal_url_char_def byte_val_def split: if_splits)

lemma url_char_steps:
  assumes "IS_URL_CHAR strict c"
  shows "parse_url_char strict s_req_path c = s_req_path"
    "parse_url_char strict s_req_query_string c = s_req_query_string" "parse_url_char strict s_req_query_string_start c = s_req_query_string"
  using url_char_plain [OF assms] assms by (auto simp: parse_url_char_def)

definition query_char :: "bool \<Rightarrow> char \<Rightarrow> bool" where
  "query_char strict c \<longleftrightarrow> IS_URL_CHAR strict c \<or> c = CHR ''?''"

lemma query_char_steps:
  assumes "query_char strict c"
  shows "parse_url_char strict s_req_query_string c = s_req_query_string" "parse_url_char strict s_req_query_string_start c = s_req_query_string"
proof -
  have "parse_url_char strict s c = s_req_query_string" if s: "s = s_req_query_string \<or> s = s_req_query_string_start" for s
  proof (cases "IS_URL_CHAR strict c")
    case True
    then show ?thesis using s url_char_steps(2,3) by blast
  next
    case False
    then have "c = CHR ''?''" using assms by (simp add: query_char_def)
    then show ?thesis using s by (auto simp: parse_url_char_def)
  qed
  then show "parse_url_char strict s_req_query_string c = s_req_query_string" "parse_url_char strict s_req_query_string_start c = s_req_query_string"
    by blast+
qed

lemma set_len_twice [simp]: "set_len f a (set_len f b u) = set_len f a u"
  by (simp add: set_len_def)

lemma run_field:
  assumes "take (length xs) (drop p buf) = xs" "\<forall>c \<in> set xs. parse_url_char strict s c = s"
    and "field_of_state s = Inr (Some f)" "s \<noteq> s_dead" "s \<noteq> s_req_server_with_at" "field_len u f + length xs < 2 ^ 16"
  shows "url_loop strict buf (length xs + k) p s f fa u =
    url_loop strict buf k (p + length xs) s f fa (if xs = [] then u else set_len f (field_len u f + length xs) u)"
  using assms(1,2,6)
proof (induction xs arbitrary: p u)
  case (Cons x xs)
  have d: "p < length buf" "buf ! p = x" "take (length xs) (drop (Suc p) buf) = xs"
  proof -
    show p: "p < length buf" by (rule ccontr) (use Cons.prems(1) in simp)
    have "drop p buf = buf ! p # drop (Suc p) buf" using Cons_nth_drop_Suc [OF p] by simp
    then show "buf ! p = x" "take (length xs) (drop (Suc p) buf) = xs" using Cons.prems(1) by auto
  qed
  have l: "field_len (add_len f u) f = field_len u f + 1" using Cons.prems(3) by (simp add: add_len_def)
  have "url_loop strict buf (length (x # xs) + k) p s f fa u = url_loop strict buf (length xs + k) (Suc p) s f fa (add_len f u)"
    using d assms(3-5) Cons.prems(2) by (simp add: rd_def Let_def)
  also have "\<dots> = url_loop strict buf k (Suc p + length xs) s f fa (if xs = [] then add_len f u else set_len f (field_len (add_len f u) f + length xs) (add_len f u))"
    using Cons.prems d(3) l by (intro Cons.IH) auto
  also have "(if xs = [] then add_len f u else set_len f (field_len (add_len f u) f + length xs) (add_len f u)) = set_len f (field_len u f + length (x # xs)) u"
    using l by (auto simp: add_len_def)
  finally show ?case by simp
qed simp

text \<open>
  C28. For the targets the server routes, a path that begins with a slash and
  consists of URL characters, followed by nothing, or by a question mark and a query, the parser
  succeeds and marks exactly the path and, when it is not empty, the query, with their offsets and lengths.
\<close>

lemma parse_url_accept:
  assumes "url_loop strict buf n 0 s_req_spaces_before_url UF_MAX False (u0\<lparr>url_port := 0, field_set := {}\<rparr>) = Inr (Some fa, u)"
    "UF_SCHEMA \<notin> field_set u" "UF_HOST \<notin> field_set u" "UF_PORT \<notin> field_set u"
  shows "http_parser_parse_url strict buf n False u0 = Inr (0, u)"
  unfolding http_parser_parse_url_def if_False assms(1) rbind_simps prod.case option.case
  using assms(2-4) by (simp add: url_finish_def)

theorem parse_url_path_query:
  assumes "\<forall>c \<in> set xs. IS_URL_CHAR strict c" "\<forall>c \<in> set q. query_char strict c" "length xs + length q + 2 < 2 ^ 16" "q \<noteq> []"
  shows "(\<exists>u. http_parser_parse_url strict (CHR ''/'' # xs @ rest) (Suc (length xs)) False u0 = Inr (0, u) \<and>
      field_set u = {UF_PATH} \<and> field_off u UF_PATH = 0 \<and> field_len u UF_PATH = Suc (length xs)) \<and>
    (\<exists>u. http_parser_parse_url strict (CHR ''/'' # xs @ CHR ''?'' # q @ rest) (Suc (Suc (length xs + length q))) False u0 = Inr (0, u) \<and>
      field_set u = {UF_PATH, UF_QUERY} \<and> field_off u UF_PATH = 0 \<and> field_len u UF_PATH = Suc (length xs) \<and>
      field_off u UF_QUERY = Suc (Suc (length xs)) \<and> field_len u UF_QUERY = length q)"
proof -
  let ?u0 = "u0\<lparr>url_port := 0, field_set := {}\<rparr>"
  let ?u1 = "mark_field UF_PATH (set_len UF_PATH 1 (set_off UF_PATH 0 ?u0))"
  define u2 where "u2 = (if xs = [] then ?u1 else set_len UF_PATH (field_len ?u1 UF_PATH + length xs) ?u1)"
  have u2: "field_set u2 = {UF_PATH}" "field_off u2 UF_PATH = 0" "field_len u2 UF_PATH = Suc (length xs)"
    using assms(3) by (auto simp: u2_def)
  have start: "url_loop strict (CHR ''/'' # xs @ r) (Suc (length xs + k)) 0 s_req_spaces_before_url UF_MAX False ?u0 =
      url_loop strict (CHR ''/'' # xs @ r) k (Suc (length xs)) s_req_path UF_PATH False u2" for r k
  proof -
    have "url_loop strict (CHR ''/'' # xs @ r) (Suc (length xs + k)) 0 s_req_spaces_before_url UF_MAX False ?u0 =
        url_loop strict (CHR ''/'' # xs @ r) (length xs + k) (Suc 0) s_req_path UF_PATH False ?u1"
      by (simp add: rd_def parse_url_char_def field_of_state_def Let_def)
    also have "\<dots> = url_loop strict (CHR ''/'' # xs @ r) k (Suc 0 + length xs) s_req_path UF_PATH False u2"
      unfolding u2_def using assms(1,3) url_char_steps(1) by (intro run_field) (auto simp: field_of_state_def)
    finally show ?thesis by simp
  qed
  have "http_parser_parse_url strict (CHR ''/'' # xs @ rest) (Suc (length xs)) False u0 = Inr (0, u2)"
    using start [of rest 0, unfolded add_0_right url_loop.simps(1)] u2(1) by (intro parse_url_accept) simp_all
  then have path: "\<exists>u. http_parser_parse_url strict (CHR ''/'' # xs @ rest) (Suc (length xs)) False u0 = Inr (0, u) \<and>
      field_set u = {UF_PATH} \<and> field_off u UF_PATH = 0 \<and> field_len u UF_PATH = Suc (length xs)" using u2 by blast
  obtain c q' where q: "q = c # q'" using assms(4) by (cases q) auto
  let ?buf = "CHR ''/'' # xs @ CHR ''?'' # q @ rest"
  let ?u3 = "mark_field UF_QUERY (set_len UF_QUERY 1 (set_off UF_QUERY (Suc (Suc (length xs))) u2))"
  define u4 where "u4 = (if q' = [] then ?u3 else set_len UF_QUERY (field_len ?u3 UF_QUERY + length q') ?u3)"
  have u4: "field_set u4 = {UF_PATH, UF_QUERY}" "field_off u4 UF_PATH = 0" "field_len u4 UF_PATH = Suc (length xs)"
      "field_off u4 UF_QUERY = Suc (Suc (length xs))" "field_len u4 UF_QUERY = length q"
    using assms(3) u2 by (auto simp: u4_def q)
  have nu: "\<not> IS_URL_CHAR strict (CHR ''?'')" using url_char_plain(6) by blast
  have r1: "rd ?buf (Suc (length xs)) = Inr (CHR ''?'')" and r2: "rd ?buf (Suc (Suc (length xs))) = Inr c"
    by (simp_all add: rd_def nth_append q)
  have p1: "parse_url_char strict s_req_path (CHR ''?'') = s_req_query_string_start" using nu by (simp add: parse_url_char_def)
  have p2: "parse_url_char strict s_req_query_string_start c = s_req_query_string" using query_char_steps(2) assms(2) by (simp add: q)
  have f: "field_of_state s_req_query_string_start = Inr None" "field_of_state s_req_query_string = Inr (Some UF_QUERY)"
    by (simp_all add: field_of_state_def)
  have "url_loop strict ?buf (Suc (length xs + Suc (Suc (length q')))) 0 s_req_spaces_before_url UF_MAX False ?u0 =
      url_loop strict ?buf (Suc (Suc (length q'))) (Suc (length xs)) s_req_path UF_PATH False u2" by (rule start)
  also have "\<dots> = url_loop strict ?buf (Suc (length q')) (Suc (Suc (length xs))) s_req_query_string_start UF_PATH False u2"
    unfolding url_loop.simps(2) [of strict ?buf "Suc (length q')"] r1 rbind_simps Let_def p1 f option.case by simp
  also have "\<dots> = url_loop strict ?buf (length q' + 0) (Suc (Suc (Suc (length xs)))) s_req_query_string UF_QUERY False ?u3"
    unfolding url_loop.simps(2) [of strict ?buf "length q'"] r2 rbind_simps Let_def p2 f option.case by simp
  also have "\<dots> = url_loop strict ?buf 0 (Suc (Suc (Suc (length xs))) + length q') s_req_query_string UF_QUERY False u4"
    unfolding u4_def using assms(2,3) query_char_steps(1) by (intro run_field) (auto simp: field_of_state_def q)
  finally have "url_loop strict ?buf (Suc (Suc (length xs + length q))) 0 s_req_spaces_before_url UF_MAX False ?u0 = Inr (Some False, u4)"
    unfolding url_loop.simps(1) q by simp
  then have "http_parser_parse_url strict ?buf (Suc (Suc (length xs + length q))) False u0 = Inr (0, u4)"
    using u4(1) by (intro parse_url_accept) simp_all
  then show ?thesis using path u4 by blast
qed

theorem parse_url_path_query_witness:
  "\<exists>u. http_parser_parse_url True (''/page?n=1'' @ '' HTTP'') 9 False http_parser_url_init = Inr (0, u) \<and>
    field_set u = {UF_PATH, UF_QUERY} \<and> field_off u UF_QUERY = 6 \<and> field_len u UF_QUERY = 3"
proof -
  have "\<forall>c \<in> set ''page''. IS_URL_CHAR True c" "\<forall>c \<in> set ''n=1''. query_char True c" by code_simp+
  from parse_url_path_query [OF this, of "'' HTTP''" http_parser_url_init] obtain u where
    "http_parser_parse_url True (CHR ''/'' # ''page'' @ CHR ''?'' # ''n=1'' @ '' HTTP'') (Suc (Suc (length ''page'' + length ''n=1''))) False
       http_parser_url_init = Inr (0, u)" "field_set u = {UF_PATH, UF_QUERY}" "field_off u UF_QUERY = Suc (Suc (length ''page''))"
    "field_len u UF_QUERY = length ''n=1''" by auto
  then show ?thesis by (intro exI [of _ u]) (simp add: eval_nat_numeral)
qed

end
