(* ===== verification/H3.thy ===== *)
theory H3
  imports Prelude
begin

text \<open>
  \<open>deps/h3\<close>: the parser of HTTP request lines and header fields. It scans a zero-terminated text by
  the macros of \<open>src/scanner.h\<close>, which look one character ahead, and notes pointers into the text and
  lengths. A position is an offset into the block that holds the text; every character read is checked
  against the end of the block. \<open>notcrlf\<close> is not the negation of \<open>iscrlf\<close>: it also fails in front of a
  line feed.
\<close>

section \<open>Scanning\<close>

definition iscrlf :: "string \<Rightarrow> nat \<Rightarrow> bool res" where
  "iscrlf m p = rbind (rd m p) (\<lambda>c. if c = CR then rbind (rd m (p + 1)) (\<lambda>d. Inr (d = LF)) else Inr False)"

definition notcrlf :: "string \<Rightarrow> nat \<Rightarrow> bool res" where
  "notcrlf m p = rbind (rd m p) (\<lambda>c. if c \<noteq> CR then rbind (rd m (p + 1)) (\<lambda>d. Inr (d \<noteq> LF)) else Inr False)"

definition notend :: "string \<Rightarrow> nat \<Rightarrow> bool res" where
  "notend m p = rbind (rd m p) (\<lambda>c. Inr (c \<noteq> NUL))"

definition at_end :: "string \<Rightarrow> nat \<Rightarrow> bool res" where
  "at_end m p = rbind (rd m p) (\<lambda>c. Inr (c = NUL))"

definition space_at :: "string \<Rightarrow> nat \<Rightarrow> bool res" where
  "space_at m p = rbind (rd m p) (\<lambda>c. Inr (isspace c))"

text \<open>The operators \<open>&&\<close>, \<open>||\<close> and \<open>!\<close> on conditions that read memory.\<close>

definition c_and :: "bool res \<Rightarrow> bool res \<Rightarrow> bool res" where
  "c_and a b = rbind a (\<lambda>x. if x then b else Inr False)"

definition c_or :: "bool res \<Rightarrow> bool res \<Rightarrow> bool res" where
  "c_or a b = rbind a (\<lambda>x. if x then Inr True else b)"

definition c_not :: "bool res \<Rightarrow> bool res" where
  "c_not a = rbind a (\<lambda>x. Inr (\<not> x))"

text \<open>\<open>while (cond) p++;\<close>\<close>

function scan_while :: "(string \<Rightarrow> nat \<Rightarrow> bool res) \<Rightarrow> string \<Rightarrow> nat \<Rightarrow> nat res" where
  "scan_while cond m p =
     rbind (cond m p) (\<lambda>b.
     if \<not> b then Inr p
     else if length m \<le> p then Inl OutOfBounds
     else scan_while cond m (Suc p))"
  by pat_completeness auto
termination by (relation "measure (\<lambda>(cond, m, p). length m - p)") auto

declare scan_while.simps [simp del]

lemma scan_while_ge: "scan_while cond m p = Inr q \<Longrightarrow> p \<le> q"
proof (induction cond m p rule: scan_while.induct)
  case (1 cond m p)
  show ?case
  proof (cases "\<exists>b. cond m p = Inr b \<and> b \<and> p < length m")
    case True
    then have "scan_while cond m p = scan_while cond m (Suc p)" by (subst scan_while.simps) auto
    then show ?thesis using True 1 by fastforce
  next
    case False
    then show ?thesis using "1.prems" by (subst (asm) scan_while.simps) (auto split: if_splits)
  qed
qed

section \<open>The request header\<close>

datatype h3_ptr = NullPtr | InBody nat | DefaultVersion

record HeaderField =
  FieldName :: h3_ptr
  FieldNameLen :: int
  Value :: h3_ptr
  ValueLen :: int

record RequestHeader =
  RequestLineStart :: h3_ptr
  RequestLineEnd :: h3_ptr
  RequestMethod :: h3_ptr
  RequestMethodLen :: int
  RequestURI :: h3_ptr
  RequestURILen :: int
  HTTPVersion :: h3_ptr
  HTTPVersionLen :: int
  HeaderSize :: nat
  Fields :: "HeaderField list"

definition MAX_HEADER_SIZE :: nat where
  "MAX_HEADER_SIZE = 20"

definition no_field :: HeaderField where
  "no_field = \<lparr>FieldName = NullPtr, FieldNameLen = 0, Value = NullPtr, ValueLen = 0\<rparr>"

definition h3_request_header_new :: RequestHeader where
  "h3_request_header_new =
     \<lparr>RequestLineStart = NullPtr, RequestLineEnd = NullPtr, RequestMethod = NullPtr, RequestMethodLen = 0,
      RequestURI = NullPtr, RequestURILen = 0, HTTPVersion = NullPtr, HTTPVersionLen = 0, HeaderSize = 0,
      Fields = replicate MAX_HEADER_SIZE no_field\<rparr>"

text \<open>No position is the answer \<open>NULL\<close>. The parameter \<open>bodyLength\<close> of the source is not used by it.\<close>

definition h3_request_line_parse :: "RequestHeader \<Rightarrow> string \<Rightarrow> (nat option \<times> RequestHeader) res" where
  "h3_request_line_parse header m =
     (let h0 = header\<lparr>RequestLineStart := InBody 0\<rparr> in
      rbind (scan_while (\<lambda>m p. c_and (notend m p) (c_not (space_at m p))) m 0) (\<lambda>p1.
      rbind (c_or (at_end m p1) (iscrlf m p1)) (\<lambda>failed.
      if failed then Inr (None, h0)
      else
        (let h1 = h0\<lparr>RequestMethod := InBody 0, RequestMethodLen := to_int32 (int p1)\<rparr> in
        rbind (scan_while (\<lambda>m p. c_and (c_and (space_at m p) (notcrlf m p)) (notend m p)) m p1) (\<lambda>p2.
        rbind (scan_while (\<lambda>m p. c_and (c_and (c_not (space_at m p)) (notcrlf m p)) (notend m p)) m p2) (\<lambda>p3.
        let h2 = h1\<lparr>RequestURI := InBody p2, RequestURILen := to_int32 (int p3 - int p2)\<rparr> in
        rbind (c_or (iscrlf m p3) (at_end m p3)) (\<lambda>no_version.
        if no_version then Inr (Some p3, h2\<lparr>HTTPVersion := DefaultVersion\<rparr>)
        else
          rbind (scan_while (\<lambda>m p. c_and (space_at m p) (notcrlf m p)) m p3) (\<lambda>p4.
          rbind (scan_while (\<lambda>m p. c_and (c_not (space_at m p)) (notcrlf m p)) m p4) (\<lambda>p5.
          Inr (Some p5, h2\<lparr>HTTPVersion := InBody p4, HTTPVersionLen := to_int32 (int p5 - int p4)\<rparr>))))))))))"

text \<open>
  One round of the loop over header fields: the code returns (\<open>FieldDone\<close> with its result), or goes on
  at a position if that is not the end of the text.
\<close>

datatype field_step = FieldDone int RequestHeader | FieldNext nat RequestHeader

definition h3_parse_field :: "string \<Rightarrow> nat \<Rightarrow> RequestHeader \<Rightarrow> field_step res" where
  "h3_parse_field m p header =
     (let i = HeaderSize header; h0 = header\<lparr>HeaderSize := Suc i\<rparr> in
      if length (Fields header) \<le> i then Inl OutOfBounds
      else
        rbind (scan_while (\<lambda>m p. c_and (notend m p) (rbind (rd m p) (\<lambda>c. Inr (c \<noteq> CHR '':'')))) m p) (\<lambda>p1.
        let f1 = (Fields h0 ! i)\<lparr>FieldName := InBody p, FieldNameLen := to_int32 (int p1 - int p)\<rparr>;
            h1 = h0\<lparr>Fields := (Fields h0)[i := f1]\<rparr>; p2 = Suc p1 in
        rbind (c_or (at_end m p2) (iscrlf m p2)) (\<lambda>bad.
        if bad then Inr (FieldDone (-1) h1)
        else
          rbind (scan_while (\<lambda>m p. c_and (notend m p) (space_at m p)) m p2) (\<lambda>p3.
          rbind (c_or (at_end m p3) (iscrlf m p3)) (\<lambda>bad.
          if bad then Inr (FieldDone (-1) h1)
          else
            rbind (scan_while (\<lambda>m p. c_and (notend m p) (notcrlf m p)) m p3) (\<lambda>p4.
            let f2 = f1\<lparr>Value := InBody p3, ValueLen := to_int32 (int p4 - int p3)\<rparr>;
                h2 = h1\<lparr>Fields := (Fields h1)[i := f2]\<rparr>; p5 = p4 + 2 in
            rbind (iscrlf m p5) (\<lambda>last.
            if last then Inr (FieldDone 0 h2) else Inr (FieldNext p5 h2))))))))"

lemma h3_parse_field_next: "h3_parse_field m p h = Inr (FieldNext q h') \<Longrightarrow> p < q"
  by (auto simp: h3_parse_field_def Let_def split: if_splits dest!: scan_while_ge)

function h3_field_loop :: "string \<Rightarrow> nat \<Rightarrow> RequestHeader \<Rightarrow> (int \<times> RequestHeader) res" where
  "h3_field_loop m p h =
     rbind (h3_parse_field m p h) (\<lambda>r.
     case r of
       FieldDone rc h' \<Rightarrow> Inr (rc, h')
     | FieldNext q h' \<Rightarrow>
         rbind (notend m q) (\<lambda>again.
         if \<not> again then Inr (0, h')
         else if length m \<le> q then Inl OutOfBounds
         else h3_field_loop m q h'))"
  by pat_completeness auto
termination
  by (relation "measure (\<lambda>(m, p, h). length m - p)") (auto dest: h3_parse_field_next)

declare h3_field_loop.simps [simp del]

definition h3_request_header_parse :: "RequestHeader \<Rightarrow> string \<Rightarrow> (int \<times> RequestHeader) res" where
  "h3_request_header_parse header m =
     rbind (h3_request_line_parse header m) (\<lambda>(pos, h1).
     case pos of
       None \<Rightarrow> Inr (-1, h1)
     | Some p \<Rightarrow>
         rbind (at_end m p) (\<lambda>e1.
         if e1 then Inr (-1, h1)
         else
           rbind (at_end m (p + 2)) (\<lambda>e2.
           if e2 then Inr (0, h1)
           else h3_field_loop m (p + 2) (h1\<lparr>HeaderSize := 0\<rparr>))))"

section \<open>Scanning a word\<close>

lemma rd_append [simp]: "rd (a @ b) (length a + k) = rd b k"
  by (simp add: rd_def)

lemma rd_append_0 [simp]: "rd (a @ b) (length a) = rd b 0"
  using rd_append [of a b 0] by simp

lemma rd_append_Suc [simp]:
  "rd (a @ b) (Suc (length a)) = rd b 1"
  "rd (a @ b) (Suc (length a + k)) = rd b (Suc k)"
  using rd_append [of a b 1] rd_append [of a b "Suc k"] by simp_all

lemma rd_Cons [simp]:
  "rd (x # b) 0 = Inr x"
  "rd (x # b) (Suc k) = rd b k"
  by (simp_all add: rd_def)

lemma scan_while_stop: "cond m p = Inr False \<Longrightarrow> scan_while cond m p = Inr p"
  by (subst scan_while.simps) simp

lemma scan_while_next:
  "cond m p = Inr True \<Longrightarrow> p < length m \<Longrightarrow> scan_while cond m p = scan_while cond m (Suc p)"
  by (subst scan_while.simps) simp

text \<open>A loop runs over a word when its condition holds at every character of it and fails behind it.\<close>

lemma scan_while_word:
  assumes "\<And>i. i < length w \<Longrightarrow> cond (a @ w @ b) (length a + i) = Inr True"
    and "cond (a @ w @ b) (length a + length w) = Inr False"
  shows "scan_while cond (a @ w @ b) (length a) = Inr (length a + length w)"
  using assms
proof (induction w arbitrary: a)
  case Nil
  then show ?case by (simp add: scan_while_stop)
next
  case (Cons x w)
  have "cond ((a @ [x]) @ w @ b) (length (a @ [x]) + i) = Inr True" if "i < length w" for i
    using Cons.prems(1) [of "Suc i"] that by simp
  moreover have "cond ((a @ [x]) @ w @ b) (length (a @ [x]) + length w) = Inr False"
    using Cons.prems(2) by simp
  ultimately have "scan_while cond (a @ x # w @ b) (Suc (length a)) = Inr (Suc (length a + length w))"
    using Cons.IH [of "a @ [x]"] by simp
  moreover have "cond (a @ x # w @ b) (length a) = Inr True"
    using Cons.prems(1) [of 0] by simp
  ultimately show ?case by (simp add: scan_while_next)
qed

lemma rd_word:
  "i < length w \<Longrightarrow> rd (w @ b) i = Inr (w ! i)"
  by (simp add: rd_def nth_append)

text \<open>Behind a word stands a character that is not a line feed, so the look-ahead never sees one in the word.\<close>

lemma notcrlf_word:
  assumes "i < length w" "CR \<notin> set w" "LF \<notin> set w" "c \<noteq> LF"
  shows "notcrlf (a @ w @ c # b) (length a + i) = Inr True"
proof -
  have "rd (a @ w @ c # b) (length a + i + 1) = Inr ((w @ [c]) ! Suc i)"
    using assms(1) by (auto simp: rd_def nth_append nth_Cons')
  moreover have "(w @ [c]) ! Suc i \<noteq> LF"
    using assms by (auto simp: nth_append nth_Cons' split: if_splits) (metis Suc_lessI nth_mem)
  moreover have "w ! i \<noteq> CR" using assms nth_mem by metis
  ultimately show ?thesis using assms(1) by (simp add: notcrlf_def rd_word)
qed

lemma c_simps [simp]:
  "c_and (Inr True) y = y" "c_and (Inr False) y = Inr False"
  "c_or (Inr True) y = Inr True" "c_or (Inr False) y = y"
  "c_not (Inr b) = Inr (\<not> b)"
  "c_and (Inr x) (Inr z) = Inr (x \<and> z)" "c_or (Inr x) (Inr z) = Inr (x \<or> z)"
  by (simp_all add: c_and_def c_or_def c_not_def)

lemma space_char [simp]: "isspace CR" "isspace LF" "isspace (CHR '' '')" "\<not> isspace NUL"
  by (simp_all add: isspace_def byte_val_def)

section \<open>Well-formed requests\<close>

definition is_token :: "string \<Rightarrow> bool" where
  "is_token w \<longleftrightarrow> (\<forall>c \<in> set w. \<not> isspace c \<and> c \<noteq> NUL)"

definition h3_request_line :: "string \<Rightarrow> string \<Rightarrow> string \<Rightarrow> string" where
  "h3_request_line me ur ve = me @ '' '' @ ur @ '' '' @ ve @ crlf"

lemma token_nth:
  assumes "is_token w" "i < length w"
  shows "\<not> isspace (w ! i)" "w ! i \<noteq> NUL" "w ! i \<noteq> CR"
proof -
  have "w ! i \<in> set w" using assms(2) by simp
  then show "\<not> isspace (w ! i)" "w ! i \<noteq> NUL" using assms(1) unfolding is_token_def by blast+
  then show "w ! i \<noteq> CR" using space_char(1) by metis
qed

lemma token_no_crlf: "is_token w \<Longrightarrow> CR \<notin> set w" "is_token w \<Longrightarrow> LF \<notin> set w"
  unfolding is_token_def using space_char by blast+

lemma method_scan:
  assumes "is_token w" "isspace c"
  shows "scan_while (\<lambda>m p. c_and (notend m p) (c_not (space_at m p))) (w @ c # b) 0 = Inr (length w)"
  using assms
  by (intro scan_while_word [where a = "[]", simplified])
    (auto simp: notend_def space_at_def rd_word token_nth)

lemma uri_scan:
  assumes "is_token w" "isspace c" "c \<noteq> LF"
  shows "scan_while (\<lambda>m p. c_and (c_and (c_not (space_at m p)) (notcrlf m p)) (notend m p)) (a @ w @ c # b) (length a)
     = Inr (length a + length w)"
  using assms
  by (intro scan_while_word)
    (auto simp: notend_def space_at_def rd_word token_nth notcrlf_word token_no_crlf)

lemma version_scan:
  assumes "is_token w" "isspace c" "c \<noteq> LF"
  shows "scan_while (\<lambda>m p. c_and (c_not (space_at m p)) (notcrlf m p)) (a @ w @ c # b) (length a)
     = Inr (length a + length w)"
  using assms
  by (intro scan_while_word)
    (auto simp: notend_def space_at_def rd_word token_nth notcrlf_word token_no_crlf)

lemma scan_while_one:
  assumes "cond (a @ x # b) (length a) = Inr True" "cond (a @ x # b) (Suc (length a)) = Inr False"
  shows "scan_while cond (a @ x # b) (length a) = Inr (Suc (length a))"
  using scan_while_next [of cond, OF assms(1)] scan_while_stop [of cond, OF assms(2)] by simp

lemma uri_space_scan:
  assumes "\<not> isspace c"
  shows "scan_while (\<lambda>m p. c_and (c_and (space_at m p) (notcrlf m p)) (notend m p)) (a @ CHR '' '' # c # b) (length a)
     = Inr (Suc (length a))"
proof (rule scan_while_one)
  have "c \<noteq> LF" using assms by auto
  then show "c_and (c_and (space_at (a @ CHR '' '' # c # b) (length a)) (notcrlf (a @ CHR '' '' # c # b) (length a)))
      (notend (a @ CHR '' '' # c # b) (length a)) = Inr True"
    by (simp add: notend_def space_at_def notcrlf_def)
qed (use assms in \<open>simp add: space_at_def\<close>)

lemma version_space_scan:
  assumes "\<not> isspace c \<or> c = CR"
  shows "scan_while (\<lambda>m p. c_and (space_at m p) (notcrlf m p)) (a @ CHR '' '' # c # b) (length a)
     = Inr (Suc (length a))"
proof (rule scan_while_one)
  have "c \<noteq> LF" using assms by auto
  then show "c_and (space_at (a @ CHR '' '' # c # b) (length a)) (notcrlf (a @ CHR '' '' # c # b) (length a)) = Inr True"
    by (simp add: space_at_def notcrlf_def)
  show "c_and (space_at (a @ CHR '' '' # c # b) (Suc (length a)))
      (notcrlf (a @ CHR '' '' # c # b) (Suc (length a))) = Inr False"
    using assms by (cases "c = CR") (simp_all add: space_at_def notcrlf_def)
qed

lemma version_scan_overrun:
  assumes "is_token w"
  shows "scan_while (\<lambda>m p. c_and (c_not (space_at m p)) (notcrlf m p)) (a @ w @ [NUL]) (length a) = Inl OutOfBounds"
  using assms
proof (induction w arbitrary: a)
  case Nil
  show ?case by (subst scan_while.simps) (simp add: space_at_def notcrlf_def, simp add: rd_def)
next
  case (Cons x w)
  let ?cond = "\<lambda>m p. c_and (c_not (space_at m p)) (notcrlf m p)"
  have "?cond (a @ x # w @ [NUL]) (length a) = Inr True"
    using token_nth(1) [OF Cons.prems, of 0] notcrlf_word [of 0 "x # w" NUL a "[]"] token_no_crlf [OF Cons.prems]
    by (simp add: space_at_def)
  moreover have "is_token w" using Cons.prems by (simp add: is_token_def)
  ultimately show ?case
    using scan_while_next [of ?cond "a @ x # w @ [NUL]" "length a"] Cons.IH [of "a @ [x]"] by simp
qed

text \<open>Up to the version, which starts with a character that is no space, or is empty.\<close>

lemma line_parse_version:
  assumes t: "is_token me" "is_token ur" "ur \<noteq> []" and c: "\<not> isspace c \<or> c = CR"
    and l: "length me + length ur < 2 ^ 31"
  shows "h3_request_line_parse h (me @ '' '' @ ur @ '' '' @ c # b) =
    rbind (scan_while (\<lambda>m p. c_and (c_not (space_at m p)) (notcrlf m p)) (me @ '' '' @ ur @ '' '' @ c # b)
      (length (me @ '' '' @ ur @ '' ''))) (\<lambda>p5.
    Inr (Some p5,
      h\<lparr>RequestLineStart := InBody 0, RequestMethod := InBody 0, RequestMethodLen := int (length me),
        RequestURI := InBody (length me + 1), RequestURILen := int (length ur),
        HTTPVersion := InBody (length me + length ur + 2),
        HTTPVersionLen := to_int32 (int p5 - int (length (me @ '' '' @ ur @ '' '')))\<rparr>))"
proof -
  define m where "m = me @ '' '' @ ur @ '' '' @ c # b"
  define a1 where "a1 = me @ '' ''"
  define a2 where "a2 = a1 @ ur"
  define a3 where "a3 = me @ '' '' @ ur @ '' ''"
  have la: "length a1 = length me + 1" "length a2 = length me + length ur + 1" "length a3 = length me + length ur + 2"
    by (simp_all add: a1_def a2_def a3_def)
  obtain c0 ur' where ur: "ur = c0 # ur'" using t(3) by (cases ur) auto
  have c0: "\<not> isspace c0" using token_nth(1) [OF t(2), of 0] by (simp add: ur)
  have m0: "m = me @ CHR '' '' # c0 # (ur' @ CHR '' '' # c # b)"
    and m1: "m = a1 @ ur @ CHR '' '' # (c # b)" and m2: "m = a2 @ CHR '' '' # c # b"
    by (simp_all add: m_def a1_def a2_def ur)
  have s1: "scan_while (\<lambda>m p. c_and (notend m p) (c_not (space_at m p))) m 0 = Inr (length me)"
    unfolding m0 by (rule method_scan [OF t(1)]) simp
  have f1: "c_or (at_end m (length me)) (iscrlf m (length me)) = Inr False"
    unfolding m0 by (simp add: at_end_def iscrlf_def)
  have s2: "scan_while (\<lambda>m p. c_and (c_and (space_at m p) (notcrlf m p)) (notend m p)) m (length me) = Inr (length a1)"
    unfolding m0 la(1) using uri_space_scan [OF c0] by simp
  have s3: "scan_while (\<lambda>m p. c_and (c_and (c_not (space_at m p)) (notcrlf m p)) (notend m p)) m (length a1)
      = Inr (length a2)"
    unfolding m1 a2_def length_append by (rule uri_scan [OF t(2)]) simp_all
  have f2: "c_or (iscrlf m (length a2)) (at_end m (length a2)) = Inr False"
    unfolding m2 by (simp add: at_end_def iscrlf_def)
  have s4: "scan_while (\<lambda>m p. c_and (space_at m p) (notcrlf m p)) m (length a2) = Inr (length a3)"
    unfolding m2 version_space_scan [OF c] by (simp add: la)
  have i: "to_int32 (int (length me)) = int (length me)"
    "to_int32 (int (length a2) - int (length a1)) = int (length ur)"
    using l by (simp_all add: la to_int32_id in_int32_def)
  show ?thesis
    unfolding m_def [symmetric] a3_def [symmetric] h3_request_line_parse_def Let_def s1 s2 s3 s4 f1 f2
      rbind_simps if_False i
    by (simp add: la)
qed

lemma version_start:
  assumes "is_token ve" "ve @ x # b = c # r" "\<not> isspace x \<or> x = CR"
  shows "\<not> isspace c \<or> c = CR"
  using assms token_nth(1) [OF assms(1), of 0] by (cases ve) auto

lemma line_parse_ok:
  assumes t: "is_token me" "is_token ur" "is_token ve" "ur \<noteq> []" and l: "length me + length ur + length ve < 2 ^ 31"
  shows "h3_request_line_parse h (h3_request_line me ur ve @ b) =
    Inr (Some (length me + length ur + length ve + 2),
      h\<lparr>RequestLineStart := InBody 0, RequestMethod := InBody 0, RequestMethodLen := int (length me),
        RequestURI := InBody (length me + 1), RequestURILen := int (length ur),
        HTTPVersion := InBody (length me + length ur + 2), HTTPVersionLen := int (length ve)\<rparr>)"
proof -
  let ?a = "me @ '' '' @ ur @ '' ''"
  obtain c r where c: "ve @ CR # LF # b = c # r" by (cases ve) auto
  have cs: "\<not> isspace c \<or> c = CR" using version_start [OF t(3) c] by simp
  have s: "scan_while (\<lambda>m p. c_and (c_not (space_at m p)) (notcrlf m p)) (?a @ ve @ CR # (LF # b)) (length ?a)
      = Inr (length ?a + length ve)"
    by (rule version_scan [OF t(3)]) simp_all
  have i: "to_int32 (int (length ?a + length ve) - int (length ?a)) = int (length ve)"
    using l by (simp add: to_int32_id in_int32_def)
  have "h3_request_line me ur ve @ b = me @ '' '' @ ur @ '' '' @ c # r"
    by (simp add: h3_request_line_def crlf_def c)
  moreover have "me @ '' '' @ ur @ '' '' @ c # r = ?a @ ve @ CR # (LF # b)"
    by (simp add: c)
  ultimately show ?thesis
    using line_parse_version [OF t(1,2,4) cs, of h r] l s i by simp
qed

definition header_line :: "string \<times> string \<Rightarrow> string" where
  "header_line f = fst f @ '': '' @ snd f @ crlf"

definition is_header :: "string \<times> string \<Rightarrow> bool" where
  "is_header f \<longleftrightarrow>
     (\<forall>c \<in> set (fst f). c \<noteq> CHR '':'' \<and> c \<noteq> NUL \<and> c \<noteq> CR) \<and> snd f \<noteq> [] \<and> \<not> isspace (hd (snd f)) \<and>
     (\<forall>c \<in> set (snd f). c \<noteq> CR \<and> c \<noteq> LF \<and> c \<noteq> NUL)"

definition field_at :: "nat \<Rightarrow> string \<times> string \<Rightarrow> HeaderField" where
  "field_at p f =
     \<lparr>FieldName = InBody p, FieldNameLen = int (length (fst f)),
      Value = InBody (p + length (fst f) + 2), ValueLen = int (length (snd f))\<rparr>"

lemma name_scan:
  assumes "\<forall>c \<in> set w. c \<noteq> CHR '':'' \<and> c \<noteq> NUL \<and> c \<noteq> CR"
  shows "scan_while (\<lambda>m p. c_and (notend m p) (rbind (rd m p) (\<lambda>c. Inr (c \<noteq> CHR '':'')))) (a @ w @ CHR '':'' # b) (length a)
     = Inr (length a + length w)"
proof (rule scan_while_word)
  fix i assume i: "i < length w"
  then have "w ! i \<in> set w" by simp
  then have "w ! i \<noteq> CHR '':''" "w ! i \<noteq> NUL" using assms by blast+
  then show "c_and (notend (a @ w @ CHR '':'' # b) (length a + i))
      (rbind (rd (a @ w @ CHR '':'' # b) (length a + i)) (\<lambda>c. Inr (c \<noteq> CHR '':''))) = Inr True"
    using i by (simp add: notend_def rd_word)
qed (simp add: notend_def)

lemma value_scan:
  assumes w: "\<forall>c \<in> set w. c \<noteq> CR \<and> c \<noteq> LF \<and> c \<noteq> NUL"
  shows "scan_while (\<lambda>m p. c_and (notend m p) (notcrlf m p)) (a @ w @ CR # b) (length a) = Inr (length a + length w)"
proof (rule scan_while_word)
  fix i assume i: "i < length w"
  then have "w ! i \<in> set w" by simp
  then have "w ! i \<noteq> NUL" "CR \<notin> set w" "LF \<notin> set w" using w by blast+
  then show "c_and (notend (a @ w @ CR # b) (length a + i)) (notcrlf (a @ w @ CR # b) (length a + i)) = Inr True"
    using i by (simp add: notend_def rd_word notcrlf_word)
qed (simp add: notend_def notcrlf_def)

lemma value_space_scan:
  assumes "\<not> isspace c"
  shows "scan_while (\<lambda>m p. c_and (notend m p) (space_at m p)) (a @ CHR '' '' # c # b) (length a) = Inr (Suc (length a))"
  using assms by (intro scan_while_one) (simp_all add: notend_def space_at_def)

lemma length_header_line: "length (header_line f) = length (fst f) + length (snd f) + 4"
  by (simp add: header_line_def crlf_def)

lemma field_update_all:
  "(x :: HeaderField)\<lparr>FieldName := n, FieldNameLen := nl, Value := v, ValueLen := vl\<rparr> =
   \<lparr>FieldName = n, FieldNameLen = nl, Value = v, ValueLen = vl\<rparr>"
  by simp

lemma parse_field_ok:
  assumes f: "is_header f" and i: "HeaderSize h < length (Fields h)"
    and l: "length (header_line f) < 2 ^ 31"
    and e: "iscrlf (a @ header_line f @ b) (length a + length (header_line f)) = Inr fin"
  shows "h3_parse_field (a @ header_line f @ b) (length a) h =
    (let h' = h\<lparr>HeaderSize := Suc (HeaderSize h), Fields := (Fields h)[HeaderSize h := field_at (length a) f]\<rparr>
     in Inr (if fin then FieldDone 0 h' else FieldNext (length a + length (header_line f)) h'))"
proof -
  obtain n v where nv: "f = (n, v)" by force
  obtain c v' where v: "v = c # v'" using f by (cases v) (auto simp: is_header_def nv)
  have c: "\<not> isspace c" "c \<noteq> NUL" "c \<noteq> CR" using f by (simp_all add: is_header_def nv v)
  define m where "m = a @ header_line f @ b"
  define a2 where "a2 = a @ n @ '':''"
  define a3 where "a3 = a2 @ '' ''"
  have la: "length a2 = Suc (length a + length n)" "length a3 = length a + length n + 2"
    by (simp_all add: a2_def a3_def)
  have m0: "m = a @ n @ CHR '':'' # (CHR '' '' # v @ crlf @ b)"
    and m2: "m = a2 @ CHR '' '' # c # (v' @ crlf @ b)" and m3: "m = a3 @ v @ CR # (LF # b)"
    by (simp_all add: m_def a2_def a3_def header_line_def nv v crlf_def)
  have s1: "scan_while (\<lambda>m p. c_and (notend m p) (rbind (rd m p) (\<lambda>c. Inr (c \<noteq> CHR '':'')))) m (length a)
      = Inr (length a + length n)"
    unfolding m0 using f by (intro name_scan) (simp add: is_header_def nv)
  have f1: "c_or (at_end m (Suc (length a + length n))) (iscrlf m (Suc (length a + length n))) = Inr False"
    unfolding m2 la(1) [symmetric] by (simp add: at_end_def iscrlf_def)
  have s2: "scan_while (\<lambda>m p. c_and (notend m p) (space_at m p)) m (Suc (length a + length n)) = Inr (length a3)"
    unfolding m2 la(1) [symmetric] a3_def using value_space_scan [OF c(1), of a2] by simp
  have f2: "c_or (at_end m (length a3)) (iscrlf m (length a3)) = Inr False"
    unfolding m3 using c by (simp add: at_end_def iscrlf_def v)
  have s3: "scan_while (\<lambda>m p. c_and (notend m p) (notcrlf m p)) m (length a3) = Inr (length a3 + length v)"
    unfolding m3 using f by (intro value_scan) (simp add: is_header_def nv)
  have p: "length a3 + length v + 2 = length a + length (header_line f)" by (simp add: la length_header_line nv)
  have e': "iscrlf m (length a3 + length v + 2) = Inr fin"
    unfolding m_def p using e .
  have z: "to_int32 (int (length a + length n) - int (length a)) = int (length n)"
    "to_int32 (int (length a3 + length v) - int (length a3)) = int (length v)"
    using l by (simp_all add: length_header_line nv to_int32_id in_int32_def)
  show ?thesis
    unfolding m_def [symmetric] h3_parse_field_def Let_def
      if_not_P [OF i [folded not_le]] s1 rbind_simps f1 s2 f2 s3 if_False e' z
    using i by (cases fin) (simp_all add: field_at_def field_update_all nv la length_header_line)
qed

primrec fields_at :: "nat \<Rightarrow> (string \<times> string) list \<Rightarrow> HeaderField list" where
  "fields_at p [] = []"
| "fields_at p (f # fs) = field_at p f # fields_at (p + length (header_line f)) fs"

lemma length_fields_at [simp]: "length (fields_at p fs) = length fs"
  by (induction fs arbitrary: p) simp_all

lemma update_splice:
  "i < length xs \<Longrightarrow> take (Suc i) (xs[i := x]) @ ys @ drop (Suc i + k) (xs[i := x]) = take i xs @ (x # ys) @ drop (i + Suc k) xs"
  by (simp add: take_Suc_conv_app_nth)

text \<open>A field that another one follows is stored and the loop goes on behind it.\<close>

definition store_field :: "nat \<Rightarrow> string \<times> string \<Rightarrow> RequestHeader \<Rightarrow> RequestHeader" where
  "store_field p f h = h\<lparr>HeaderSize := Suc (HeaderSize h), Fields := (Fields h)[HeaderSize h := field_at p f]\<rparr>"

lemma store_field_simps [simp]:
  "HeaderSize (store_field p f h) = Suc (HeaderSize h)"
  "Fields (store_field p f h) = (Fields h)[HeaderSize h := field_at p f]"
  by (simp_all add: store_field_def)

lemma field_loop_step:
  assumes f: "is_header f" "length (header_line f) < 2 ^ 31" and g: "is_header g"
    and i: "HeaderSize h < length (Fields h)"
  shows "h3_field_loop (a @ header_line f @ header_line g @ b) (length a) h
    = h3_field_loop ((a @ header_line f) @ header_line g @ b) (length (a @ header_line f)) (store_field (length a) f h)"
proof -
  obtain x r where x: "header_line g = x # r" "x \<noteq> CR" "x \<noteq> NUL"
    using g by (cases "fst g") (auto simp: header_line_def is_header_def)
  let ?m = "a @ header_line f @ (header_line g @ b)"
  have e: "iscrlf ?m (length a + length (header_line f)) = Inr False"
    and n: "notend ?m (length a + length (header_line f)) = Inr True"
    and q: "length a + length (header_line f) < length ?m"
    using x by (simp_all add: iscrlf_def notend_def)
  show ?thesis
    by (subst h3_field_loop.simps, subst parse_field_ok [OF f(1) i f(2) e])
      (use n x in \<open>simp add: Let_def store_field_def\<close>)
qed

lemma field_loop_ok:
  assumes "fs \<noteq> []" "\<forall>f \<in> set fs. is_header f \<and> length (header_line f) < 2 ^ 31"
    "HeaderSize h + length fs \<le> length (Fields h)"
  shows "h3_field_loop (a @ concat (map header_line fs) @ crlf @ b) (length a) h =
    Inr (0, h\<lparr>HeaderSize := HeaderSize h + length fs,
      Fields := take (HeaderSize h) (Fields h) @ fields_at (length a) fs @ drop (HeaderSize h + length fs) (Fields h)\<rparr>)"
  using assms
proof (induction fs arbitrary: a h)
  case Nil
  then show ?case by simp
next
  case (Cons f fs)
  have i: "HeaderSize h < length (Fields h)" using Cons.prems(3) by simp
  have f: "is_header f" "length (header_line f) < 2 ^ 31" using Cons.prems(2) by simp_all
  show ?case
  proof (cases fs)
    case Nil
    have e: "iscrlf (a @ header_line f @ crlf @ b) (length a + length (header_line f)) = Inr True"
      by (simp add: iscrlf_def crlf_def)
    show ?thesis using h3_field_loop.simps [of "a @ header_line f @ crlf @ b" "length a" h]
      by (simp add: parse_field_ok [OF f(1) i f(2) e] Nil Let_def upd_conv_take_nth_drop [OF i])
  next
    case (Cons g gs)
    let ?h = "store_field (length a) f h"
    have g: "is_header g" using Cons.prems(2) Cons by simp
    have "h3_field_loop (a @ concat (map header_line (f # fs)) @ crlf @ b) (length a) h
        = h3_field_loop ((a @ header_line f) @ concat (map header_line fs) @ crlf @ b) (length (a @ header_line f)) ?h"
      using field_loop_step [OF f g i, of a "concat (map header_line gs) @ crlf @ b"] by (simp add: Cons)
    also have "\<dots> = Inr (0, ?h\<lparr>HeaderSize := HeaderSize ?h + length fs,
      Fields := take (HeaderSize ?h) (Fields ?h) @ fields_at (length (a @ header_line f)) fs @
        drop (HeaderSize ?h + length fs) (Fields ?h)\<rparr>)"
      using Cons.prems Cons by (intro Cons.IH) simp_all
    finally show ?thesis unfolding store_field_simps update_splice [OF i] by (simp add: store_field_def)
  qed
qed

lemma field_loop_overrun:
  assumes "\<forall>f \<in> set fs. is_header f \<and> length (header_line f) < 2 ^ 31"
    "HeaderSize h \<le> length (Fields h)" "length (Fields h) < HeaderSize h + length fs"
  shows "h3_field_loop (a @ concat (map header_line fs) @ b) (length a) h = Inl OutOfBounds"
  using assms
proof (induction fs arbitrary: a h)
  case Nil
  then show ?case by simp
next
  case (Cons f fs)
  have f: "is_header f" "length (header_line f) < 2 ^ 31" using Cons.prems(1) by simp_all
  show ?case
  proof (cases "HeaderSize h < length (Fields h)")
    case False
    then show ?thesis by (subst h3_field_loop.simps) (simp add: h3_parse_field_def)
  next
    case True
    then obtain g gs where fs: "fs = g # gs" using Cons.prems(3) by (cases fs) auto
    then have g: "is_header g" using Cons.prems(1) by simp
    have "h3_field_loop (a @ concat (map header_line (f # fs)) @ b) (length a) h
        = h3_field_loop ((a @ header_line f) @ concat (map header_line fs) @ b) (length (a @ header_line f))
            (store_field (length a) f h)"
      using field_loop_step [OF f g True, of a "concat (map header_line gs) @ b"] by (simp add: fs)
    also have "\<dots> = Inl OutOfBounds" using Cons.prems True by (intro Cons.IH) simp_all
    finally show ?thesis .
  qed
qed

section \<open>Parsing requests\<close>

text \<open>The text a pointer and a length of a parsed header stand for.\<close>

definition h3_text :: "string \<Rightarrow> h3_ptr \<Rightarrow> int \<Rightarrow> string option" where
  "h3_text m p n = (case p of InBody k \<Rightarrow> Some (take (nat n) (drop k m)) | _ \<Rightarrow> None)"

definition field_texts :: "string \<Rightarrow> HeaderField \<Rightarrow> (string option \<times> string option)" where
  "field_texts m f = (h3_text m (FieldName f) (FieldNameLen f), h3_text m (Value f) (ValueLen f))"

lemma fields_at_texts:
  "map (field_texts (a @ concat (map header_line fs) @ b)) (fields_at (length a) fs)
   = map (\<lambda>(n, v). (Some n, Some v)) fs"
proof (induction fs arbitrary: a)
  case (Cons f fs)
  have "field_texts (a @ header_line f @ r) (field_at (length a) f) = (Some (fst f), Some (snd f))" for r
    by (simp add: field_texts_def field_at_def h3_text_def header_line_def)
  then show ?case using Cons.IH [of "a @ header_line f"] by (simp add: case_prod_beta)
qed simp

lemma length_h3_request_line: "length (h3_request_line me ur ve) = length me + length ur + length ve + 4"
  by (simp add: h3_request_line_def crlf_def)

text \<open>Behind the request line the parser goes on with the header fields.\<close>

lemma header_parse_line:
  assumes t: "is_token me" "is_token ur" "is_token ve" "ur \<noteq> []" and l: "length me + length ur + length ve < 2 ^ 31"
    and x: "x \<noteq> NUL"
  shows "\<exists>h. RequestMethod h = InBody 0 \<and> RequestMethodLen h = int (length me) \<and>
      RequestURI h = InBody (length me + 1) \<and> RequestURILen h = int (length ur) \<and>
      HTTPVersion h = InBody (length me + length ur + 2) \<and> HTTPVersionLen h = int (length ve) \<and>
      HeaderSize h = 0 \<and> length (Fields h) = 20 \<and>
      h3_request_header_parse h3_request_header_new (h3_request_line me ur ve @ x # b) =
      h3_field_loop (h3_request_line me ur ve @ x # b) (length (h3_request_line me ur ve)) h"
proof -
  let ?l = "h3_request_line me ur ve"
  have p: "length me + length ur + length ve + 2 + 2 = length ?l" by (simp add: length_h3_request_line)
  define w where "w = me @ '' '' @ ur @ '' '' @ ve"
  have w: "?l @ x # b = w @ CR # LF # x # b" "length me + length ur + length ve + 2 = length w"
    by (simp_all add: w_def h3_request_line_def crlf_def)
  have 1: "at_end (?l @ x # b) (length me + length ur + length ve + 2) = Inr False"
    unfolding w by (simp add: at_end_def)
  have 2: "at_end (?l @ x # b) (length ?l) = Inr False" using x by (simp add: at_end_def)
  show ?thesis
    unfolding h3_request_header_parse_def line_parse_ok [OF t l] rbind_simps prod.case option.case 1 if_False p 2
    by (rule exI, intro conjI, rule_tac [9] refl) (simp_all add: h3_request_header_new_def MAX_HEADER_SIZE_def)
qed

text \<open>C5.
  The parser accepts every request of a request line, one to twenty header fields and an empty line,
  and the pointers and lengths it stores stand for exactly the method, the target, the version and the
  names and values that were sent.
\<close>

theorem h3_parse_request:
  assumes "is_token me" "is_token ur" "is_token ve" "ur \<noteq> []"
    and "fs \<noteq> []" "length fs \<le> MAX_HEADER_SIZE" "list_all is_header fs"
    and "length (h3_request_line me ur ve) + length (concat (map header_line fs)) < 2 ^ 31"
  shows "\<exists>m h. m = h3_request_line me ur ve @ concat (map header_line fs) @ crlf @ b \<and>
    h3_request_header_parse h3_request_header_new m = Inr (0, h) \<and>
    h3_text m (RequestMethod h) (RequestMethodLen h) = Some me \<and>
    h3_text m (RequestURI h) (RequestURILen h) = Some ur \<and>
    h3_text m (HTTPVersion h) (HTTPVersionLen h) = Some ve \<and>
    HeaderSize h = length fs \<and>
    map (field_texts m) (take (HeaderSize h) (Fields h)) = map (\<lambda>(n, v). (Some n, Some v)) fs"
proof -
  let ?l = "h3_request_line me ur ve"
  define m where "m = ?l @ concat (map header_line fs) @ crlf @ b"
  obtain f fs' where fs: "fs = f # fs'" using assms(5) by (cases fs) auto
  obtain x r where x: "header_line f = x # r" "x \<noteq> NUL"
    using assms(7) by (cases "fst f") (auto simp: header_line_def is_header_def fs)
  have m: "m = ?l @ x # (r @ concat (map header_line fs') @ crlf @ b)" by (simp add: m_def fs x)
  have len: "length (header_line g) \<le> length (concat (map header_line fs))" if "g \<in> set fs" for g
    using that by (induction fs) auto
  have hd: "\<forall>g \<in> set fs. is_header g \<and> length (header_line g) < 2 ^ 31"
    using assms(7,8) len by (fastforce simp: list_all_iff)
  have "length me + length ur + length ve < 2 ^ 31" using assms(8) by (simp add: length_h3_request_line)
  from header_parse_line [OF assms(1-4) this x(2), of "r @ concat (map header_line fs') @ crlf @ b"]
  obtain h where h: "RequestMethod h = InBody 0" "RequestMethodLen h = int (length me)"
      "RequestURI h = InBody (length me + 1)" "RequestURILen h = int (length ur)"
      "HTTPVersion h = InBody (length me + length ur + 2)" "HTTPVersionLen h = int (length ve)"
      "HeaderSize h = 0" "length (Fields h) = 20"
    and p: "h3_request_header_parse h3_request_header_new m = h3_field_loop m (length ?l) h"
    unfolding m [symmetric] by blast
  define h' where "h' = h\<lparr>HeaderSize := length fs, Fields := fields_at (length ?l) fs @ drop (length fs) (Fields h)\<rparr>"
  have "h3_field_loop m (length ?l) h = Inr (0, h')"
    unfolding m_def using field_loop_ok [OF assms(5) hd, of h ?l b] assms(6) h(7,8)
    by (simp add: h'_def MAX_HEADER_SIZE_def)
  then have p': "h3_request_header_parse h3_request_header_new m = Inr (0, h')" by (simp add: p)
  have "h3_text m (RequestMethod h') (RequestMethodLen h') = Some me"
    "h3_text m (RequestURI h') (RequestURILen h') = Some ur"
    "h3_text m (HTTPVersion h') (HTTPVersionLen h') = Some ve"
    by (simp_all add: h'_def h h3_text_def m_def h3_request_line_def)
  moreover have "map (field_texts m) (take (HeaderSize h') (Fields h')) = map (\<lambda>(n, v). (Some n, Some v)) fs"
    unfolding m_def using fields_at_texts [of ?l fs "crlf @ b"] by (simp add: h'_def)
  ultimately show ?thesis using p' by (intro exI [of _ m] exI [of _ h']) (simp add: m_def h'_def)
qed

theorem h3_parse_request_witness:
  "\<exists>m h. m = h3_request_line ''GET'' ''/'' ''HTTP/1.1'' @ concat (map header_line [(''Host'', ''a b'')]) @ crlf @ [NUL] \<and>
    h3_request_header_parse h3_request_header_new m = Inr (0, h) \<and>
    h3_text m (RequestMethod h) (RequestMethodLen h) = Some ''GET'' \<and>
    h3_text m (RequestURI h) (RequestURILen h) = Some ''/'' \<and>
    h3_text m (HTTPVersion h) (HTTPVersionLen h) = Some ''HTTP/1.1'' \<and>
    HeaderSize h = length [(''Host'', ''a b'')] \<and>
    map (field_texts m) (take (HeaderSize h) (Fields h)) = map (\<lambda>(n, v). (Some n, Some v)) [(''Host'', ''a b'')]"
  by (rule h3_parse_request)
    (simp_all add: is_token_def is_header_def header_line_def h3_request_line_def crlf_def isspace_def byte_val_def
      MAX_HEADER_SIZE_def)

text \<open>C31.
  Requests that make the parser leave the text and the header structure: a request without header
  fields is scanned past its terminator, a request line that ends before its line end is scanned past its
  terminator by the loop over the version, and a twenty-first header field is stored behind the array.
\<close>

theorem h3_overruns:
  assumes "is_token me" "is_token ur" "is_token ve" "ur \<noteq> []" "length me + length ur + length ve < 2 ^ 31"
    and "list_all (\<lambda>f. is_header f \<and> length (header_line f) < 2 ^ 31) fs" "MAX_HEADER_SIZE < length fs"
  shows "h3_request_header_parse h3_request_header_new (h3_request_line me ur ve @ crlf @ [NUL]) = Inl OutOfBounds \<and>
    h3_request_header_parse h3_request_header_new (me @ '' '' @ ur @ '' '' @ ve @ [NUL]) = Inl OutOfBounds \<and>
    h3_request_header_parse h3_request_header_new (h3_request_line me ur ve @ concat (map header_line fs) @ b)
      = Inl OutOfBounds"
proof (intro conjI)
  show "h3_request_header_parse h3_request_header_new (h3_request_line me ur ve @ crlf @ [NUL]) = Inl OutOfBounds"
  proof -
    let ?l = "h3_request_line me ur ve"
    obtain h where h: "HeaderSize h = 0" "length (Fields h) = 20"
        "h3_request_header_parse h3_request_header_new (?l @ crlf @ [NUL]) =
         h3_field_loop (?l @ crlf @ [NUL]) (length ?l) h"
      using header_parse_line [OF assms(1-5), of CR "[LF, NUL]"] by (auto simp: crlf_def)
    have "scan_while (\<lambda>m p. c_and (notend m p) (rbind (rd m p) (\<lambda>c. Inr (c \<noteq> CHR '':'')))) (?l @ crlf @ [NUL]) (length ?l)
        = Inr (length ?l + length crlf)"
      by (rule scan_while_word) (auto simp: crlf_def notend_def less_Suc_eq rd_def nth_append)
    then have "h3_parse_field (?l @ crlf @ [NUL]) (length ?l) h = Inl OutOfBounds"
      by (simp add: h3_parse_field_def h(1,2) Let_def at_end_def c_or_def rd_def crlf_def)
    then show ?thesis unfolding h(3) by (subst h3_field_loop.simps) simp
  qed
  show "h3_request_header_parse h3_request_header_new (me @ '' '' @ ur @ '' '' @ ve @ [NUL]) = Inl OutOfBounds"
  proof -
    let ?a = "me @ '' '' @ ur @ '' ''"
    obtain c r where c: "ve @ [NUL] = c # r" by (cases ve) auto
    have cs: "\<not> isspace c \<or> c = CR" using version_start [OF assms(3) c] by simp
    have "scan_while (\<lambda>m p. c_and (c_not (space_at m p)) (notcrlf m p)) (?a @ ve @ [NUL]) (length ?a) = Inl OutOfBounds"
      by (rule version_scan_overrun [OF assms(3)])
    moreover have "?a @ ve @ [NUL] = me @ '' '' @ ur @ '' '' @ c # r" by (simp add: c)
    ultimately show ?thesis
      using line_parse_version [OF assms(1,2,4) cs, of h3_request_header_new r] assms(5)
      by (simp add: h3_request_header_parse_def)
  qed
  show "h3_request_header_parse h3_request_header_new (h3_request_line me ur ve @ concat (map header_line fs) @ b)
      = Inl OutOfBounds"
  proof -
    obtain f fs' where fs: "fs = f # fs'" using assms(7) by (cases fs) auto
    obtain x r where x: "header_line f = x # r" "x \<noteq> NUL"
      using assms(6) by (cases "fst f") (auto simp: header_line_def is_header_def fs)
    obtain h where h: "HeaderSize h = 0" "length (Fields h) = 20"
        "h3_request_header_parse h3_request_header_new (h3_request_line me ur ve @ concat (map header_line fs) @ b) =
         h3_field_loop (h3_request_line me ur ve @ concat (map header_line fs) @ b) (length (h3_request_line me ur ve)) h"
      using header_parse_line [OF assms(1-5) x(2), of "r @ concat (map header_line fs') @ b"] by (auto simp: fs x)
    show ?thesis unfolding h(3)
      by (rule field_loop_overrun) (use assms(6,7) h in \<open>simp_all add: list_all_iff MAX_HEADER_SIZE_def\<close>)
  qed
qed

theorem h3_overruns_witness:
  "h3_request_header_parse h3_request_header_new (h3_request_line ''GET'' ''/'' ''HTTP/1.1'' @ crlf @ [NUL]) = Inl OutOfBounds \<and>
    h3_request_header_parse h3_request_header_new (''GET'' @ '' '' @ ''/'' @ '' '' @ ''HTTP/1.1'' @ [NUL]) = Inl OutOfBounds \<and>
    h3_request_header_parse h3_request_header_new
      (h3_request_line ''GET'' ''/'' ''HTTP/1.1'' @ concat (map header_line (replicate 21 (''A'', ''b''))) @ crlf @ [NUL])
      = Inl OutOfBounds"
  by (rule h3_overruns)
    (simp_all add: is_token_def is_header_def header_line_def crlf_def isspace_def byte_val_def
      MAX_HEADER_SIZE_def list_all_iff)

end
