(* ===== verification/Db.thy ===== *)
theory Db
  imports Dict Reply
begin

text \<open>
  The keyspace (\<open>src/db.c\<close>): lookups with expiration, adding, overwriting and deleting keys, the
  dictionary of expire times, and the objects behind the keys. The state is the database a client has
  selected, with the parts of \<open>server\<close> these functions read and the counters they change. Calls that
  only inform other parts of the server (watched keys, keyspace events, replicas, blocked clients,
  cluster slots, monitors, the slow log) are noted in the order they are made.

  Objects are values. The reference count of an object in the keyspace is the one it has when the running
  command has released its arguments: the increment in \<open>setKey\<close> stands against that release. References
  held by the output lists of clients are the function \<open>held\<close>.
\<close>

section \<open>State\<close>

record redisDb =
  kdict :: "(string, robj) dict"
  kexpires :: "(string, int) dict"
  db_id :: nat

datatype notice =
    TouchWatched nat string
  | KeyspaceEvent string nat string
  | PropagateDel nat string
  | ListReady nat string
  | SlotAdd string
  | SlotDel string
  | FeedMonitors "string list"
  | QueueMulti "string list"
  | LuaCallerForces bool bool
  | SlowLog "string list"
  | CommandStats string
  | Propagate nat "string list" bool bool
  | ServeBlocked

text \<open>
  \<open>lua_start\<close> is the time a running script started, \<open>is_slave\<close> that \<open>server.masterhost\<close> is set,
  \<open>readonly_caller\<close> that the current client is not the master and runs a read-only command,
  \<open>saving\<close> that a child process writes a dump.
\<close>

record server =
  db :: redisDb
  hash_seed :: "32 word"
  can_resize :: bool
  mstime :: int
  lua_start :: "int option"
  loading :: bool
  is_slave :: bool
  readonly_caller :: bool
  saving :: bool
  cluster_enabled :: bool
  held :: "string \<Rightarrow> int"
  maxmemory :: nat
  maxmemory_policy :: maxmemory_policy
  stat_keyspace_hits :: int
  stat_keyspace_misses :: int
  stat_expiredkeys :: int
  stat_numcommands :: int
  dirty :: int
  notices :: "notice list"

definition dictSdsHash :: "server \<Rightarrow> string \<Rightarrow> nat" where
  "dictSdsHash s k = unat (dictGenHashFunction (hash_seed s) k)"

definition noted :: "notice \<Rightarrow> server \<Rightarrow> server" where
  "noted n s = s\<lparr>notices := notices s @ [n]\<rparr>"

definition signalModifiedKey :: "server \<Rightarrow> string \<Rightarrow> server" where
  "signalModifiedKey s k = noted (TouchWatched (db_id (db s)) k) s"

definition notifyKeyspaceEvent :: "string \<Rightarrow> server \<Rightarrow> string \<Rightarrow> server" where
  "notifyKeyspaceEvent event s k = noted (KeyspaceEvent event (db_id (db s)) k) s"

definition dirtied :: "server \<Rightarrow> server" where
  "dirtied s = s\<lparr>dirty := dirty s + 1\<rparr>"

definition put_dict :: "(string, robj) dict \<Rightarrow> server \<Rightarrow> server" where
  "put_dict d s = s\<lparr>db := (db s)\<lparr>kdict := d\<rparr>\<rparr>"

definition put_expires :: "(string, int) dict \<Rightarrow> server \<Rightarrow> server" where
  "put_expires d s = s\<lparr>db := (db s)\<lparr>kexpires := d\<rparr>\<rparr>"

definition find_key :: "server \<Rightarrow> string \<Rightarrow> (robj option \<times> server) res" where
  "find_key s k = rbind (dictFind (dictSdsHash s) (kdict (db s)) k) (\<lambda>(v, d). Inr (v, put_dict d s))"

definition find_expire :: "server \<Rightarrow> string \<Rightarrow> (int option \<times> server) res" where
  "find_expire s k = rbind (dictFind (dictSdsHash s) (kexpires (db s)) k) (\<lambda>(v, d). Inr (v, put_expires d s))"

text \<open>The object of an entry is written through its pointer.\<close>

definition write_object :: "server \<Rightarrow> string \<Rightarrow> robj \<Rightarrow> server res" where
  "write_object s k v = rbind (entry_set (dictSdsHash s) (kdict (db s)) k v) (\<lambda>d. Inr (put_dict d s))"

section \<open>Expire times\<close>

definition getExpire :: "server \<Rightarrow> string \<Rightarrow> (int \<times> server) res" where
  "getExpire s k =
     (if dictSize (kexpires (db s)) = 0 then Inr (-1, s)
      else
        rbind (find_expire s k) (\<lambda>(w, s1).
        case w of
          None \<Rightarrow> Inr (-1, s1)
        | Some when \<Rightarrow>
            rbind (find_key s1 k) (\<lambda>(v, s2).
            rbind (rassert (v \<noteq> None) AssertFail) (\<lambda>_. Inr (when, s2)))))"

definition removeExpire :: "server \<Rightarrow> string \<Rightarrow> (bool \<times> server) res" where
  "removeExpire s k =
     rbind (find_key s k) (\<lambda>(v, s1).
     rbind (rassert (v \<noteq> None) AssertFail) (\<lambda>_.
     rbind (dictDelete (dictSdsHash s1) (kexpires (db s1)) k) (\<lambda>(b, d). Inr (b, put_expires d s1))))"

text \<open>\<open>dictReplaceRaw\<close> and the assignment to the entry it returns.\<close>

definition replace_raw_set :: "bool \<Rightarrow> ('k \<Rightarrow> nat) \<Rightarrow> ('k, 'v) dict \<Rightarrow> 'k \<Rightarrow> 'v \<Rightarrow> ('k, 'v) dict res" where
  "replace_raw_set cr hash d k v =
     rbind (dictFind hash d k) (\<lambda>(old, d1).
     case old of
       Some _ \<Rightarrow> entry_set hash d1 k v
     | None \<Rightarrow> rbind (dictAdd cr hash d1 k v) (\<lambda>(ok, d2). if ok then Inr d2 else Inl NullDeref))"

definition setExpire :: "server \<Rightarrow> string \<Rightarrow> int \<Rightarrow> server res" where
  "setExpire s k when =
     rbind (find_key s k) (\<lambda>(v, s1).
     rbind (rassert (v \<noteq> None) AssertFail) (\<lambda>_.
     rbind (replace_raw_set (can_resize s1) (dictSdsHash s1) (kexpires (db s1)) k when) (\<lambda>d. Inr (put_expires d s1))))"

section \<open>Keys\<close>

text \<open>The destructor of values runs on the entry that goes.\<close>

definition release_value :: "(string, robj) dict \<Rightarrow> string \<Rightarrow> unit res" where
  "release_value d k = (case dict_map d k of None \<Rightarrow> Inr () | Some v \<Rightarrow> rbind (decrRefCount v) (\<lambda>_. Inr ()))"

definition dbDelete :: "server \<Rightarrow> string \<Rightarrow> (bool \<times> server) res" where
  "dbDelete s k =
     rbind (if dictSize (kexpires (db s)) > 0
            then rbind (dictDelete (dictSdsHash s) (kexpires (db s)) k) (\<lambda>(_, d). Inr (put_expires d s))
            else Inr s) (\<lambda>s1.
     rbind (release_value (kdict (db s1)) k) (\<lambda>_.
     rbind (dictDelete (dictSdsHash s1) (kdict (db s1)) k) (\<lambda>(ok, d).
     let s2 = put_dict d s1 in
     Inr (ok, if ok \<and> cluster_enabled s2 then noted (SlotDel k) s2 else s2))))"

definition propagateExpire :: "server \<Rightarrow> string \<Rightarrow> server" where
  "propagateExpire s k = noted (PropagateDel (db_id (db s)) k) s"

definition expireIfNeeded :: "server \<Rightarrow> string \<Rightarrow> (bool \<times> server) res" where
  "expireIfNeeded s k =
     rbind (getExpire s k) (\<lambda>(when, s1).
     if when < 0 then Inr (False, s1)
     else if loading s1 then Inr (False, s1)
     else
       (let now = (case lua_start s1 of Some t \<Rightarrow> t | None \<Rightarrow> mstime s1) in
        if is_slave s1 then Inr (when < now, s1)
        else if now \<le> when then Inr (False, s1)
        else
          (let s2 = s1\<lparr>stat_expiredkeys := stat_expiredkeys s1 + 1\<rparr> in
           dbDelete (notifyKeyspaceEvent ''expired'' (propagateExpire s2 k) k) k)))"

definition lookupKey :: "env \<Rightarrow> server \<Rightarrow> string \<Rightarrow> bool \<Rightarrow> (robj option \<times> server) res" where
  "lookupKey e s k notouch =
     rbind (find_key s k) (\<lambda>(v, s1).
     case v of
       None \<Rightarrow> Inr (None, s1)
     | Some val \<Rightarrow>
         if \<not> saving s1 \<and> \<not> notouch
         then rbind (write_object s1 k (val\<lparr>lru := lruclock e\<rparr>)) (\<lambda>s2. Inr (Some (val\<lparr>lru := lruclock e\<rparr>), s2))
         else Inr (Some val, s1))"

definition lookupKeyReadWithFlags :: "env \<Rightarrow> server \<Rightarrow> string \<Rightarrow> bool \<Rightarrow> (robj option \<times> server) res" where
  "lookupKeyReadWithFlags e s k notouch =
     rbind (expireIfNeeded s k) (\<lambda>(expired, s1).
     if expired \<and> (\<not> is_slave s1 \<or> readonly_caller s1) then Inr (None, s1)
     else
       rbind (lookupKey e s1 k notouch) (\<lambda>(v, s2).
       Inr (v, if v = None then s2\<lparr>stat_keyspace_misses := stat_keyspace_misses s2 + 1\<rparr>
               else s2\<lparr>stat_keyspace_hits := stat_keyspace_hits s2 + 1\<rparr>)))"

definition lookupKeyRead :: "env \<Rightarrow> server \<Rightarrow> string \<Rightarrow> (robj option \<times> server) res" where
  "lookupKeyRead e s k = lookupKeyReadWithFlags e s k False"

definition lookupKeyWrite :: "env \<Rightarrow> server \<Rightarrow> string \<Rightarrow> (robj option \<times> server) res" where
  "lookupKeyWrite e s k = rbind (expireIfNeeded s k) (\<lambda>(_, s1). lookupKey e s1 k False)"

definition lookupKeyReadOrReply ::
  "env \<Rightarrow> server \<Rightarrow> client \<Rightarrow> string \<Rightarrow> string \<Rightarrow> (robj option \<times> server \<times> client) res" where
  "lookupKeyReadOrReply e s c k rep =
     rbind (lookupKeyRead e s k) (\<lambda>(v, s1).
     if v = None then rbind (addReplyShared e c rep) (\<lambda>c1. Inr (None, s1, c1)) else Inr (v, s1, c))"

definition lookupKeyWriteOrReply ::
  "env \<Rightarrow> server \<Rightarrow> client \<Rightarrow> string \<Rightarrow> string \<Rightarrow> (robj option \<times> server \<times> client) res" where
  "lookupKeyWriteOrReply e s c k rep =
     rbind (lookupKeyWrite e s k) (\<lambda>(v, s1).
     if v = None then rbind (addReplyShared e c rep) (\<lambda>c1. Inr (None, s1, c1)) else Inr (v, s1, c))"

definition dbAdd :: "server \<Rightarrow> string \<Rightarrow> robj \<Rightarrow> server res" where
  "dbAdd s k val =
     rbind (dictAdd (can_resize s) (dictSdsHash s) (kdict (db s)) k val) (\<lambda>(ok, d).
     rbind (rassert ok AssertFail) (\<lambda>_.
     let s1 = put_dict d s;
         s2 = (if otype val = OBJ_LIST then noted (ListReady (db_id (db s1)) k) s1 else s1) in
     Inr (if cluster_enabled s2 then noted (SlotAdd k) s2 else s2)))"

definition dbOverwrite :: "server \<Rightarrow> string \<Rightarrow> robj \<Rightarrow> server res" where
  "dbOverwrite s k val =
     rbind (find_key s k) (\<lambda>(v, s1).
     rbind (rassert (v \<noteq> None) AssertFail) (\<lambda>_.
     rbind (release_value (kdict (db s1)) k) (\<lambda>_.
     rbind (dictReplace (can_resize s1) (dictSdsHash s1) (kdict (db s1)) k val) (\<lambda>(_, d). Inr (put_dict d s1)))))"

definition setKey :: "env \<Rightarrow> server \<Rightarrow> string \<Rightarrow> robj \<Rightarrow> server res" where
  "setKey e s k val =
     rbind (lookupKeyWrite e s k) (\<lambda>(v, s1).
     rbind (if v = None then dbAdd s1 k val else dbOverwrite s1 k val) (\<lambda>s2.
     rbind (removeExpire s2 k) (\<lambda>(_, s3). Inr (signalModifiedKey s3 k))))"

definition dbExists :: "server \<Rightarrow> string \<Rightarrow> (bool \<times> server) res" where
  "dbExists s k = rbind (find_key s k) (\<lambda>(v, s1). Inr (v \<noteq> None, s1))"

definition dbUnshareStringValue :: "env \<Rightarrow> server \<Rightarrow> string \<Rightarrow> robj \<Rightarrow> (robj \<times> server) res" where
  "dbUnshareStringValue e s k o' =
     rbind (rassert (otype o' = OBJ_STRING) AssertFail) (\<lambda>_.
     if refcount o' + held s k \<noteq> 1 \<or> oenc o' \<noteq> OBJ_ENCODING_RAW then
       rbind (getDecodedObject (junk e) (lruclock e) o') (\<lambda>decoded.
       rbind (sds_of decoded) (\<lambda>ptr.
       rbind (createRawStringObject (lruclock e) (Some (hdr_buf ptr)) (sdslen ptr)) (\<lambda>raw.
       rbind (decrRefCount decoded) (\<lambda>_.
       rbind (dbOverwrite s k raw) (\<lambda>s1. Inr (raw, s1))))))
     else Inr (o', s))"

section \<open>Well-typed keyspaces\<close>

text \<open>The encodings the constructors and converters give to the objects of each type.\<close>

definition typed_obj :: "robj \<Rightarrow> bool" where
  "typed_obj v \<longleftrightarrow>
     (case otype v of
        OBJ_STRING \<Rightarrow> str_obj v
      | OBJ_LIST \<Rightarrow> oenc v = OBJ_ENCODING_QUICKLIST
      | OBJ_SET \<Rightarrow> oenc v = OBJ_ENCODING_HT \<or> oenc v = OBJ_ENCODING_INTSET
      | OBJ_ZSET \<Rightarrow> oenc v = OBJ_ENCODING_SKIPLIST \<or> oenc v = OBJ_ENCODING_ZIPLIST
      | OBJ_HASH \<Rightarrow> oenc v = OBJ_ENCODING_HT \<or> oenc v = OBJ_ENCODING_ZIPLIST) \<and> 0 < refcount v"

abbreviation kmap :: "server \<Rightarrow> string \<rightharpoonup> robj" where
  "kmap s \<equiv> dict_map (kdict (db s))"

abbreviation kexp :: "server \<Rightarrow> string \<rightharpoonup> int" where
  "kexp s \<equiv> dict_map (kexpires (db s))"

definition db_ok :: "server \<Rightarrow> bool" where
  "db_ok s \<longleftrightarrow>
     dict_ok (dictSdsHash s) (kdict (db s)) \<and> dict_ok (dictSdsHash s) (kexpires (db s)) \<and>
     dom (kexp s) \<subseteq> dom (kmap s) \<and> (\<forall>v \<in> ran (kmap s). typed_obj v) \<and> (\<forall>w \<in> ran (kexp s). in_int64 w) \<and>
     (\<forall>k. 0 \<le> held s k)"

text \<open>The parts of the server the keyspace functions only read.\<close>

definition cfg where
  "cfg s = (db_id (db s), hash_seed s, can_resize s, mstime s, lua_start s, loading s, is_slave s,
     readonly_caller s, saving s, cluster_enabled s, held s, maxmemory s, maxmemory_policy s)"

text \<open>What a step from \<open>s\<close> to \<open>s'\<close> leaves: the contents of both dictionaries and the notices it sent.\<close>

definition leaves :: "server \<Rightarrow> server \<Rightarrow> (string \<rightharpoonup> robj) \<Rightarrow> (string \<rightharpoonup> int) \<Rightarrow> notice list \<Rightarrow> bool" where
  "leaves s s' m x ns \<longleftrightarrow> db_ok s' \<and> cfg s' = cfg s \<and> kmap s' = m \<and> kexp s' = x \<and>
     notices s' = notices s @ ns \<and> dirty s' = dirty s"

definition room_for :: "nat \<Rightarrow> server \<Rightarrow> bool" where
  "room_for n s \<longleftrightarrow> dictSize (kdict (db s)) + n \<le> 2 ^ 62 - 2"

lemma put_simps [simp]:
  "kdict (db (put_dict d s)) = d" "kexpires (db (put_dict d s)) = kexpires (db s)"
  "kdict (db (put_expires x s)) = kdict (db s)" "kexpires (db (put_expires x s)) = x"
  "dictSdsHash (put_dict d s) = dictSdsHash s" "dictSdsHash (put_expires x s) = dictSdsHash s"
  "cfg (put_dict d s) = cfg s" "cfg (put_expires x s) = cfg s"
  "notices (put_dict d s) = notices s" "notices (put_expires x s) = notices s"
  "dirty (put_dict d s) = dirty s" "dirty (put_expires x s) = dirty s"
  "held (put_dict d s) = held s" "held (put_expires x s) = held s"
  by (simp_all add: put_dict_def put_expires_def dictSdsHash_def fun_eq_iff cfg_def)

lemma noted_simps [simp]:
  "db (noted n s) = db s" "dictSdsHash (noted n s) = dictSdsHash s" "cfg (noted n s) = cfg s"
  "notices (noted n s) = notices s @ [n]" "dirty (noted n s) = dirty s" "held (noted n s) = held s"
  by (simp_all add: noted_def dictSdsHash_def fun_eq_iff cfg_def)

lemma stat_simps [simp]:
  "cfg (s\<lparr>stat_expiredkeys := n\<rparr>) = cfg s" "cfg (s\<lparr>stat_keyspace_hits := n\<rparr>) = cfg s"
  "cfg (s\<lparr>stat_keyspace_misses := n\<rparr>) = cfg s" "cfg (dirtied s) = cfg s"
  "dictSdsHash (s\<lparr>stat_expiredkeys := n\<rparr>) = dictSdsHash s" "dictSdsHash (s\<lparr>stat_keyspace_hits := n\<rparr>) = dictSdsHash s"
  "dictSdsHash (s\<lparr>stat_keyspace_misses := n\<rparr>) = dictSdsHash s" "dictSdsHash (dirtied s) = dictSdsHash s"
  "db (dirtied s) = db s" "notices (dirtied s) = notices s" "dirty (dirtied s) = dirty s + 1" "held (dirtied s) = held s"
  by (simp_all add: cfg_def dictSdsHash_def fun_eq_iff dirtied_def)

lemma db_ok_noted [simp]:
  "db_ok (noted n s) = db_ok s" "db_ok (s\<lparr>stat_expiredkeys := m\<rparr>) = db_ok s" "db_ok (s\<lparr>stat_keyspace_hits := m\<rparr>) = db_ok s"
  "db_ok (s\<lparr>stat_keyspace_misses := m\<rparr>) = db_ok s" "db_ok (dirtied s) = db_ok s"
  by (simp_all add: db_ok_def)

lemma cfg_fields:
  assumes "cfg s' = cfg s"
  shows "db_id (db s') = db_id (db s)" "can_resize s' = can_resize s" "mstime s' = mstime s" "lua_start s' = lua_start s"
    "loading s' = loading s" "is_slave s' = is_slave s" "readonly_caller s' = readonly_caller s" "saving s' = saving s"
    "cluster_enabled s' = cluster_enabled s" "held s' = held s" "dictSdsHash s' = dictSdsHash s" "maxmemory s' = maxmemory s" "maxmemory_policy s' = maxmemory_policy s"
  using assms by (simp_all add: cfg_def dictSdsHash_def fun_eq_iff)

lemma dictSize_card: "dict_ok hash d \<Longrightarrow> dictSize d = card (dom (dict_map d))"
proof -
  assume d: "dict_ok hash d"
  then have "distinct (map fst (dict_entries d))" by (simp add: dict_ok_def)
  then have "card (fst ` set (dict_entries d)) = length (dict_entries d)"
    using distinct_card [of "map fst (dict_entries d)"] by simp
  then show ?thesis using dictSize_entries [OF d] by (simp add: dict_map_def dom_map_of_conv_image_fst)
qed

lemma db_okD:
  assumes "db_ok s"
  shows "dict_ok (dictSdsHash s) (kdict (db s))" "dict_ok (dictSdsHash s) (kexpires (db s))"
    "dom (kexp s) \<subseteq> dom (kmap s)" "kmap s k = Some v \<Longrightarrow> typed_obj v" "kexp s k = Some w \<Longrightarrow> in_int64 w" "0 \<le> held s k"
  using assms by (auto simp: db_ok_def ran_def)

lemma expires_size:
  assumes "db_ok s"
  shows "dictSize (kexpires (db s)) \<le> dictSize (kdict (db s))"
proof -
  have "finite (dom (kmap s))" by (simp add: dict_map_def finite_dom_map_of)
  then show ?thesis
    using dictSize_card [OF db_okD(1) [OF assms]] dictSize_card [OF db_okD(2) [OF assms]] db_okD(3) [OF assms]
    by (simp add: card_mono)
qed

lemma db_ok_put_dict:
  assumes "db_ok s" "dict_ok (dictSdsHash s) d" "dom (kexp s) \<subseteq> dom (dict_map d)" "\<And>k v. dict_map d k = Some v \<Longrightarrow> typed_obj v"
  shows "db_ok (put_dict d s)"
  using assms by (auto simp: db_ok_def ran_def)

lemma db_ok_put_expires:
  assumes "db_ok s" "dict_ok (dictSdsHash s) x" "dom (dict_map x) \<subseteq> dom (kmap s)" "\<And>k w. dict_map x k = Some w \<Longrightarrow> in_int64 w"
  shows "db_ok (put_expires x s)"
  using assms by (auto simp: db_ok_def ran_def)

section \<open>What each function leaves\<close>

lemma find_key_ok:
  assumes "db_ok s"
  shows "\<exists>s'. find_key s k = Inr (kmap s k, s') \<and> leaves s s' (kmap s) (kexp s) []"
proof -
  obtain d where d: "dictFind (dictSdsHash s) (kdict (db s)) k = Inr (kmap s k, d)" "dict_ok (dictSdsHash s) d"
    "dict_map d = kmap s" using dict_store.fnd_law [OF db_okD(1) [OF assms]] by blast
  then have "db_ok (put_dict d s)" using assms by (intro db_ok_put_dict) (auto dest: db_okD)
  with d show ?thesis by (auto simp: find_key_def leaves_def)
qed

lemma find_expire_ok:
  assumes "db_ok s"
  shows "\<exists>s'. find_expire s k = Inr (kexp s k, s') \<and> leaves s s' (kmap s) (kexp s) []"
proof -
  obtain d where d: "dictFind (dictSdsHash s) (kexpires (db s)) k = Inr (kexp s k, d)" "dict_ok (dictSdsHash s) d"
    "dict_map d = kexp s" using dict_store.fnd_law [OF db_okD(2) [OF assms]] by blast
  then have "db_ok (put_expires d s)" using assms by (intro db_ok_put_expires) (auto dest: db_okD)
  with d show ?thesis by (auto simp: find_expire_def leaves_def)
qed

lemma write_object_ok:
  assumes "db_ok s" "kmap s k = Some v0" "typed_obj v"
  shows "\<exists>s'. write_object s k v = Inr s' \<and> leaves s s' ((kmap s)(k \<mapsto> v)) (kexp s) []"
proof -
  obtain d where d: "entry_set (dictSdsHash s) (kdict (db s)) k v = Inr d" "dict_ok (dictSdsHash s) d"
    "dict_map d = (kmap s)(k \<mapsto> v)" using entry_set_ok [OF db_okD(1) [OF assms(1)] assms(2)] by blast
  then have "db_ok (put_dict d s)"
    using assms by (intro db_ok_put_dict) (auto dest: db_okD split: if_splits)
  with d show ?thesis by (auto simp: write_object_def leaves_def)
qed

lemma leaves_trans:
  "leaves s s1 m1 x1 n1 \<Longrightarrow> leaves s1 s2 m2 x2 n2 \<Longrightarrow> leaves s s2 m2 x2 (n1 @ n2)"
  by (auto simp: leaves_def)

lemma leavesD:
  assumes "leaves s s' m x ns"
  shows "db_ok s'" "cfg s' = cfg s" "kmap s' = m" "kexp s' = x" "notices s' = notices s @ ns" "dirty s' = dirty s"
  using assms by (auto simp: leaves_def)

lemma leaves_refl: "db_ok s \<Longrightarrow> leaves s s (kmap s) (kexp s) []"
  by (simp add: leaves_def)

lemma getExpire_ok:
  assumes "db_ok s"
  shows "\<exists>s'. getExpire s k = Inr (case kexp s k of None \<Rightarrow> -1 | Some w \<Rightarrow> w, s') \<and> leaves s s' (kmap s) (kexp s) []"
proof (cases "dictSize (kexpires (db s)) = 0")
  case True
  then have "kexp s k = None"
    using dictSize_card [OF db_okD(2) [OF assms]] by (auto simp: dict_map_def finite_dom_map_of)
  then show ?thesis using True assms by (auto simp: getExpire_def intro: leaves_refl)
next
  case False
  obtain s1 where s1: "find_expire s k = Inr (kexp s k, s1)" "leaves s s1 (kmap s) (kexp s) []"
    using find_expire_ok [OF assms] by blast
  obtain s2 where s2: "find_key s1 k = Inr (kmap s1 k, s2)" "leaves s1 s2 (kmap s1) (kexp s1) []"
    using find_key_ok [OF leavesD(1) [OF s1(2)]] by blast
  have "leaves s s2 (kmap s) (kexp s) []" using leaves_trans [OF s1(2) s2(2)] leavesD(3,4) [OF s1(2)] by simp
  moreover have "kmap s1 k \<noteq> None" if "kexp s k \<noteq> None"
    using that db_okD(3) [OF assms] leavesD(3) [OF s1(2)] by auto
  ultimately show ?thesis using False s1 s2 by (cases "kexp s k") (auto simp: getExpire_def)
qed

lemma removeExpire_ok:
  assumes "db_ok s" "kmap s k \<noteq> None"
  shows "\<exists>s'. removeExpire s k = Inr (kexp s k \<noteq> None, s') \<and> leaves s s' (kmap s) ((kexp s)(k := None)) []"
proof -
  obtain s1 where s1: "find_key s k = Inr (kmap s k, s1)" "leaves s s1 (kmap s) (kexp s) []"
    using find_key_ok [OF assms(1)] by blast
  note l = leavesD [OF s1(2)]
  obtain d where d: "dictDelete (dictSdsHash s1) (kexpires (db s1)) k = Inr (kexp s1 k \<noteq> None, d)"
    "dict_ok (dictSdsHash s1) d" "dict_map d = (kexp s1)(k := None)" using dict_store.del_law [OF db_okD(2) [OF l(1)]] by blast
  have "db_ok (put_expires d s1)"
    using d l(1) db_okD(3) [OF l(1)] by (intro db_ok_put_expires) (auto dest: db_okD split: if_splits)
  then have "leaves s (put_expires d s1) (kmap s) ((kexp s)(k := None)) []" using l d by (simp add: leaves_def)
  then show ?thesis using s1 d assms(2) l by (simp add: removeExpire_def)
qed

lemma replace_raw_set_ok:
  assumes "dict_ok hash d" "dictSize d < 2 ^ 62 - 1"
  shows "\<exists>d'. replace_raw_set cr hash d k v = Inr d' \<and> dict_ok hash d' \<and> dict_map d' = (dict_map d)(k \<mapsto> v)"
proof -
  obtain d1 where d1: "dictFind hash d k = Inr (dict_map d k, d1)" "dict_ok hash d1" "dict_map d1 = dict_map d"
    "dictSize d1 = dictSize d" using dict_store.fnd_law [OF assms(1)] by blast
  show ?thesis
  proof (cases "dict_map d k")
    case None
    have "dictSize d1 < 2 ^ 62 - 1" using d1(4) assms(2) by simp
    then obtain d2 where "dictAdd cr hash d1 k v = Inr (True, d2)" "dict_ok hash d2" "dict_map d2 = (dict_map d)(k \<mapsto> v)"
      using dict_store.add_law [OF d1(2), of cr k v] None d1(3) by auto
    then show ?thesis using d1(1) None by (auto simp: replace_raw_set_def)
  next
    case (Some w)
    then obtain d2 where "entry_set hash d1 k v = Inr d2" "dict_ok hash d2" "dict_map d2 = (dict_map d)(k \<mapsto> v)"
      using entry_set_ok [OF d1(2)] d1(3) by metis
    then show ?thesis using d1(1) Some by (auto simp: replace_raw_set_def)
  qed
qed

lemma setExpire_ok:
  assumes "db_ok s" "kmap s k \<noteq> None" "in_int64 w" "room_for 0 s"
  shows "\<exists>s'. setExpire s k w = Inr s' \<and> leaves s s' (kmap s) ((kexp s)(k \<mapsto> w)) []"
proof -
  obtain s1 where s1: "find_key s k = Inr (kmap s k, s1)" "leaves s s1 (kmap s) (kexp s) []"
    using find_key_ok [OF assms(1)] by blast
  note l = leavesD [OF s1(2)]
  have "dictSize (kdict (db s1)) = dictSize (kdict (db s))"
    using dictSize_card [OF db_okD(1) [OF l(1)]] dictSize_card [OF db_okD(1) [OF assms(1)]] l(3) by simp
  then have "dictSize (kexpires (db s1)) < 2 ^ 62 - 1" using expires_size [OF l(1)] assms(4) by (simp add: room_for_def)
  then obtain d where d: "replace_raw_set (can_resize s1) (dictSdsHash s1) (kexpires (db s1)) k w = Inr d"
    "dict_ok (dictSdsHash s1) d" "dict_map d = (kexp s1)(k \<mapsto> w)"
    using replace_raw_set_ok [OF db_okD(2) [OF l(1)]] by blast
  have "db_ok (put_expires d s1)"
    using d l assms(2,3) db_okD(3) [OF l(1)] by (intro db_ok_put_expires) (auto dest: db_okD split: if_splits)
  then have "leaves s (put_expires d s1) (kmap s) ((kexp s)(k \<mapsto> w)) []" using l d by (simp add: leaves_def)
  then show ?thesis using s1 d assms(2) l by (auto simp: setExpire_def)
qed

lemma decrRefCount_typed: "typed_obj v \<Longrightarrow> \<exists>r. decrRefCount v = Inr r"
  by (auto simp: typed_obj_def decrRefCount_def str_obj_def freeStringObject_def freeListObject_def freeSetObject_def
      freeZsetObject_def freeHashObject_def sds_of_def split: objtype.splits objptr.splits)

lemma release_value_ok: "db_ok s \<Longrightarrow> release_value (kdict (db s)) k = Inr ()"
  using decrRefCount_typed db_okD(4) by (fastforce simp: release_value_def split: option.splits)

lemma dbDelete_ok:
  assumes "db_ok s"
  shows "\<exists>s'. dbDelete s k = Inr (kmap s k \<noteq> None, s') \<and>
    leaves s s' ((kmap s)(k := None)) ((kexp s)(k := None)) (if kmap s k \<noteq> None \<and> cluster_enabled s then [SlotDel k] else [])"
proof -
  obtain s1 where s1: "(if dictSize (kexpires (db s)) > 0
      then rbind (dictDelete (dictSdsHash s) (kexpires (db s)) k) (\<lambda>(_, d). Inr (put_expires d s)) else Inr s) = Inr s1"
    "leaves s s1 (kmap s) ((kexp s)(k := None)) []"
  proof (cases "dictSize (kexpires (db s)) > 0")
    case True
    obtain d where d: "dictDelete (dictSdsHash s) (kexpires (db s)) k = Inr (kexp s k \<noteq> None, d)"
      "dict_ok (dictSdsHash s) d" "dict_map d = (kexp s)(k := None)" using dict_store.del_law [OF db_okD(2) [OF assms]] by blast
    have "db_ok (put_expires d s)"
      using d assms db_okD(3) [OF assms] by (intro db_ok_put_expires) (auto dest: db_okD split: if_splits)
    then show ?thesis using True d that [of "put_expires d s"] by (simp add: leaves_def)
  next
    case False
    then have "kexp s = Map.empty"
      using dictSize_card [OF db_okD(2) [OF assms]] by (auto simp: dict_map_def finite_dom_map_of)
    then show ?thesis using False that [of s] assms by (simp add: leaves_def)
  qed
  note l = leavesD [OF s1(2)]
  obtain d where d: "dictDelete (dictSdsHash s1) (kdict (db s1)) k = Inr (kmap s1 k \<noteq> None, d)"
    "dict_ok (dictSdsHash s1) d" "dict_map d = (kmap s1)(k := None)" using dict_store.del_law [OF db_okD(1) [OF l(1)]] by blast
  have "db_ok (put_dict d s1)"
    using d l db_okD(3) [OF assms] by (intro db_ok_put_dict) (auto dest: db_okD split: if_splits)
  moreover have "cluster_enabled (put_dict d s1) = cluster_enabled s" using cfg_fields(9) [of "put_dict d s1" s] l by simp
  ultimately show ?thesis
    using s1(1) d l release_value_ok [OF l(1), of k] by (auto simp: dbDelete_def Let_def leaves_def)
qed

section \<open>The keyspace a client sees\<close>

text \<open>
  A key whose time has passed is gone, except on a replica, where only the master removes it. The view of the
  keyspace has for each key that is there its object, without the access time, and its expire time.
\<close>

definition now_of :: "server \<Rightarrow> int" where
  "now_of s = (case lua_start s of Some t \<Rightarrow> t | None \<Rightarrow> mstime s)"

definition expired :: "server \<Rightarrow> string \<Rightarrow> bool" where
  "expired s k = (case kexp s k of None \<Rightarrow> False | Some w \<Rightarrow> 0 \<le> w \<and> \<not> loading s \<and> w < now_of s)"

definition gone :: "server \<Rightarrow> string \<Rightarrow> bool" where
  "gone s k \<longleftrightarrow> expired s k \<and> \<not> is_slave s"

definition no_lru :: "robj \<Rightarrow> robj" where
  "no_lru v = v\<lparr>lru := 0\<rparr>"

definition view :: "server \<Rightarrow> string \<rightharpoonup> robj \<times> int option" where
  "view s k = (if gone s k then None else map_option (\<lambda>v. (no_lru v, kexp s k)) (kmap s k))"

definition expiry_notices :: "server \<Rightarrow> string \<Rightarrow> notice list" where
  "expiry_notices s k =
     (if gone s k
      then [PropagateDel (db_id (db s)) k, KeyspaceEvent ''expired'' (db_id (db s)) k] @
        (if cluster_enabled s then [SlotDel k] else [])
      else [])"

text \<open>A step that keeps the invariant and the configuration, with the notices it sends.\<close>

definition quiet :: "server \<Rightarrow> server \<Rightarrow> notice list \<Rightarrow> bool" where
  "quiet s s' ns \<longleftrightarrow> db_ok s' \<and> cfg s' = cfg s \<and> notices s' = notices s @ ns \<and> dirty s' = dirty s"

lemma leaves_quiet: "leaves s s' m x ns \<Longrightarrow> quiet s s' ns"
  by (simp add: leaves_def quiet_def)

lemma quiet_trans: "quiet s s1 n1 \<Longrightarrow> quiet s1 s2 n2 \<Longrightarrow> quiet s s2 (n1 @ n2)"
  by (simp add: quiet_def)

lemma quietD:
  assumes "quiet s s' ns"
  shows "db_ok s'" "cfg s' = cfg s" "notices s' = notices s @ ns" "dirty s' = dirty s"
  using assms by (simp_all add: quiet_def)

lemma gone_cong:
  assumes "cfg s' = cfg s" "kexp s' k = kexp s k"
  shows "expired s' k = expired s k" "gone s' k = gone s k"
  unfolding gone_def expired_def now_of_def cfg_fields [OF assms(1)] assms(2) by simp_all

lemma gone_None [simp]: "kexp s k = None \<Longrightarrow> \<not> gone s k"
  by (simp add: gone_def expired_def)

lemma view_leaves:
  assumes "leaves s s' m x ns" "\<And>j. map_option no_lru (m j) = map_option no_lru (kmap s j) \<and> x j = kexp s j \<or> gone s j \<and> m j = None \<and> x j = None"
  shows "view s' = view s"
proof
  fix j
  note l = leavesD [OF assms(1)]
  consider (same) "map_option no_lru (m j) = map_option no_lru (kmap s j)" "x j = kexp s j"
    | (dead) "gone s j" "m j = None" "x j = None" using assms(2) [of j] by auto
  then show "view s' j = view s j"
  proof cases
    case same
    have "gone s' j = gone s j" using l same by (intro gone_cong) auto
    moreover have "map_option (\<lambda>v. (no_lru v, kexp s j)) (m j) = map_option (\<lambda>v. (no_lru v, kexp s j)) (kmap s j)"
      using same(1) by (cases "m j"; cases "kmap s j") auto
    ultimately show ?thesis using l same by (simp add: view_def)
  next
    case dead
    then show ?thesis using l by (simp add: view_def)
  qed
qed

lemma expireIfNeeded_ok:
  assumes "db_ok s"
  shows "\<exists>s'. expireIfNeeded s k = Inr (expired s k, s') \<and>
    leaves s s' (if gone s k then (kmap s)(k := None) else kmap s) (if gone s k then (kexp s)(k := None) else kexp s)
      (expiry_notices s k)"
proof -
  obtain s1 where s1: "getExpire s k = Inr (case kexp s k of None \<Rightarrow> -1 | Some w \<Rightarrow> w, s1)"
    "leaves s s1 (kmap s) (kexp s) []" using getExpire_ok [OF assms] by blast
  note l = leavesD [OF s1(2)] and f = cfg_fields [OF leavesD(2) [OF s1(2)]]
  have n: "(case lua_start s1 of Some t \<Rightarrow> t | None \<Rightarrow> mstime s1) = now_of s" unfolding now_of_def f ..
  show ?thesis
  proof (cases "gone s k")
    case False
    then have "expireIfNeeded s k = Inr (expired s k, s1)"
      unfolding expireIfNeeded_def s1(1) Let_def rbind_simps prod.case n
      by (auto simp: gone_def expired_def f split: option.splits)
    then show ?thesis using False s1(2) by (auto simp: expiry_notices_def)
  next
    case True
    then obtain w where w: "kexp s k = Some w" "0 \<le> w" "\<not> loading s" "w < now_of s" "\<not> is_slave s"
      by (auto simp: gone_def expired_def split: option.splits)
    let ?s2 = "notifyKeyspaceEvent ''expired'' (propagateExpire (s1\<lparr>stat_expiredkeys := stat_expiredkeys s1 + 1\<rparr>) k) k"
    have h: "dictSdsHash ?s2 = dictSdsHash s1" "cfg ?s2 = cfg s1" "db ?s2 = db s1" "dirty ?s2 = dirty s1"
      "notices ?s2 = notices s1 @ [PropagateDel (db_id (db s1)) k, KeyspaceEvent ''expired'' (db_id (db s1)) k]"
      "held ?s2 = held s1"
      by (simp_all add: notifyKeyspaceEvent_def propagateExpire_def)
    have "db_ok ?s2" using l(1) h by (simp add: db_ok_def)
    from dbDelete_ok [OF this, of k] obtain s3 where
      s3: "dbDelete ?s2 k = Inr (kmap s1 k \<noteq> None, s3)"
        "leaves ?s2 s3 ((kmap s1)(k := None)) ((kexp s1)(k := None)) (if kmap s1 k \<noteq> None \<and> cluster_enabled s1 then [SlotDel k] else [])"
      unfolding h cfg_fields(9) [OF h(2)] by blast
    have k: "kmap s1 k \<noteq> None" using db_okD(3) [OF assms] w(1) l(3) by auto
    have "expireIfNeeded s k = Inr (True, s3)"
      unfolding expireIfNeeded_def s1(1) Let_def rbind_simps prod.case n using w k s3(1) by (simp add: f)
    moreover have "leaves s s3 ((kmap s)(k := None)) ((kexp s)(k := None)) (expiry_notices s k)"
      using s3(2) l h k True by (auto simp: leaves_def expiry_notices_def f)
    ultimately show ?thesis using True by (auto simp: gone_def)
  qed
qed

lemma typed_touch [simp]: "typed_obj (v\<lparr>lru := t\<rparr>) = typed_obj v"
  by (simp add: typed_obj_def str_obj_def sdsEncodedObject_def split: objtype.splits objptr.splits)

lemma no_lru_touch [simp]: "no_lru (v\<lparr>lru := t\<rparr>) = no_lru v"
  by (simp add: no_lru_def)

lemma lookupKey_ok:
  assumes "db_ok s"
  shows "\<exists>v s'. lookupKey e s k nt = Inr (v, s') \<and> kmap s' k = v \<and> map_option no_lru v = map_option no_lru (kmap s k) \<and>
    leaves s s' ((kmap s)(k := v)) (kexp s) []"
proof -
  obtain s1 where s1: "find_key s k = Inr (kmap s k, s1)" "leaves s s1 (kmap s) (kexp s) []"
    using find_key_ok [OF assms] by blast
  note l = leavesD [OF s1(2)]
  have same: ?thesis if "lookupKey e s k nt = Inr (kmap s k, s1)"
    using that s1(2) l by auto
  show ?thesis
  proof (cases "kmap s k")
    case None
    then show ?thesis using s1(1) by (intro same) (simp add: lookupKey_def)
  next
    case (Some v)
    show ?thesis
    proof (cases "\<not> saving s1 \<and> \<not> nt")
      case False
      then show ?thesis using s1(1) Some by (intro same) (auto simp: lookupKey_def)
    next
      case True
      have "typed_obj (v\<lparr>lru := lruclock e\<rparr>)" using db_okD(4) [OF assms Some] by simp
      moreover have "kmap s1 k = Some v" using Some l by simp
      ultimately obtain s2 where s2: "write_object s1 k (v\<lparr>lru := lruclock e\<rparr>) = Inr s2"
        "leaves s1 s2 ((kmap s1)(k \<mapsto> v\<lparr>lru := lruclock e\<rparr>)) (kexp s1) []" using write_object_ok [OF l(1)] by blast
      have "leaves s s2 ((kmap s)(k \<mapsto> v\<lparr>lru := lruclock e\<rparr>)) (kexp s) []"
        using leaves_trans [OF s1(2) s2(2)] l by simp
      moreover have "lookupKey e s k nt = Inr (Some (v\<lparr>lru := lruclock e\<rparr>), s2)"
        using s1(1) s2(1) Some True by (simp add: lookupKey_def)
      ultimately show ?thesis using Some leavesD(3) by fastforce
    qed
  qed
qed

lemma room_mono:
  assumes "db_ok s" "db_ok s'" "dom (kmap s') \<subseteq> dom (kmap s)" "room_for n s"
  shows "room_for n s'"
proof -
  have "finite (dom (kmap s))" by (simp add: dict_map_def finite_dom_map_of)
  then have "card (dom (kmap s')) \<le> card (dom (kmap s))" using assms(3) by (rule card_mono)
  then show ?thesis
    using assms dictSize_card [OF db_okD(1) [OF assms(1)]] dictSize_card [OF db_okD(1) [OF assms(2)]] by (simp add: room_for_def)
qed

lemma map_option_none: "map_option f x = map_option g y \<Longrightarrow> (x = None) = (y = None)"
  by (cases x; cases y) auto

lemma lookupKeyWrite_ok:
  assumes "db_ok s"
  shows "\<exists>v s'. lookupKeyWrite e s k = Inr (v, s') \<and> kmap s' k = v \<and> map_option no_lru v = map_option fst (view s k) \<and>
    (v \<noteq> None \<longrightarrow> view s k = Some (no_lru (the v), kexp s' k)) \<and> (v = None \<longrightarrow> kexp s' k = None) \<and> \<not> gone s' k \<and>
    view s' = view s \<and> quiet s s' (expiry_notices s k) \<and> dom (kmap s') \<subseteq> dom (kmap s)"
proof -
  obtain s1 where s1: "expireIfNeeded s k = Inr (expired s k, s1)"
    "leaves s s1 (if gone s k then (kmap s)(k := None) else kmap s) (if gone s k then (kexp s)(k := None) else kexp s)
      (expiry_notices s k)" using expireIfNeeded_ok [OF assms] by blast
  note l = leavesD [OF s1(2)]
  obtain v s2 where s2: "lookupKey e s1 k False = Inr (v, s2)" "kmap s2 k = v"
    "map_option no_lru v = map_option no_lru (kmap s1 k)" "leaves s1 s2 ((kmap s1)(k := v)) (kexp s1) []"
    using lookupKey_ok [OF l(1)] by blast
  note m = leavesD [OF s2(4)]
  have all: "leaves s s2 ((kmap s1)(k := v)) (kexp s1) (expiry_notices s k)" using leaves_trans [OF s1(2) s2(4)] by simp
  have v: "map_option no_lru v = map_option fst (view s k)"
    using s2(3) l by (simp add: view_def option.map_comp o_def split: if_splits)
  have "view s2 = view s"
    by (rule view_leaves [OF all]) (use l s2(3) in \<open>auto split: if_splits\<close>)
  moreover have "v = None \<longrightarrow> kexp s2 k = None"
    using db_okD(3) [OF m(1)] s2(2) by auto
  moreover have "\<not> gone s2 k"
  proof (cases "gone s k")
    case True
    then have "kexp s2 k = None" using m l by simp
    then show ?thesis by simp
  next
    case False
    moreover have "gone s2 k = gone s k" by (rule gone_cong(2)) (use m l False in simp_all)
    ultimately show ?thesis by simp
  qed
  moreover have "view s k = Some (no_lru (the v), kexp s2 k)" if "v \<noteq> None"
    using that s2(3) l m by (cases "kmap s k") (auto simp: view_def split: if_splits)
  moreover have "dom (kmap s2) \<subseteq> dom (kmap s)"
    using m l map_option_none [OF s2(3)] by (auto split: if_splits)
  ultimately show ?thesis using s1(1) s2(1,2) v leaves_quiet [OF all] by (auto simp: lookupKeyWrite_def)
qed

text \<open>On a replica a read-only command of another client does not see a key whose time has passed either.\<close>

definition rview :: "server \<Rightarrow> string \<rightharpoonup> robj \<times> int option" where
  "rview s k = (if expired s k \<and> readonly_caller s then None else view s k)"

lemma lookupKeyReadWithFlags_ok:
  assumes "db_ok s"
  shows "\<exists>v s'. lookupKeyReadWithFlags e s k nt = Inr (v, s') \<and> map_option no_lru v = map_option fst (rview s k) \<and>
    (v \<noteq> None \<longrightarrow> kmap s' k = v \<and> rview s k = Some (no_lru (the v), kexp s' k)) \<and>
    view s' = view s \<and> quiet s s' (expiry_notices s k) \<and> dom (kmap s') \<subseteq> dom (kmap s)"
proof -
  obtain s1 where s1: "expireIfNeeded s k = Inr (expired s k, s1)"
    "leaves s s1 (if gone s k then (kmap s)(k := None) else kmap s) (if gone s k then (kexp s)(k := None) else kexp s)
      (expiry_notices s k)" using expireIfNeeded_ok [OF assms] by blast
  note l = leavesD [OF s1(2)] and f = cfg_fields [OF leavesD(2) [OF s1(2)]]
  have view1: "view s1 = view s" by (rule view_leaves [OF s1(2)]) (auto split: if_splits)
  show ?thesis
  proof (cases "expired s k \<and> (\<not> is_slave s1 \<or> readonly_caller s1)")
    case True
    then have "lookupKeyReadWithFlags e s k nt = Inr (None, s1)" using s1(1) by (simp add: lookupKeyReadWithFlags_def)
    moreover have "rview s k = None" using True f by (auto simp: rview_def view_def gone_def)
    moreover have "dom (kmap s1) \<subseteq> dom (kmap s)" using l by (auto split: if_splits)
    ultimately show ?thesis using view1 leaves_quiet [OF s1(2)] by auto
  next
    case False
    obtain v s2 where s2: "lookupKey e s1 k nt = Inr (v, s2)" "kmap s2 k = v"
      "map_option no_lru v = map_option no_lru (kmap s1 k)" "leaves s1 s2 ((kmap s1)(k := v)) (kexp s1) []"
      using lookupKey_ok [OF l(1)] by blast
    note m = leavesD [OF s2(4)]
    let ?s3 = "if v = None then s2\<lparr>stat_keyspace_misses := stat_keyspace_misses s2 + 1\<rparr>
               else s2\<lparr>stat_keyspace_hits := stat_keyspace_hits s2 + 1\<rparr>"
    have g: "\<not> gone s k" "\<not> (expired s k \<and> readonly_caller s)" using False f by (auto simp: gone_def)
    have all: "leaves s ?s3 ((kmap s1)(k := v)) (kexp s1) (expiry_notices s k)"
      using leaves_trans [OF s1(2) s2(4)] by (simp add: leaves_def)
    note n = leavesD [OF all]
    have "lookupKeyReadWithFlags e s k nt = Inr (v, ?s3)"
      unfolding lookupKeyReadWithFlags_def s1(1) rbind_simps prod.case if_not_P [OF False] s2(1) ..
    moreover have "map_option no_lru v = map_option fst (rview s k)"
      using s2(3) l g by (auto simp: rview_def view_def option.map_comp o_def)
    moreover have "view ?s3 = view s"
      by (rule view_leaves [OF all]) (use l s2(3) g in \<open>auto split: if_splits\<close>)
    moreover have "rview s k = Some (no_lru (the v), kexp ?s3 k)" if "v \<noteq> None"
      using that s2(3) l n g by (cases "kmap s k") (auto simp: rview_def view_def)
    moreover have "dom (kmap ?s3) \<subseteq> dom (kmap s)"
      unfolding n(3) using l map_option_none [OF s2(3)] g by (auto split: if_splits)
    moreover have "kmap ?s3 k = v" using n(3) by simp
    ultimately show ?thesis using leaves_quiet [OF all] by blast
  qed
qed

section \<open>Writing keys\<close>

definition add_notices :: "server \<Rightarrow> string \<Rightarrow> robj \<Rightarrow> notice list" where
  "add_notices s k val =
     (if otype val = OBJ_LIST then [ListReady (db_id (db s)) k] else []) @ (if cluster_enabled s then [SlotAdd k] else [])"

lemma dbAdd_ok:
  assumes "db_ok s" "kmap s k = None" "typed_obj val" "room_for 1 s"
  shows "\<exists>s'. dbAdd s k val = Inr s' \<and> leaves s s' ((kmap s)(k \<mapsto> val)) (kexp s) (add_notices s k val)"
proof -
  have "dictSize (kdict (db s)) < 2 ^ 62 - 1" using assms(4) by (simp add: room_for_def)
  then obtain d where d: "dictAdd (can_resize s) (dictSdsHash s) (kdict (db s)) k val = Inr (True, d)"
    "dict_ok (dictSdsHash s) d" "dict_map d = (kmap s)(k \<mapsto> val)"
    using dict_store.add_law [OF db_okD(1) [OF assms(1)], of "can_resize s" k val] assms(2) by auto
  have "db_ok (put_dict d s)"
    using d assms db_okD(3) [OF assms(1)] by (intro db_ok_put_dict) (auto dest: db_okD split: if_splits)
  moreover have "cluster_enabled (put_dict d s) = cluster_enabled s" "cluster_enabled (noted n s') = cluster_enabled s'"
    "db_id (db (put_dict d s)) = db_id (db s)" for n s'
    by (simp_all add: put_dict_def noted_def)
  ultimately show ?thesis
    using d by (auto simp: dbAdd_def Let_def leaves_def add_notices_def)
qed

lemma dbOverwrite_ok:
  assumes "db_ok s" "kmap s k \<noteq> None" "typed_obj val" "room_for 0 s"
  shows "\<exists>s'. dbOverwrite s k val = Inr s' \<and> leaves s s' ((kmap s)(k \<mapsto> val)) (kexp s) []"
proof -
  obtain s1 where s1: "find_key s k = Inr (kmap s k, s1)" "leaves s s1 (kmap s) (kexp s) []"
    using find_key_ok [OF assms(1)] by blast
  note l = leavesD [OF s1(2)]
  have "room_for 0 s1" using room_mono [OF assms(1) l(1) _ assms(4)] l by simp
  then have "dictSize (kdict (db s1)) < 2 ^ 62 - 1" by (simp add: room_for_def)
  then obtain d where d: "dictReplace (can_resize s1) (dictSdsHash s1) (kdict (db s1)) k val = Inr (kmap s1 k = None, d)"
    "dict_ok (dictSdsHash s1) d" "dict_map d = (kmap s1)(k \<mapsto> val)"
    using dict_store.rep_law [OF db_okD(1) [OF l(1)], of "can_resize s1" k val] by blast
  have "db_ok (put_dict d s1)"
    using d assms(3) l db_okD(3) [OF l(1)] by (intro db_ok_put_dict) (auto dest: db_okD split: if_splits)
  then have "leaves s (put_dict d s1) ((kmap s)(k \<mapsto> val)) (kexp s) []" using d l by (simp add: leaves_def)
  moreover have "dbOverwrite s k val = Inr (put_dict d s1)"
    using s1(1) d assms(2) l release_value_ok [OF l(1)] by (simp add: dbOverwrite_def)
  ultimately show ?thesis by blast
qed

text \<open>Writing the object of a key that is there, and giving it a new expire time.\<close>

lemma view_upd:
  assumes "leaves s s' ((kmap s)(k \<mapsto> v)) x ns" "\<And>j. j \<noteq> k \<Longrightarrow> x j = kexp s j" "\<not> gone s' k"
  shows "view s' = (view s)(k \<mapsto> (no_lru v, x k))"
proof
  fix j
  note l = leavesD [OF assms(1)]
  have "gone s' j = gone s j" if "j \<noteq> k" using that l assms(2) by (intro gone_cong(2)) auto
  then show "view s' j = ((view s)(k \<mapsto> (no_lru v, x k))) j"
    using assms(2,3) l by (simp add: view_def)
qed

lemma setKey_ok:
  assumes "db_ok s" "typed_obj val" "room_for 1 s"
  shows "\<exists>s'. setKey e s k val = Inr s' \<and> view s' = (view s)(k \<mapsto> (no_lru val, None)) \<and> kmap s' k = Some val \<and>
    kexp s' k = None \<and> dom (kmap s') \<subseteq> insert k (dom (kmap s)) \<and>
    quiet s s' (expiry_notices s k @ (if view s k = None then add_notices s k val else []) @ [TouchWatched (db_id (db s)) k])"
proof -
  obtain v s1 where s1: "lookupKeyWrite e s k = Inr (v, s1)" "kmap s1 k = v"
    "map_option no_lru v = map_option fst (view s k)" "v = None \<longrightarrow> kexp s1 k = None" "view s1 = view s"
    "quiet s s1 (expiry_notices s k)" "dom (kmap s1) \<subseteq> dom (kmap s)" using lookupKeyWrite_ok [OF assms(1), of e k] by metis
  note q = quietD [OF s1(6)] and f = cfg_fields [OF quietD(2) [OF s1(6)]]
  have r: "room_for 1 s1" using room_mono [OF assms(1) q(1) s1(7) assms(3)] .
  obtain s2 where s2: "(if v = None then dbAdd s1 k val else dbOverwrite s1 k val) = Inr s2"
    "leaves s1 s2 ((kmap s1)(k \<mapsto> val)) (kexp s1) (if v = None then add_notices s k val else [])"
  proof (cases v)
    case None
    have "add_notices s1 k val = add_notices s k val" unfolding add_notices_def f ..
    then show ?thesis using that dbAdd_ok [OF q(1) _ assms(2) r, of k] s1(2) None by auto
  next
    case (Some x)
    have "room_for 0 s1" using r by (simp add: room_for_def)
    then show ?thesis using that dbOverwrite_ok [OF q(1) _ assms(2)] s1(2) Some by auto
  qed
  note l2 = leavesD [OF s2(2)]
  obtain s3 where s3: "removeExpire s2 k = Inr (kexp s2 k \<noteq> None, s3)"
    "leaves s2 s3 (kmap s2) ((kexp s2)(k := None)) []" using removeExpire_ok [OF l2(1), of k] l2(3) by auto
  note l3 = leavesD [OF s3(2)]
  have all: "leaves s1 s3 ((kmap s1)(k \<mapsto> val)) ((kexp s1)(k := None)) (if v = None then add_notices s k val else [])"
    using leaves_trans [OF s2(2) s3(2)] l2 by simp
  have "view s3 = (view s1)(k \<mapsto> (no_lru val, ((kexp s1)(k := None)) k))"
    by (rule view_upd [OF all]) (use l2 l3 in auto)
  then have w: "view s3 = (view s)(k \<mapsto> (no_lru val, None))" by (simp add: s1(5))
  let ?s4 = "signalModifiedKey s3 k"
  have view4: "view ?s4 = view s3"
    by (rule view_leaves [of s3 ?s4 "kmap s3" "kexp s3" "[TouchWatched (db_id (db s3)) k]"])
      (use l3 in \<open>simp_all add: leaves_def signalModifiedKey_def\<close>)
  have id: "db_id (db s3) = db_id (db s)" using cfg_fields(1) [OF l3(2)] cfg_fields(1) [OF l2(2)] f by simp
  have "quiet s s3 (expiry_notices s k @ (if v = None then add_notices s k val else []))"
    using quiet_trans [OF s1(6) leaves_quiet [OF all]] .
  then have "quiet s ?s4 (expiry_notices s k @ (if v = None then add_notices s k val else []) @ [TouchWatched (db_id (db s)) k])"
    by (simp add: quiet_def signalModifiedKey_def id)
  moreover have "(v = None) = (view s k = None)" using map_option_none [OF s1(3)] .
  moreover have "setKey e s k val = Inr ?s4" using s1(1) s2(1) s3(1) by (simp add: setKey_def)
  moreover have "dom (kmap ?s4) \<subseteq> insert k (dom (kmap s))" "kmap ?s4 k = Some val" "kexp ?s4 k = None"
    using l2 l3 s1(7) by (auto simp: signalModifiedKey_def)
  ultimately show ?thesis using w view4 by auto
qed

lemma typed_str: "str_obj v \<Longrightarrow> typed_obj v"
  by (simp add: typed_obj_def str_obj_def)

lemma typed_string: "typed_obj v \<Longrightarrow> otype v = OBJ_STRING \<Longrightarrow> str_obj v"
  by (simp add: typed_obj_def)

lemma createRaw_fields:
  "createRawStringObject clock p n = Inr v \<Longrightarrow> oenc v = OBJ_ENCODING_RAW \<and> (\<exists>d. optr v = PSds d) \<and> refcount v = 1"
  by (auto simp: createRawStringObject_def createObject_def)

text \<open>The object of a key is ready for a change in place: a raw string nobody else refers to.\<close>

lemma dbUnshareStringValue_ok:
  assumes "db_ok s" "kmap s k = Some v" "str_obj v" "room_for 0 s"
  shows "\<exists>r s'. dbUnshareStringValue e s k v = Inr (r, s') \<and> str_obj r \<and> obj_text r = obj_text v \<and>
    oenc r = OBJ_ENCODING_RAW \<and> leaves s s' ((kmap s)(k \<mapsto> r)) (kexp s) []"
proof (cases "refcount v + held s k \<noteq> 1 \<or> oenc v \<noteq> OBJ_ENCODING_RAW")
  case False
  have "(kmap s)(k \<mapsto> v) = kmap s" using assms(2) by (simp add: map_upd_triv)
  then have "leaves s s ((kmap s)(k \<mapsto> v)) (kexp s) []" using leaves_refl [OF assms(1)] by simp
  then show ?thesis using False assms(3) by (auto simp: dbUnshareStringValue_def str_obj_def)
next
  case True
  obtain d where d: "getDecodedObject (junk e) (lruclock e) v = Inr d" "str_obj d" "obj_text d = obj_text v" "sdsEncodedObject d"
    using getDecodedObject_text [OF assms(3)] by blast
  from d(2) obtain t where t: "optr d = PSds t" "sds_ok t" "obj_text d = sdsval t" "take (sdslen t) (hdr_buf t) = sdsval t"
    using d(4) by (cases rule: str_obj_cases) auto
  obtain r where r: "createRawStringObject (lruclock e) (Some (hdr_buf t)) (sdslen t) = Inr r" "str_obj r"
    "obj_text r = sdsval t"
    using createRawStringObject_ok [of "sdslen t" "hdr_buf t" "lruclock e"] sdslen_le_buf [OF t(2)] sdslen_less64 [OF t(2)] t(4)
    by auto
  obtain x where x: "decrRefCount d = Inr x" using decrRefCount_typed [OF typed_str [OF d(2)]] by blast
  have "kmap s k \<noteq> None" using assms(2) by simp
  from dbOverwrite_ok [OF assms(1) this typed_str [OF r(2)] assms(4)] obtain s1 where
    s1: "dbOverwrite s k r = Inr s1" "leaves s s1 ((kmap s)(k \<mapsto> r)) (kexp s) []" by blast
  have "otype v = OBJ_STRING" using assms(3) by (simp add: str_obj_def)
  then have "dbUnshareStringValue e s k v = Inr (r, s1)"
    using True d(1) t(1) r(1) x s1(1) by (simp add: dbUnshareStringValue_def sds_of_def)
  then show ?thesis using r createRaw_fields [OF r(1)] d(3) t(3) s1(2) by auto
qed

section \<open>Properties\<close>

text \<open>A server of its own with an empty database.\<close>

definition demo_server :: "int \<Rightarrow> server" where
  "demo_server now = \<lparr>db = \<lparr>kdict = dictCreate, kexpires = dictCreate, db_id = 0\<rparr>, hash_seed = 5381, can_resize = True, mstime = now,
     lua_start = None, loading = False, is_slave = False, readonly_caller = False, saving = False, cluster_enabled = False,
     held = (\<lambda>_. 0), maxmemory = 0, maxmemory_policy = MAXMEMORY_NO_EVICTION, stat_keyspace_hits = 0, stat_keyspace_misses = 0,
     stat_expiredkeys = 0, stat_numcommands = 0, dirty = 0, notices = []\<rparr>"

lemma demo_server_ok:
  "db_ok (demo_server now)" "room_for 100 (demo_server now)" "kmap (demo_server now) = Map.empty" "kexp (demo_server now) = Map.empty"
  by (auto simp: db_ok_def demo_server_def room_for_def)

lemma room_few: "room_for n s \<Longrightarrow> m \<le> n \<Longrightarrow> room_for m s"
  by (simp add: room_for_def)

lemma demo_with_key:
  assumes "typed_obj v"
  obtains s where "db_ok s" "cfg s = cfg (demo_server now)" "kmap s = [k \<mapsto> v]" "kexp s = Map.empty" "room_for 50 s"
proof -
  have "room_for 1 (demo_server now)" using room_few [OF demo_server_ok(2)] by simp
  then obtain s where s: "leaves (demo_server now) s [k \<mapsto> v] Map.empty (add_notices (demo_server now) k v)"
    using dbAdd_ok [OF demo_server_ok(1) _ assms, of now k] by (auto simp: demo_server_ok)
  note l = leavesD [OF s]
  have "room_for 50 s" using dictSize_card [OF db_okD(1) [OF l(1)]] by (simp add: l(3) room_for_def)
  then show thesis using that [OF l(1,2,3,4)] by simp
qed

lemma demo_with_expire:
  assumes "typed_obj v" "in_int64 w"
  obtains s where "db_ok s" "cfg s = cfg (demo_server now)" "kmap s = [k \<mapsto> v]" "kexp s = [k \<mapsto> w]" "room_for 50 s"
proof -
  obtain s where s: "db_ok s" "cfg s = cfg (demo_server now)" "kmap s = [k \<mapsto> v]" "kexp s = Map.empty" "room_for 50 s"
    using demo_with_key [OF assms(1)] by blast
  obtain s1 where "leaves s s1 [k \<mapsto> v] [k \<mapsto> w] []"
    using setExpire_ok [OF s(1) _ assms(2) room_few [OF s(5)], of k] by (auto simp: s(3,4))
  note l = leavesD [OF this]
  have "room_for 50 s1" using dictSize_card [OF db_okD(1) [OF l(1)]] by (simp add: l(3) room_for_def)
  then show thesis using that [OF l(1) _ l(3,4)] l(2) s(2) by simp
qed


definition demo_list :: robj where
  "demo_list = \<lparr>otype = OBJ_LIST, oenc = OBJ_ENCODING_QUICKLIST, optr = PAgg 0, refcount = 1, lru = 0\<rparr>"

lemma demo_list_typed: "typed_obj demo_list"
  by (simp add: demo_list_def typed_obj_def)


end
