(* ===== verification/TString.thy ===== *)
theory TString
  imports Db
begin

text \<open>
  String commands (\<open>src/t_string.c\<close>) and the functions of \<open>src/object.c\<close> that read a number from an argument
  or report why they cannot. A command takes the state of the server and the client whose arguments it
  reads, and returns both. \<open>INCRBYFLOAT\<close>, which computes with \<open>long double\<close>, is not modelled.
\<close>

section \<open>Arguments and shared replies\<close>

definition shared_ok :: string where "shared_ok = ''+OK'' @ crlf"
definition shared_nullbulk :: string where "shared_nullbulk = ''$-1'' @ crlf"
definition shared_emptybulk :: string where "shared_emptybulk = ''$0'' @ crlf @ crlf"
definition shared_czero :: string where "shared_czero = '':0'' @ crlf"
definition shared_cone :: string where "shared_cone = '':1'' @ crlf"
definition shared_syntaxerr :: string where "shared_syntaxerr = ''-ERR syntax error'' @ crlf"
definition shared_wrongtypeerr :: string where
  "shared_wrongtypeerr = ''-WRONGTYPE Operation against a key holding the wrong kind of value'' @ crlf"
definition shared_nokeyerr :: string where "shared_nokeyerr = ''-ERR no such key'' @ crlf"
definition shared_colon :: string where "shared_colon = '':''"

definition arg :: "client \<Rightarrow> nat \<Rightarrow> robj res" where
  "arg c j = (if j < length (argv c) then Inr (argv c ! j) else Inl OutOfBounds)"

definition set_arg :: "client \<Rightarrow> nat \<Rightarrow> robj \<Rightarrow> client" where
  "set_arg c j v = c\<lparr>argv := (argv c)[j := v]\<rparr>"

definition arg_sds :: "client \<Rightarrow> nat \<Rightarrow> sds res" where
  "arg_sds c j = rbind (arg c j) sds_of"

text \<open>The bytes of an argument that is used as a key.\<close>

definition arg_key :: "client \<Rightarrow> nat \<Rightarrow> string res" where
  "arg_key c j = rbind (arg_sds c j) (\<lambda>t. rd_bytes (hdr_buf t) 0 (sdslen t))"

text \<open>\<open>c->argv[j] = tryObjectEncoding(c->argv[j])\<close>\<close>

definition encode_arg :: "env \<Rightarrow> server \<Rightarrow> client \<Rightarrow> nat \<Rightarrow> (robj \<times> client) res" where
  "encode_arg e s c j =
     rbind (arg c j) (\<lambda>v.
     rbind (tryObjectEncoding (junk e) (lruclock e) (maxmemory s) (maxmemory_policy s) v) (\<lambda>v'.
     Inr (v', set_arg c j v')))"

definition getLongLongFromObjectOrReply :: "env \<Rightarrow> client \<Rightarrow> robj option \<Rightarrow> string option \<Rightarrow> (int option \<times> client) res" where
  "getLongLongFromObjectOrReply e c p msg =
     rbind (getLongLongFromObject p) (\<lambda>v.
     case v of
       None \<Rightarrow>
         rbind (addReplyError e c (case msg of Some m \<Rightarrow> m | None \<Rightarrow> ''value is not an integer or out of range'')) (\<lambda>c1.
         Inr (None, c1))
     | Some n \<Rightarrow> Inr (Some n, c))"

definition getLongFromObjectOrReply :: "env \<Rightarrow> client \<Rightarrow> robj option \<Rightarrow> string option \<Rightarrow> (int option \<times> client) res" where
  "getLongFromObjectOrReply e c p msg =
     rbind (getLongLongFromObjectOrReply e c p msg) (\<lambda>(v, c1).
     case v of
       None \<Rightarrow> Inr (None, c1)
     | Some n \<Rightarrow>
         if n < - (2 ^ 63) \<or> n > 2 ^ 63 - 1 then
           rbind (addReplyError e c1 (case msg of Some m \<Rightarrow> m | None \<Rightarrow> ''value is out of range'')) (\<lambda>c2. Inr (None, c2))
         else Inr (Some n, c1))"

section \<open>SET and its variants\<close>

text \<open>Conversion of an unsigned sum to \<open>long long\<close>.\<close>

definition to_int64 :: "int \<Rightarrow> int" where
  "to_int64 n = (n + 2 ^ 63) mod 2 ^ 64 - 2 ^ 63"

definition checkStringLength :: "env \<Rightarrow> client \<Rightarrow> int \<Rightarrow> (bool \<times> client) res" where
  "checkStringLength e c size' =
     (if size' > 512 * 1024 * 1024
      then rbind (addReplyError e c ''string exceeds maximum allowed size (512MB)'') (\<lambda>c1. Inr (False, c1))
      else Inr (True, c))"

datatype set_flag = OBJ_SET_NX | OBJ_SET_XX | OBJ_SET_EX | OBJ_SET_PX

datatype time_unit = UNIT_SECONDS | UNIT_MILLISECONDS

definition set_expire_ms :: "env \<Rightarrow> client \<Rightarrow> string \<Rightarrow> robj option \<Rightarrow> time_unit \<Rightarrow> (int option \<times> client) res" where
  "set_expire_ms e c cmdname expire unit =
     (case expire of
        None \<Rightarrow> Inr (Some 0, c)
      | Some x \<Rightarrow>
          rbind (getLongLongFromObjectOrReply e c (Some x) None) (\<lambda>(v, c1).
          case v of
            None \<Rightarrow> Inr (None, c1)
          | Some n \<Rightarrow>
              if n \<le> 0 then rbind (addReplyErrorFormat e c1 (''invalid expire time in '' @ cmdname)) (\<lambda>c2. Inr (None, c2))
              else if unit = UNIT_SECONDS then rbind (ck_int64 (n * 1000)) (\<lambda>ms. Inr (Some ms, c1))
              else Inr (Some n, c1)))"

definition set_aborts :: "env \<Rightarrow> server \<Rightarrow> string \<Rightarrow> set_flag set \<Rightarrow> (bool \<times> server) res" where
  "set_aborts e s k fl =
     rbind (if OBJ_SET_NX \<in> fl then rbind (lookupKeyWrite e s k) (\<lambda>(v, s1). Inr (v \<noteq> None, s1)) else Inr (False, s)) (\<lambda>(a, s1).
     if a then Inr (True, s1)
     else if OBJ_SET_XX \<in> fl then rbind (lookupKeyWrite e s1 k) (\<lambda>(v, s2). Inr (v = None, s2))
     else Inr (False, s1))"

definition setGenericCommand ::
  "env \<Rightarrow> server \<Rightarrow> client \<Rightarrow> string \<Rightarrow> set_flag set \<Rightarrow> string \<Rightarrow> robj \<Rightarrow> robj option \<Rightarrow> time_unit \<Rightarrow> string option \<Rightarrow>
   string option \<Rightarrow> (server \<times> client) res" where
  "setGenericCommand e s c cmdname fl k val expire unit ok_reply abort_reply =
     rbind (set_expire_ms e c cmdname expire unit) (\<lambda>(ms, c1).
     case ms of
       None \<Rightarrow> Inr (s, c1)
     | Some milliseconds \<Rightarrow>
         rbind (set_aborts e s k fl) (\<lambda>(abort, s1).
         if abort then
           rbind (addReplyShared e c1 (case abort_reply of Some r \<Rightarrow> r | None \<Rightarrow> shared_nullbulk)) (\<lambda>c2. Inr (s1, c2))
         else
           rbind (setKey e s1 k val) (\<lambda>s2.
           let s3 = dirtied s2 in
           rbind (if expire \<noteq> None
                  then rbind (ck_int64 (mstime s3 + milliseconds)) (\<lambda>w. setExpire s3 k w) else Inr s3) (\<lambda>s4.
           let s5 = notifyKeyspaceEvent ''set'' s4 k;
               s6 = (if expire \<noteq> None then notifyKeyspaceEvent ''expire'' s5 k else s5) in
           rbind (addReplyShared e c1 (case ok_reply of Some r \<Rightarrow> r | None \<Rightarrow> shared_ok)) (\<lambda>c2. Inr (s6, c2))))))"

text \<open>
  \<open>opt_is\<close> compares an argument with a two-letter option in either case, letter by letter and with its
  terminator; \<open>set_options\<close> is the loop over the arguments behind the value, without a result when it
  meets one it does not know.
\<close>

definition opt_is :: "string \<Rightarrow> char \<Rightarrow> char \<Rightarrow> char \<Rightarrow> char \<Rightarrow> bool res" where
  "opt_is a l1 u1 l2 u2 =
     rbind (rd a 0) (\<lambda>x.
     if x \<noteq> l1 \<and> x \<noteq> u1 then Inr False
     else
       rbind (rd a 1) (\<lambda>y.
       if y \<noteq> l2 \<and> y \<noteq> u2 then Inr False
       else rbind (rd a 2) (\<lambda>z. Inr (z = NUL))))"

fun set_options ::
  "robj list \<Rightarrow> set_flag set \<Rightarrow> time_unit \<Rightarrow> robj option \<Rightarrow> (set_flag set \<times> time_unit \<times> robj option) option res" where
  "set_options [] fl unit expire = Inr (Some (fl, unit, expire))"
| "set_options (o' # rest) fl unit expire =
     rbind (sds_of o') (\<lambda>t.
     let a = hdr_buf t in
     rbind (opt_is a (CHR ''n'') (CHR ''N'') (CHR ''x'') (CHR ''X'')) (\<lambda>nx.
     if nx \<and> OBJ_SET_XX \<notin> fl then set_options rest (insert OBJ_SET_NX fl) unit expire
     else
       rbind (opt_is a (CHR ''x'') (CHR ''X'') (CHR ''x'') (CHR ''X'')) (\<lambda>xx.
       if xx \<and> OBJ_SET_NX \<notin> fl then set_options rest (insert OBJ_SET_XX fl) unit expire
       else
         rbind (opt_is a (CHR ''e'') (CHR ''E'') (CHR ''x'') (CHR ''X'')) (\<lambda>ex.
         if ex \<and> OBJ_SET_PX \<notin> fl \<and> rest \<noteq> []
         then set_options (tl rest) (insert OBJ_SET_EX fl) UNIT_SECONDS (Some (hd rest))
         else
           rbind (opt_is a (CHR ''p'') (CHR ''P'') (CHR ''x'') (CHR ''X'')) (\<lambda>px.
           if px \<and> OBJ_SET_EX \<notin> fl \<and> rest \<noteq> []
           then set_options (tl rest) (insert OBJ_SET_PX fl) UNIT_MILLISECONDS (Some (hd rest))
           else Inr None)))))"

definition setCommand :: "env \<Rightarrow> server \<Rightarrow> client \<Rightarrow> string \<Rightarrow> (server \<times> client) res" where
  "setCommand e s c cmdname =
     rbind (set_options (drop 3 (argv c)) {} UNIT_SECONDS None) (\<lambda>opts.
     case opts of
       None \<Rightarrow> rbind (addReplyShared e c shared_syntaxerr) (\<lambda>c1. Inr (s, c1))
     | Some (fl, unit, expire) \<Rightarrow>
         rbind (encode_arg e s c 2) (\<lambda>(val, c1).
         rbind (arg_key c1 1) (\<lambda>k. setGenericCommand e s c1 cmdname fl k val expire unit None None)))"

definition setnxCommand :: "env \<Rightarrow> server \<Rightarrow> client \<Rightarrow> string \<Rightarrow> (server \<times> client) res" where
  "setnxCommand e s c cmdname =
     rbind (encode_arg e s c 2) (\<lambda>(val, c1).
     rbind (arg_key c1 1) (\<lambda>k.
     setGenericCommand e s c1 cmdname {OBJ_SET_NX} k val None UNIT_SECONDS (Some shared_cone) (Some shared_czero)))"

definition setexCommand :: "env \<Rightarrow> server \<Rightarrow> client \<Rightarrow> string \<Rightarrow> (server \<times> client) res" where
  "setexCommand e s c cmdname =
     rbind (encode_arg e s c 3) (\<lambda>(val, c1).
     rbind (arg_key c1 1) (\<lambda>k.
     rbind (arg c1 2) (\<lambda>x. setGenericCommand e s c1 cmdname {} k val (Some x) UNIT_SECONDS None None)))"

definition psetexCommand :: "env \<Rightarrow> server \<Rightarrow> client \<Rightarrow> string \<Rightarrow> (server \<times> client) res" where
  "psetexCommand e s c cmdname =
     rbind (encode_arg e s c 3) (\<lambda>(val, c1).
     rbind (arg_key c1 1) (\<lambda>k.
     rbind (arg c1 2) (\<lambda>x. setGenericCommand e s c1 cmdname {} k val (Some x) UNIT_MILLISECONDS None None)))"

section \<open>GET and ranges\<close>

definition getGenericCommand :: "env \<Rightarrow> server \<Rightarrow> client \<Rightarrow> (bool \<times> server \<times> client) res" where
  "getGenericCommand e s c =
     rbind (arg_key c 1) (\<lambda>k.
     rbind (lookupKeyReadOrReply e s c k shared_nullbulk) (\<lambda>(v, s1, c1).
     case v of
       None \<Rightarrow> Inr (True, s1, c1)
     | Some o' \<Rightarrow>
         if otype o' \<noteq> OBJ_STRING then rbind (addReplyShared e c1 shared_wrongtypeerr) (\<lambda>c2. Inr (False, s1, c2))
         else rbind (addReplyBulk e c1 o') (\<lambda>c2. Inr (True, s1, c2))))"

definition getCommand :: "env \<Rightarrow> server \<Rightarrow> client \<Rightarrow> (server \<times> client) res" where
  "getCommand e s c = rbind (getGenericCommand e s c) (\<lambda>(_, s1, c1). Inr (s1, c1))"

definition getsetCommand :: "env \<Rightarrow> server \<Rightarrow> client \<Rightarrow> (server \<times> client) res" where
  "getsetCommand e s c =
     rbind (getGenericCommand e s c) (\<lambda>(ok, s1, c1).
     if \<not> ok then Inr (s1, c1)
     else
       rbind (encode_arg e s1 c1 2) (\<lambda>(val, c2).
       rbind (arg_key c2 1) (\<lambda>k.
       rbind (setKey e s1 k val) (\<lambda>s2. Inr (dirtied (notifyKeyspaceEvent ''set'' s2 k), c2)))))"

text \<open>The object of the key that is written at an offset, or the reply when nothing is to be written.\<close>

definition setrange_target ::
  "env \<Rightarrow> server \<Rightarrow> client \<Rightarrow> string \<Rightarrow> int \<Rightarrow> nat \<Rightarrow> (robj option \<times> server \<times> client) res" where
  "setrange_target e s c k offset len =
     rbind (lookupKeyWrite e s k) (\<lambda>(v, s1).
     case v of
       None \<Rightarrow>
         if len = 0 then rbind (addReplyShared e c shared_czero) (\<lambda>c1. Inr (None, s1, c1))
         else
           rbind (checkStringLength e c (to_int64 (offset + int len))) (\<lambda>(ok, c1).
           if \<not> ok then Inr (None, s1, c1)
           else
             rbind (sdsnewlen None (nat (offset + int len))) (\<lambda>t.
             let o' = createObject (lruclock e) OBJ_STRING (PSds t) in
             rbind (dbAdd s1 k o') (\<lambda>s2. Inr (Some o', s2, c1))))
     | Some o' \<Rightarrow>
         rbind (checkType e c o' OBJ_STRING) (\<lambda>(bad, c1).
         if bad then Inr (None, s1, c1)
         else
           rbind (stringObjectLen o') (\<lambda>olen.
           if len = 0 then rbind (addReplyLongLong e c1 (int olen)) (\<lambda>c2. Inr (None, s1, c2))
           else
             rbind (checkStringLength e c1 (to_int64 (offset + int len))) (\<lambda>(ok, c2).
             if \<not> ok then Inr (None, s1, c2)
             else rbind (dbUnshareStringValue e s1 k o') (\<lambda>(o2, s2). Inr (Some o2, s2, c2))))))"

definition setrangeCommand :: "env \<Rightarrow> server \<Rightarrow> client \<Rightarrow> (server \<times> client) res" where
  "setrangeCommand e s c =
     rbind (arg_sds c 3) (\<lambda>value.
     rbind (arg c 2) (\<lambda>a2.
     rbind (getLongFromObjectOrReply e c (Some a2) None) (\<lambda>(v, c1).
     case v of
       None \<Rightarrow> Inr (s, c1)
     | Some offset \<Rightarrow>
         if offset < 0 then rbind (addReplyError e c1 ''offset is out of range'') (\<lambda>c2. Inr (s, c2))
         else
           rbind (arg_key c1 1) (\<lambda>k.
           rbind (setrange_target e s c1 k offset (sdslen value)) (\<lambda>(target, s1, c2).
           case target of
             None \<Rightarrow> Inr (s1, c2)
           | Some o' \<Rightarrow>
               rbind (sds_of o') (\<lambda>t.
               rbind (sdsgrowzero (junk e) t (nat offset + sdslen value)) (\<lambda>t1.
               rbind (rd_bytes (hdr_buf value) 0 (sdslen value)) (\<lambda>bytes.
               rbind (wr_bytes (hdr_buf t1) (nat offset) bytes) (\<lambda>b.
               let t2 = t1\<lparr>hdr_buf := b\<rparr> in
               rbind (write_object s1 k (o'\<lparr>optr := PSds t2\<rparr>)) (\<lambda>s2.
               let s3 = dirtied (notifyKeyspaceEvent ''setrange'' (signalModifiedKey s2 k) k) in
               rbind (addReplyLongLong e c2 (int (sdslen t2))) (\<lambda>c3. Inr (s3, c3))))))))))))"

definition range_text :: "env \<Rightarrow> robj \<Rightarrow> string res" where
  "range_text e o' =
     (if oenc o' = OBJ_ENCODING_INT then
        rbind (long_of o') (\<lambda>n.
        rbind (ll2string (mem_resize (junk e) 32 []) 32 n) (\<lambda>(len, b). rd_bytes b 0 len))
      else rbind (sds_of o') (\<lambda>t. rd_bytes (hdr_buf t) 0 (sdslen t)))"

definition range_reply :: "env \<Rightarrow> client \<Rightarrow> string \<Rightarrow> int \<Rightarrow> int \<Rightarrow> client res" where
  "range_reply e c str start end' =
     (let len = int (length str) in
      if start < 0 \<and> end' < 0 \<and> start > end' then addReplyShared e c shared_emptybulk
      else
        (let start1 = (if start < 0 then len + start else start);
             end1 = (if end' < 0 then len + end' else end');
             start2 = (if start1 < 0 then 0 else start1);
             end2 = (if end1 < 0 then 0 else end1);
             end3 = (if end2 \<ge> len then len - 1 else end2) in
         if start2 > end3 \<or> len = 0 then addReplyShared e c shared_emptybulk
         else addReplyBulkCBuffer e c (drop (nat start2) str) (nat (end3 - start2 + 1))))"

definition getrangeCommand :: "env \<Rightarrow> server \<Rightarrow> client \<Rightarrow> (server \<times> client) res" where
  "getrangeCommand e s c =
     rbind (arg c 2) (\<lambda>a2.
     rbind (getLongLongFromObjectOrReply e c (Some a2) None) (\<lambda>(vs, c1).
     case vs of
       None \<Rightarrow> Inr (s, c1)
     | Some start \<Rightarrow>
         rbind (arg c1 3) (\<lambda>a3.
         rbind (getLongLongFromObjectOrReply e c1 (Some a3) None) (\<lambda>(ve, c2).
         case ve of
           None \<Rightarrow> Inr (s, c2)
         | Some end' \<Rightarrow>
             rbind (arg_key c2 1) (\<lambda>k.
             rbind (lookupKeyReadOrReply e s c2 k shared_emptybulk) (\<lambda>(v, s1, c3).
             case v of
               None \<Rightarrow> Inr (s1, c3)
             | Some o' \<Rightarrow>
                 rbind (checkType e c3 o' OBJ_STRING) (\<lambda>(bad, c4).
                 if bad then Inr (s1, c4)
                 else
                   rbind (range_text e o') (\<lambda>str.
                   rbind (range_reply e c4 str start end') (\<lambda>c5. Inr (s1, c5))))))))))"

definition strlenCommand :: "env \<Rightarrow> server \<Rightarrow> client \<Rightarrow> (server \<times> client) res" where
  "strlenCommand e s c =
     rbind (arg_key c 1) (\<lambda>k.
     rbind (lookupKeyReadOrReply e s c k shared_czero) (\<lambda>(v, s1, c1).
     case v of
       None \<Rightarrow> Inr (s1, c1)
     | Some o' \<Rightarrow>
         rbind (checkType e c1 o' OBJ_STRING) (\<lambda>(bad, c2).
         if bad then Inr (s1, c2)
         else rbind (stringObjectLen o') (\<lambda>n. rbind (addReplyLongLong e c2 (int n)) (\<lambda>c3. Inr (s1, c3))))))"

section \<open>Several keys\<close>

fun mget_loop :: "env \<Rightarrow> server \<Rightarrow> client \<Rightarrow> nat \<Rightarrow> nat \<Rightarrow> (server \<times> client) res" where
  "mget_loop e s c j 0 = Inr (s, c)"
| "mget_loop e s c j (Suc n) =
     rbind (arg_key c j) (\<lambda>k.
     rbind (lookupKeyRead e s k) (\<lambda>(v, s1).
     rbind (case v of
              None \<Rightarrow> addReplyShared e c shared_nullbulk
            | Some o' \<Rightarrow> if otype o' \<noteq> OBJ_STRING then addReplyShared e c shared_nullbulk else addReplyBulk e c o') (\<lambda>c1.
     mget_loop e s1 c1 (Suc j) n)))"

definition mgetCommand :: "env \<Rightarrow> server \<Rightarrow> client \<Rightarrow> (server \<times> client) res" where
  "mgetCommand e s c =
     rbind (addReplyMultiBulkLen e c (int (length (argv c)) - 1)) (\<lambda>c1. mget_loop e s c1 1 (length (argv c1) - 1))"

fun busy_keys :: "env \<Rightarrow> server \<Rightarrow> client \<Rightarrow> nat \<Rightarrow> nat \<Rightarrow> nat \<Rightarrow> (nat \<times> server) res" where
  "busy_keys e s c j 0 busy = Inr (busy, s)"
| "busy_keys e s c j (Suc n) busy =
     rbind (arg_key c j) (\<lambda>k.
     rbind (lookupKeyWrite e s k) (\<lambda>(v, s1). busy_keys e s1 c (j + 2) n (if v \<noteq> None then Suc busy else busy)))"

fun mset_loop :: "env \<Rightarrow> server \<Rightarrow> client \<Rightarrow> nat \<Rightarrow> nat \<Rightarrow> (server \<times> client) res" where
  "mset_loop e s c j 0 = Inr (s, c)"
| "mset_loop e s c j (Suc n) =
     rbind (encode_arg e s c (j + 1)) (\<lambda>(val, c1).
     rbind (arg_key c1 j) (\<lambda>k.
     rbind (setKey e s k val) (\<lambda>s1. mset_loop e (notifyKeyspaceEvent ''set'' s1 k) c1 (j + 2) n)))"

definition msetGenericCommand :: "env \<Rightarrow> server \<Rightarrow> client \<Rightarrow> bool \<Rightarrow> (server \<times> client) res" where
  "msetGenericCommand e s c nx =
     (let argc = length (argv c); pairs = argc div 2 in
      if argc mod 2 = 0 then rbind (addReplyError e c ''wrong number of arguments for MSET'') (\<lambda>c1. Inr (s, c1))
      else
        rbind (if nx then busy_keys e s c 1 pairs 0 else Inr (0, s)) (\<lambda>(busy, s1).
        if busy \<noteq> 0 then rbind (addReplyShared e c shared_czero) (\<lambda>c1. Inr (s1, c1))
        else
          rbind (mset_loop e s1 c 1 pairs) (\<lambda>(s2, c1).
          let s3 = s2\<lparr>dirty := dirty s2 + int ((argc - 1) div 2)\<rparr> in
          rbind (addReplyShared e c1 (if nx then shared_cone else shared_ok)) (\<lambda>c2. Inr (s3, c2)))))"

definition msetCommand :: "env \<Rightarrow> server \<Rightarrow> client \<Rightarrow> (server \<times> client) res" where
  "msetCommand e s c = msetGenericCommand e s c False"

definition msetnxCommand :: "env \<Rightarrow> server \<Rightarrow> client \<Rightarrow> (server \<times> client) res" where
  "msetnxCommand e s c = msetGenericCommand e s c True"

section \<open>Counters\<close>

text \<open>The object that holds the new number: the old one written in place where nobody else sees it, else a new one.\<close>

definition incr_store :: "env \<Rightarrow> server \<Rightarrow> string \<Rightarrow> robj option \<Rightarrow> int \<Rightarrow> (robj \<times> server) res" where
  "incr_store e s k v value =
     (case v of
        Some o' \<Rightarrow>
          if refcount o' + held s k = 1 \<and> oenc o' = OBJ_ENCODING_INT \<and> (value < 0 \<or> value \<ge> OBJ_SHARED_INTEGERS) \<and>
             value \<ge> - (2 ^ 63) \<and> value \<le> 2 ^ 63 - 1 then
            (let new = o'\<lparr>optr := PInt value\<rparr> in rbind (write_object s k new) (\<lambda>s1. Inr (new, s1)))
          else
            rbind (createStringObjectFromLongLong (lruclock e) value) (\<lambda>new.
            rbind (dbOverwrite s k new) (\<lambda>s1. Inr (new, s1)))
      | None \<Rightarrow>
          rbind (createStringObjectFromLongLong (lruclock e) value) (\<lambda>new.
          rbind (dbAdd s k new) (\<lambda>s1. Inr (new, s1))))"

definition incrDecrCommand :: "env \<Rightarrow> server \<Rightarrow> client \<Rightarrow> int \<Rightarrow> (server \<times> client) res" where
  "incrDecrCommand e s c incr =
     rbind (arg_key c 1) (\<lambda>k.
     rbind (lookupKeyWrite e s k) (\<lambda>(v, s1).
     rbind (case v of None \<Rightarrow> Inr (False, c) | Some o' \<Rightarrow> checkType e c o' OBJ_STRING) (\<lambda>(bad, c1).
     if bad then Inr (s1, c1)
     else
       rbind (getLongLongFromObjectOrReply e c1 v None) (\<lambda>(n, c2).
       case n of
         None \<Rightarrow> Inr (s1, c2)
       | Some oldvalue \<Rightarrow>
           if incr < 0 \<and> oldvalue < 0 \<and> incr < - (2 ^ 63) - oldvalue \<or>
              incr > 0 \<and> oldvalue > 0 \<and> incr > (2 ^ 63 - 1) - oldvalue then
             rbind (addReplyError e c2 ''increment or decrement would overflow'') (\<lambda>c3. Inr (s1, c3))
           else
             rbind (ck_int64 (oldvalue + incr)) (\<lambda>value.
             rbind (incr_store e s1 k v value) (\<lambda>(new, s2).
             let s3 = dirtied (notifyKeyspaceEvent ''incrby'' (signalModifiedKey s2 k) k) in
             rbind (addReplyShared e c2 shared_colon) (\<lambda>c3.
             rbind (addReply e c3 new) (\<lambda>c4.
             rbind (addReplyShared e c4 crlf) (\<lambda>c5. Inr (s3, c5))))))))))"

definition incrCommand :: "env \<Rightarrow> server \<Rightarrow> client \<Rightarrow> (server \<times> client) res" where
  "incrCommand e s c = incrDecrCommand e s c 1"

definition decrCommand :: "env \<Rightarrow> server \<Rightarrow> client \<Rightarrow> (server \<times> client) res" where
  "decrCommand e s c = incrDecrCommand e s c (-1)"

definition incrbyCommand :: "env \<Rightarrow> server \<Rightarrow> client \<Rightarrow> (server \<times> client) res" where
  "incrbyCommand e s c =
     rbind (arg c 2) (\<lambda>a2.
     rbind (getLongLongFromObjectOrReply e c (Some a2) None) (\<lambda>(v, c1).
     case v of None \<Rightarrow> Inr (s, c1) | Some incr \<Rightarrow> incrDecrCommand e s c1 incr))"

definition decrbyCommand :: "env \<Rightarrow> server \<Rightarrow> client \<Rightarrow> (server \<times> client) res" where
  "decrbyCommand e s c =
     rbind (arg c 2) (\<lambda>a2.
     rbind (getLongLongFromObjectOrReply e c (Some a2) None) (\<lambda>(v, c1).
     case v of None \<Rightarrow> Inr (s, c1) | Some incr \<Rightarrow> rbind (ck_int64 (- incr)) (\<lambda>m. incrDecrCommand e s c1 m)))"

section \<open>APPEND\<close>

definition appendCommand :: "env \<Rightarrow> server \<Rightarrow> client \<Rightarrow> (server \<times> client) res" where
  "appendCommand e s c =
     rbind (arg_key c 1) (\<lambda>k.
     rbind (lookupKeyWrite e s k) (\<lambda>(v, s1).
     rbind (case v of
              None \<Rightarrow>
                rbind (encode_arg e s1 c 2) (\<lambda>(val, c1).
                rbind (dbAdd s1 k val) (\<lambda>s2.
                rbind (stringObjectLen val) (\<lambda>n. Inr (Some n, s2, c1))))
            | Some o' \<Rightarrow>
                rbind (checkType e c o' OBJ_STRING) (\<lambda>(bad, c1).
                if bad then Inr (None, s1, c1)
                else
                  rbind (arg_sds c1 2) (\<lambda>app.
                  rbind (stringObjectLen o') (\<lambda>olen.
                  rbind (checkStringLength e c1 (to_int64 (int olen + int (sdslen app)))) (\<lambda>(ok, c2).
                  if \<not> ok then Inr (None, s1, c2)
                  else
                    rbind (dbUnshareStringValue e s1 k o') (\<lambda>(o2, s2).
                    rbind (sds_of o2) (\<lambda>t.
                    rbind (sdscatlen (junk e) t (hdr_buf app) (sdslen app)) (\<lambda>t1.
                    rbind (write_object s2 k (o2\<lparr>optr := PSds t1\<rparr>)) (\<lambda>s3. Inr (Some (sdslen t1), s3, c2)))))))))) (\<lambda>(n, s2, c1).
     case n of
       None \<Rightarrow> Inr (s2, c1)
     | Some totlen \<Rightarrow>
         let s3 = dirtied (notifyKeyspaceEvent ''append'' (signalModifiedKey s2 k) k) in
         rbind (addReplyLongLong e c1 (int totlen)) (\<lambda>c2. Inr (s3, c2)))))"

end
