(* ===== verification/TStringOk.thy ===== *)
theory TStringOk
  imports TString
begin

text \<open>
  The string commands of \<open>src/t_string.c\<close> against the keyspace a client sees: each command commits no fault, keeps
  the invariant of the keyspace, changes the view of the keys exactly as its specification says and
  queues exactly its reply.
\<close>

section \<open>What commands see and answer\<close>

text \<open>
  The view of the keyspace by values: the text of a string whatever its encoding, any other object as it is.
\<close>

datatype aval = AStr string | AObj robj

definition aval :: "robj \<Rightarrow> aval" where
  "aval v = (if otype v = OBJ_STRING then AStr (obj_text v) else AObj (no_lru v))"

definition tview :: "server \<Rightarrow> string \<rightharpoonup> aval \<times> int option" where
  "tview s k = map_option (\<lambda>(v, x). (aval v, x)) (view s k)"

lemma aval_no_lru [simp]: "aval (no_lru v) = aval v"
  by (simp add: aval_def no_lru_def obj_text_def)

lemma tview_cong: "view s' = view s \<Longrightarrow> tview s' = tview s"
  by (simp add: tview_def fun_eq_iff)

lemma tview_upd: "view s' = (view s)(k \<mapsto> (no_lru v, x)) \<Longrightarrow> tview s' = (tview s)(k \<mapsto> (aval v, x))"
  by (auto simp: tview_def fun_eq_iff)

text \<open>The arguments of a client by their texts; arguments are always strings with a buffer.\<close>

definition args_are :: "client \<Rightarrow> string list \<Rightarrow> bool" where
  "args_are c ts \<longleftrightarrow> list_all (\<lambda>v. str_obj v \<and> sdsEncodedObject v) (argv c) \<and> map obj_text (argv c) = ts"

text \<open>A client after a command: \<open>t\<close> is queued; the command may have put other strings in its arguments.\<close>

definition answers :: "env \<Rightarrow> string \<Rightarrow> client \<Rightarrow> client \<Rightarrow> bool" where
  "answers e t c c' \<longleftrightarrow> (\<exists>a. list_all str_obj a \<and> appends e 4 t (c\<lparr>argv := a\<rparr>) c')"

definition ready :: "env \<Rightarrow> client \<Rightarrow> bool" where
  "ready e c \<longleftrightarrow> out_ok e c \<and> env_ok e \<and> has_room 4 c"

text \<open>
  The outcome of a command: no fault, the invariant, the new view, the reply, how often the data set was
  changed, and how many keys may be new.
\<close>

definition performs ::
  "env \<Rightarrow> server \<Rightarrow> client \<Rightarrow> (server \<times> client) res \<Rightarrow> (string \<rightharpoonup> aval \<times> int option) \<Rightarrow> string \<Rightarrow> int \<Rightarrow> nat \<Rightarrow> bool" where
  "performs e s c r m t d n \<longleftrightarrow> (\<exists>s' c'. r = Inr (s', c') \<and> db_ok s' \<and> cfg s' = cfg s \<and> tview s' = m \<and>
     dirty s' = dirty s + d \<and> answers e t c c' \<and> (\<forall>k. room_for (n + k) s \<longrightarrow> room_for k s'))"

lemma argv_simps [simp]:
  "out_ok e (c\<lparr>argv := a\<rparr>) = out_ok e c" "has_room n (c\<lparr>argv := a\<rparr>) = has_room n c"
  "takes_replies (c\<lparr>argv := a\<rparr>) = takes_replies c" "out_bytes (c\<lparr>argv := a\<rparr>) = out_bytes c"
  by (simp_all add: out_ok_def sent_ok_def has_room_def takes_replies_def out_bytes_def)

lemma ready_argv [simp]: "ready e (c\<lparr>argv := a\<rparr>) = ready e c"
  by (simp add: ready_def)

lemma appends_le: "appends e k t c c' \<Longrightarrow> k \<le> l \<Longrightarrow> appends e l t c c'"
proof -
  assume a: "appends e k t c c'" "k \<le> l"
  then have "k * 2 ^ 48 \<le> l * 2 ^ 48" by simp
  then show ?thesis using a(1) unfolding appends_def by linarith
qed

lemma appends_argv: "appends e k t c c' \<Longrightarrow> argv c' = argv c"
  using keeps_fields(3) by (auto simp: appends_def)

lemma core_argv: "core (c\<lparr>argv := a\<rparr>) = (core c)\<lparr>argv := a\<rparr>"
  by (simp add: core_def)

lemma appends_set_argv: "appends e k t c c' \<Longrightarrow> appends e k t (c\<lparr>argv := a\<rparr>) (c'\<lparr>argv := a\<rparr>)"
  by (simp add: appends_def keeps_def core_argv)

lemma answersI: "appends e 4 t c c' \<Longrightarrow> list_all str_obj (argv c) \<Longrightarrow> answers e t c c'"
  unfolding answers_def by (rule exI [of _ "argv c"]) simp

lemma answers_argv: "answers e t (c\<lparr>argv := a\<rparr>) c' = answers e t c c'"
  by (simp add: answers_def)

lemma args_strs: "args_are c ts \<Longrightarrow> list_all str_obj (argv c)"
  by (simp add: args_are_def list_all_iff)

lemma arg_ok:
  assumes "args_are c ts" "j < length ts"
  shows "\<exists>v t. arg c j = Inr v \<and> v = argv c ! j \<and> str_obj v \<and> obj_text v = ts ! j \<and> optr v = PSds t \<and> sds_ok t \<and>
    sdsval t = ts ! j \<and> arg_sds c j = Inr t"
proof -
  have l: "j < length (argv c)" using assms by (auto simp: args_are_def)
  then have v: "str_obj (argv c ! j)" "sdsEncodedObject (argv c ! j)" "obj_text (argv c ! j) = ts ! j"
    using assms by (auto simp: args_are_def list_all_length)
  from v(1) obtain t where "optr (argv c ! j) = PSds t" "sds_ok t" "sdsval t = ts ! j"
    using v(2,3) by (cases rule: str_obj_cases) auto
  then show ?thesis using l v by (simp add: arg_def arg_sds_def sds_of_def)
qed

lemma arg_key_ok:
  assumes "args_are c ts" "j < length ts"
  shows "arg_key c j = Inr (ts ! j)"
proof -
  obtain t where t: "arg_sds c j = Inr t" "sds_ok t" "sdsval t = ts ! j" using arg_ok [OF assms] by blast
  then show ?thesis using take_bufI [OF t(2)] sdslen_le_buf [OF t(2)] by (simp add: arg_key_def rd_bytes_def)
qed

lemma encode_arg_ok:
  assumes "args_are c ts" "j < length ts"
  shows "\<exists>v. encode_arg e s c j = Inr (v, set_arg c j v) \<and> str_obj v \<and> obj_text v = ts ! j"
proof -
  obtain w where w: "arg c j = Inr w" "str_obj w" "obj_text w = ts ! j" using arg_ok [OF assms] by blast
  then show ?thesis
    using tryObjectEncoding_text [OF w(2), of "junk e" "lruclock e" "maxmemory s" "maxmemory_policy s"]
    by (auto simp: encode_arg_def)
qed

lemma arg_key_set_arg: "i \<noteq> j \<Longrightarrow> arg_key (set_arg c j v) i = arg_key c i"
  by (simp add: arg_key_def arg_sds_def arg_def set_arg_def)

lemma arg_set_arg: "i \<noteq> j \<Longrightarrow> arg (set_arg c j v) i = arg c i"
  by (simp add: arg_def set_arg_def)

lemma set_arg_strs: "args_are c ts \<Longrightarrow> str_obj v \<Longrightarrow> list_all str_obj (argv (set_arg c j v))"
  using set_update_subset_insert [of "argv c" j v] by (auto simp: set_arg_def args_are_def list_all_iff)

lemma ready_set_arg [simp]: "ready e (set_arg c j v) = ready e c"
  by (simp add: set_arg_def)

lemma answers_set_arg: "answers e t (set_arg c j v) c' = answers e t c c'"
  by (simp add: set_arg_def answers_argv)

subsection \<open>Replies\<close>

named_theorems replies \<open>what the reply functions queue\<close>

definition reply_text :: "string \<Rightarrow> bool" where
  "reply_text t \<longleftrightarrow> is_cstring t \<and> length t < 2 ^ 64"

lemma reply_text_shared [simp]:
  "reply_text shared_ok" "reply_text shared_nullbulk" "reply_text shared_emptybulk" "reply_text shared_czero"
  "reply_text shared_cone" "reply_text shared_syntaxerr" "reply_text shared_wrongtypeerr" "reply_text shared_nokeyerr"
  "reply_text shared_colon" "reply_text crlf"
  by (simp_all add: reply_text_def shared_ok_def shared_nullbulk_def shared_emptybulk_def shared_czero_def shared_cone_def
      shared_syntaxerr_def shared_wrongtypeerr_def shared_nokeyerr_def shared_colon_def crlf_def)

lemma reply_shared [replies]:
  assumes "ready e c" "reply_text t"
  shows "\<exists>c'. addReplyShared e c t = Inr c' \<and> appends e 4 t c c'"
  using addReplyShared_ok [of e c t] assms has_room_le [of 4 c 1] appends_le [of e 1 t c _ 4]
  by (auto simp: ready_def reply_text_def)

lemma reply_bulk [replies]:
  assumes "ready e c" "str_obj v" "optr v \<noteq> PInt (- (2 ^ 63))" "length (obj_text v) < 2 ^ 63"
  shows "\<exists>c'. addReplyBulk e c v = Inr c' \<and> appends e 4 (bulk_text (obj_text v)) c c'"
  using addReplyBulk_ok [of e c v] assms has_room_le [of 4 c 3] appends_le [of e 3 _ c _ 4] by (auto simp: ready_def)

lemma reply_ll [replies]:
  assumes "ready e c" "in_int64 n"
  shows "\<exists>c'. addReplyLongLong e c n = Inr c' \<and> appends e 4 (CHR '':'' # deci n @ crlf) c c'"
  using addReplyLongLong_ok [of e c n] assms has_room_le [of 4 c 1] appends_le [of e 1 _ c _ 4] by (auto simp: ready_def)

definition err_text :: "string \<Rightarrow> string" where
  "err_text m = ''-ERR '' @ m @ crlf"

lemma reply_error [replies]:
  assumes "ready e c" "length m < 2 ^ 64"
  shows "\<exists>c'. addReplyError e c m = Inr c' \<and> appends e 4 (err_text m) c c'"
  using addReplyError_ok [of e c m] assms has_room_le [of 4 c 3] appends_le [of e 3 _ c _ 4]
  by (auto simp: ready_def err_text_def)

subsection \<open>Lookups\<close>

lemma lookupW:
  assumes "db_ok s"
  obtains v s1 where "lookupKeyWrite e s k = Inr (v, s1)" "db_ok s1" "cfg s1 = cfg s" "dirty s1 = dirty s" "view s1 = view s"
    "kmap s1 k = v" "\<not> gone s1 k" "tview s k = map_option (\<lambda>o'. (aval o', kexp s1 k)) v" "\<And>o'. v = Some o' \<Longrightarrow> typed_obj o'"
    "\<And>n. room_for n s \<Longrightarrow> room_for n s1" "v = None \<Longrightarrow> kexp s1 k = None"
proof -
  obtain v s1 where s1: "lookupKeyWrite e s k = Inr (v, s1)" "kmap s1 k = v" "map_option no_lru v = map_option fst (view s k)"
    "v \<noteq> None \<longrightarrow> view s k = Some (no_lru (the v), kexp s1 k)" "v = None \<longrightarrow> kexp s1 k = None" "\<not> gone s1 k"
    "view s1 = view s" "quiet s s1 (expiry_notices s k)" "dom (kmap s1) \<subseteq> dom (kmap s)"
    using lookupKeyWrite_ok [OF assms, of e k] by metis
  note q = quietD [OF s1(8)]
  show thesis
  proof (rule that [OF s1(1) q(1,2,4) s1(7,2,6)])
    show "tview s k = map_option (\<lambda>o'. (aval o', kexp s1 k)) v"
      using s1(3,4) map_option_none [OF s1(3)] by (cases v) (auto simp: tview_def)
    show "typed_obj o'" if "v = Some o'" for o' using db_okD(4) [OF q(1), of k] s1(2) that by simp
    show "room_for n s1" if "room_for n s" for n using room_mono [OF assms q(1) s1(9) that] .
    show "kexp s1 k = None" if "v = None" using s1(5) that by simp
  qed
qed

lemma rview_master: "\<not> is_slave s \<Longrightarrow> rview s = view s"
  by (auto simp: rview_def view_def gone_def fun_eq_iff)

lemma lookupR:
  assumes "db_ok s" "\<not> is_slave s"
  obtains v s1 where "lookupKeyReadWithFlags e s k nt = Inr (v, s1)" "db_ok s1" "cfg s1 = cfg s" "dirty s1 = dirty s"
    "view s1 = view s" "map_option fst (tview s k) = map_option aval v" "\<And>o'. v = Some o' \<Longrightarrow> typed_obj o'"
    "\<And>n. room_for n s \<Longrightarrow> room_for n s1"
proof -
  obtain v s1 where s1: "lookupKeyReadWithFlags e s k nt = Inr (v, s1)" "map_option no_lru v = map_option fst (rview s k)"
    "v \<noteq> None \<longrightarrow> kmap s1 k = v \<and> rview s k = Some (no_lru (the v), kexp s1 k)" "view s1 = view s"
    "quiet s s1 (expiry_notices s k)" "dom (kmap s1) \<subseteq> dom (kmap s)"
    using lookupKeyReadWithFlags_ok [OF assms(1), of e k nt] by metis
  note q = quietD [OF s1(5)]
  show thesis
  proof (rule that [OF s1(1) q(1,2,4) s1(4)])
    show "map_option fst (tview s k) = map_option aval v"
      using s1(2,3) map_option_none [OF s1(2)] by (cases v) (auto simp: tview_def rview_master [OF assms(2)])
    show "typed_obj o'" if "v = Some o'" for o' using db_okD(4) [OF q(1), of k] s1(3) that by simp
    show "room_for n s1" if "room_for n s" for n using room_mono [OF assms(1) q(1) s1(6) that] .
  qed
qed

lemma performsI:
  assumes "r = Inr (s', c')" "db_ok s'" "cfg s' = cfg s" "tview s' = m" "dirty s' = dirty s + d" "answers e t c c'"
    "\<And>k. room_for (n + k) s \<Longrightarrow> room_for k s'"
  shows "performs e s c r m t d n"
  using assms by (auto simp: performs_def)

lemma room_less: "room_for (n + k) s \<Longrightarrow> room_for k s"
  by (simp add: room_for_def)

text \<open>The keyspace functions behind the commands, with their effect on the view.\<close>

lemma room_insert:
  assumes "db_ok s" "db_ok s'" "dom (kmap s') \<subseteq> insert k (dom (kmap s))" "room_for (1 + n) s"
  shows "room_for n s'"
proof -
  have f: "finite (dom (kmap s))" by (simp add: dict_map_def finite_dom_map_of)
  then have "card (dom (kmap s')) \<le> card (insert k (dom (kmap s)))" using assms(3) by (intro card_mono) auto
  also have "\<dots> \<le> Suc (card (dom (kmap s)))" by (simp add: f card_insert_if)
  finally show ?thesis
    using assms dictSize_card [OF db_okD(1) [OF assms(1)]] dictSize_card [OF db_okD(1) [OF assms(2)]] by (simp add: room_for_def)
qed

lemma setKeyV:
  assumes "db_ok s" "str_obj v" "room_for 1 s"
  obtains s1 where "setKey e s k v = Inr s1" "db_ok s1" "cfg s1 = cfg s" "dirty s1 = dirty s"
    "tview s1 = (tview s)(k \<mapsto> (AStr (obj_text v), None))" "kmap s1 k = Some v" "kexp s1 k = None"
    "\<And>n. room_for (1 + n) s \<Longrightarrow> room_for n s1"
proof -
  obtain s1 where s1: "setKey e s k v = Inr s1" "view s1 = (view s)(k \<mapsto> (no_lru v, None))" "kmap s1 k = Some v" "kexp s1 k = None"
    "dom (kmap s1) \<subseteq> insert k (dom (kmap s))"
    "quiet s s1 (expiry_notices s k @ (if view s k = None then add_notices s k v else []) @ [TouchWatched (db_id (db s)) k])"
    using setKey_ok [OF assms(1) typed_str [OF assms(2)] assms(3)] by blast
  note q = quietD [OF s1(6)]
  have "aval v = AStr (obj_text v)" using assms(2) by (simp add: aval_def str_obj_def)
  with tview_upd [OF s1(2)] have "tview s1 = (tview s)(k \<mapsto> (AStr (obj_text v), None))" by simp
  then show thesis using that [OF s1(1) q(1,2,4) _ s1(3,4)] room_insert [OF assms(1) q(1) s1(5)] by blast
qed

lemma noted_view [simp]:
  "tview (noted n s) = tview s" "tview (dirtied s) = tview s" "view (noted n s) = view s" "view (dirtied s) = view s"
  "room_for j (noted n s) = room_for j s" "room_for j (dirtied s) = room_for j s"
proof -
  have "gone (noted n s) k = gone s k" "gone (dirtied s) k = gone s k" for k
    by (rule gone_cong(2); simp)+
  then have "view (noted n s) = view s" "view (dirtied s) = view s" by (simp_all add: view_def fun_eq_iff)
  then show "tview (noted n s) = tview s" "tview (dirtied s) = tview s" "view (noted n s) = view s" "view (dirtied s) = view s"
    by (simp_all add: tview_def fun_eq_iff)
qed (simp_all add: room_for_def)

lemma notify_simps [simp]:
  "tview (notifyKeyspaceEvent ev s k) = tview s" "tview (signalModifiedKey s k) = tview s"
  "db_ok (notifyKeyspaceEvent ev s k) = db_ok s" "db_ok (signalModifiedKey s k) = db_ok s"
  "cfg (notifyKeyspaceEvent ev s k) = cfg s" "cfg (signalModifiedKey s k) = cfg s"
  "dirty (notifyKeyspaceEvent ev s k) = dirty s" "dirty (signalModifiedKey s k) = dirty s"
  "room_for j (notifyKeyspaceEvent ev s k) = room_for j s" "room_for j (signalModifiedKey s k) = room_for j s"
  by (simp_all add: notifyKeyspaceEvent_def signalModifiedKey_def)

section \<open>SET\<close>

lemma set_abortsV:
  assumes "db_ok s"
  obtains s1 where "set_aborts e s k fl = Inr (OBJ_SET_NX \<in> fl \<and> tview s k \<noteq> None \<or> OBJ_SET_XX \<in> fl \<and> tview s k = None, s1)"
    "db_ok s1" "cfg s1 = cfg s" "dirty s1 = dirty s" "view s1 = view s" "\<And>n. room_for n s \<Longrightarrow> room_for n s1"
proof -
  obtain v s1 where s1: "lookupKeyWrite e s k = Inr (v, s1)" "db_ok s1" "cfg s1 = cfg s" "dirty s1 = dirty s" "view s1 = view s"
    "tview s k = map_option (\<lambda>o'. (aval o', kexp s1 k)) v" "\<And>n. room_for n s \<Longrightarrow> room_for n s1"
    using lookupW [OF assms, of e k] by metis
  have v1: "(v = None) = (tview s k = None)" using s1(6) by simp
  let ?r = "OBJ_SET_NX \<in> fl \<and> tview s k \<noteq> None \<or> OBJ_SET_XX \<in> fl \<and> tview s k = None"
  consider (none) "OBJ_SET_NX \<notin> fl" "OBJ_SET_XX \<notin> fl"
    | (once) "OBJ_SET_NX \<in> fl \<and> (v \<noteq> None \<or> OBJ_SET_XX \<notin> fl) \<or> OBJ_SET_NX \<notin> fl \<and> OBJ_SET_XX \<in> fl"
    | (twice) "OBJ_SET_NX \<in> fl" "v = None" "OBJ_SET_XX \<in> fl" by blast
  then show thesis
  proof cases
    case none
    then have "set_aborts e s k fl = Inr (?r, s)" by (simp add: set_aborts_def)
    from that [OF this assms refl refl refl] show thesis .
  next
    case once
    then have "set_aborts e s k fl = Inr (OBJ_SET_NX \<in> fl \<and> v \<noteq> None \<or> OBJ_SET_XX \<in> fl \<and> v = None, s1)"
      unfolding set_aborts_def by (elim disjE conjE) (simp_all add: s1(1))
    then have "set_aborts e s k fl = Inr (?r, s1)" unfolding v1 .
    from that [OF this s1(2-5)] show thesis using s1(7) by blast
  next
    case twice
    obtain v2 s2 where s2: "lookupKeyWrite e s1 k = Inr (v2, s2)" "db_ok s2" "cfg s2 = cfg s1" "dirty s2 = dirty s1" "view s2 = view s1"
      "tview s1 k = map_option (\<lambda>o'. (aval o', kexp s2 k)) v2" "\<And>n. room_for n s1 \<Longrightarrow> room_for n s2"
      using lookupW [OF s1(2), of e k] by metis
    have "v2 = None" using s2(6) twice(2) v1 tview_cong [OF s1(5)] by simp
    then have "set_aborts e s k fl = Inr (OBJ_SET_NX \<in> fl \<and> v \<noteq> None \<or> OBJ_SET_XX \<in> fl \<and> v = None, s2)"
      unfolding set_aborts_def s1(1) using twice s2(1) by simp
    then have "set_aborts e s k fl = Inr (?r, s2)" unfolding v1 .
    from that [OF this s2(2)] show thesis using s1(3-5,7) s2(3-5,7) by simp
  qed
qed

text \<open>The reply and the effect of the general form, once its expire time is known.\<close>

definition set_stops :: "set_flag set \<Rightarrow> 'v option \<Rightarrow> bool" where
  "set_stops fl old \<longleftrightarrow> OBJ_SET_NX \<in> fl \<and> old \<noteq> None \<or> OBJ_SET_XX \<in> fl \<and> old = None"

lemma setGeneric_ok:
  assumes "db_ok s" "room_for 1 s" "ready e c" "list_all str_obj (argv c)" "str_obj val"
    and ms: "set_expire_ms e c nm expire unit = Inr (Some ms, c)" "expire \<noteq> None \<Longrightarrow> 0 < ms \<and> in_int64 (mstime s + ms)"
    and now: "now_of s \<le> mstime s"
    and rep: "reply_text (case okr of None \<Rightarrow> shared_ok | Some t \<Rightarrow> t)"
      "reply_text (case abr of None \<Rightarrow> shared_nullbulk | Some t \<Rightarrow> t)"
  shows "performs e s c (setGenericCommand e s c nm fl k val expire unit okr abr)
    (if set_stops fl (tview s k) then tview s
     else (tview s)(k \<mapsto> (AStr (obj_text val), if expire = None then None else Some (mstime s + ms))))
    (if set_stops fl (tview s k) then case abr of None \<Rightarrow> shared_nullbulk | Some t \<Rightarrow> t
     else case okr of None \<Rightarrow> shared_ok | Some t \<Rightarrow> t)
    (if set_stops fl (tview s k) then 0 else 1) 1"
proof -
  obtain s1 where s1: "set_aborts e s k fl = Inr (set_stops fl (tview s k), s1)"
    "db_ok s1" "cfg s1 = cfg s" "dirty s1 = dirty s" "view s1 = view s" "\<And>n. room_for n s \<Longrightarrow> room_for n s1"
    using set_abortsV [OF assms(1)] unfolding set_stops_def by metis
  note tv = tview_cong [OF s1(5)]
  show ?thesis
  proof (cases "set_stops fl (tview s k)")
    case True
    obtain c1 where c1: "addReplyShared e c (case abr of None \<Rightarrow> shared_nullbulk | Some t \<Rightarrow> t) = Inr c1"
      "appends e 4 (case abr of None \<Rightarrow> shared_nullbulk | Some t \<Rightarrow> t) c c1"
      using reply_shared [OF assms(3) rep(2)] by blast
    have "setGenericCommand e s c nm fl k val expire unit okr abr = Inr (s1, c1)"
      using ms(1) s1(1) c1(1) True by (simp add: setGenericCommand_def)
    then show ?thesis
      by (rule performsI [OF _ s1(2,3)]) (use True s1(4,6) tv answersI [OF c1(2) assms(4)] room_less [of 1] in simp_all)
  next
    case False
    obtain s2 where s2: "setKey e s1 k val = Inr s2" "db_ok s2" "cfg s2 = cfg s1" "dirty s2 = dirty s1"
      "tview s2 = (tview s1)(k \<mapsto> (AStr (obj_text val), None))" "kmap s2 k = Some val" "kexp s2 k = None"
      "\<And>n. room_for (1 + n) s1 \<Longrightarrow> room_for n s2"
      using setKeyV [OF s1(2) assms(5) s1(6) [OF assms(2)]] by metis
    let ?s3 = "dirtied s2"
    have m3: "mstime ?s3 = mstime s" using cfg_fields(3) [of ?s3 s] s2(3) s1(3) by simp
    obtain s4 where s4: "(if expire \<noteq> None then rbind (ck_int64 (mstime ?s3 + ms)) (\<lambda>w. setExpire ?s3 k w) else Inr ?s3) = Inr s4"
      "db_ok s4" "cfg s4 = cfg s" "dirty s4 = dirty s + 1" "\<And>n. room_for n s2 \<Longrightarrow> room_for n s4"
      "tview s4 = (tview s)(k \<mapsto> (AStr (obj_text val), if expire = None then None else Some (mstime s + ms)))"
    proof (cases expire)
      case None
      then show ?thesis using s2 s1 tv by (intro that [of ?s3]) simp_all
    next
      case (Some x)
      have i: "0 < ms" "in_int64 (mstime s + ms)" using ms(2) Some by simp_all
      have ok3: "db_ok ?s3" using s2(2) by simp
      moreover have "kmap ?s3 k \<noteq> None" using s2(6) by simp
      moreover have "room_for 0 ?s3" using s2(8) [of 0] s1(6) assms(2) by simp
      ultimately obtain s4 where s4: "setExpire ?s3 k (mstime s + ms) = Inr s4"
        "leaves ?s3 s4 (kmap ?s3) ((kexp ?s3)(k \<mapsto> mstime s + ms)) []" using setExpire_ok [OF _ _ i(2)] by blast
      note l = leavesD [OF s4(2)]
      have g: "\<not> gone s4 k"
      proof -
        have "now_of s4 = now_of s" using cfg_fields [of s4 s] l(2) s2(3) s1(3) by (simp add: now_of_def split: option.splits)
        then show ?thesis using now i l(4) by (auto simp: gone_def expired_def)
      qed
      have "leaves ?s3 s4 ((kmap ?s3)(k \<mapsto> val)) ((kexp ?s3)(k \<mapsto> mstime s + ms)) []"
        using s4(2) s2(6) by (simp add: map_upd_triv)
      from view_upd [OF this _ g] have "view s4 = (view ?s3)(k \<mapsto> (no_lru val, Some (mstime s + ms)))" by simp
      from tview_upd [OF this] have "tview s4 = (tview ?s3)(k \<mapsto> (aval val, Some (mstime s + ms)))" .
      moreover have "aval val = AStr (obj_text val)" using assms(5) by (simp add: aval_def str_obj_def)
      ultimately have "tview s4 = (tview s)(k \<mapsto> (AStr (obj_text val), Some (mstime s + ms)))" using s2(5) tv by simp
      moreover have "room_for n s4" if "room_for n s2" for n
        using room_mono [OF ok3 l(1), of n] l(3) that by simp
      moreover have "setExpire ?s3 k (mstime ?s3 + ms) = Inr s4" using s4(1) m3 by simp
      ultimately show ?thesis using l i s2 s1 Some m3 by (intro that [of s4]) (simp_all add: ck_int64_id)
    qed
    obtain c1 where c1: "addReplyShared e c (case okr of None \<Rightarrow> shared_ok | Some t \<Rightarrow> t) = Inr c1"
      "appends e 4 (case okr of None \<Rightarrow> shared_ok | Some t \<Rightarrow> t) c c1"
      using reply_shared [OF assms(3) rep(1)] by blast
    let ?s6 = "if expire \<noteq> None then notifyKeyspaceEvent ''expire'' (notifyKeyspaceEvent ''set'' s4 k) k else notifyKeyspaceEvent ''set'' s4 k"
    have "setGenericCommand e s c nm fl k val expire unit okr abr = Inr (?s6, c1)"
      using ms(1) s1(1) s2(1) s4(1) c1(1) False unfolding setGenericCommand_def Let_def by simp
    moreover have "room_for n ?s6" if "room_for (1 + n) s" for n using s4(5) s2(8) s1(6) [OF that] by simp
    ultimately show ?thesis
      by (intro performsI [where s' = ?s6]) (use False s4 answersI [OF c1(2) assms(4)] in simp_all)
  qed
qed

lemma args_len: "args_are c ts \<Longrightarrow> length (argv c) = length ts"
  by (auto simp: args_are_def)

lemma performs_set_arg: "performs e s (set_arg c j v) r m t d n = performs e s c r m t d n"
  by (simp add: performs_def answers_set_arg)

lemma performs_argv: "performs e s (c\<lparr>argv := a\<rparr>) r m t d n = performs e s c r m t d n"
  by (simp add: performs_def answers_argv)

lemma setCommand_ok:
  assumes "args_are c [nm, k, v]" "db_ok s" "room_for 1 s" "ready e c" "now_of s \<le> mstime s"
  shows "performs e s c (setCommand e s c cmd) ((tview s)(k \<mapsto> (AStr v, None))) shared_ok 1 1"
proof -
  obtain w where w: "encode_arg e s c 2 = Inr (w, set_arg c 2 w)" "str_obj w" "obj_text w = v"
    using encode_arg_ok [OF assms(1), of 2] by auto
  have k: "arg_key (set_arg c 2 w) 1 = Inr k" using arg_key_ok [OF assms(1), of 1] by (simp add: arg_key_set_arg)
  have "setCommand e s c cmd = setGenericCommand e s (set_arg c 2 w) cmd {} k w None UNIT_SECONDS None None"
    using args_len [OF assms(1)] w(1) k by (simp add: setCommand_def)
  moreover have "performs e s (set_arg c 2 w) (setGenericCommand e s (set_arg c 2 w) cmd {} k w None UNIT_SECONDS None None)
    (if set_stops {} (tview s k) then tview s
     else (tview s)(k \<mapsto> (AStr (obj_text w), if (None :: robj option) = None then None else Some (mstime s + 0))))
    (if set_stops {} (tview s k) then case None of None \<Rightarrow> shared_nullbulk | Some t \<Rightarrow> t
     else case None of None \<Rightarrow> shared_ok | Some t \<Rightarrow> t) (if set_stops {} (tview s k) then 0 else 1) 1"
    by (rule setGeneric_ok [OF assms(2,3)])
      (use assms(4,5) w set_arg_strs [OF assms(1)] in \<open>simp_all add: set_expire_ms_def\<close>)
  ultimately show ?thesis by (simp add: performs_set_arg set_stops_def w(3))
qed

lemma setnxCommand_ok:
  assumes "args_are c [nm, k, v]" "db_ok s" "room_for 1 s" "ready e c" "now_of s \<le> mstime s"
  shows "performs e s c (setnxCommand e s c cmd)
    (if tview s k = None then (tview s)(k \<mapsto> (AStr v, None)) else tview s)
    (if tview s k = None then shared_cone else shared_czero) (if tview s k = None then 1 else 0) 1"
proof -
  obtain w where w: "encode_arg e s c 2 = Inr (w, set_arg c 2 w)" "str_obj w" "obj_text w = v"
    using encode_arg_ok [OF assms(1), of 2] by auto
  have k: "arg_key (set_arg c 2 w) 1 = Inr k" using arg_key_ok [OF assms(1), of 1] by (simp add: arg_key_set_arg)
  let ?cmd = "setGenericCommand e s (set_arg c 2 w) cmd {OBJ_SET_NX} k w None UNIT_SECONDS (Some shared_cone) (Some shared_czero)"
  have "setnxCommand e s c cmd = ?cmd" using w(1) k by (simp add: setnxCommand_def)
  moreover have "performs e s (set_arg c 2 w) ?cmd
    (if set_stops {OBJ_SET_NX} (tview s k) then tview s
     else (tview s)(k \<mapsto> (AStr (obj_text w), if (None :: robj option) = None then None else Some (mstime s + 0))))
    (if set_stops {OBJ_SET_NX} (tview s k) then case Some shared_czero of None \<Rightarrow> shared_nullbulk | Some t \<Rightarrow> t
     else case Some shared_cone of None \<Rightarrow> shared_ok | Some t \<Rightarrow> t) (if set_stops {OBJ_SET_NX} (tview s k) then 0 else 1) 1"
    by (rule setGeneric_ok [OF assms(2,3)])
      (use assms(4,5) w set_arg_strs [OF assms(1)] in \<open>simp_all add: set_expire_ms_def\<close>)
  ultimately show ?thesis by (auto simp: performs_set_arg set_stops_def w(3))
qed

lemma setexCommand_ok:
  assumes "args_are c [nm, k, x, v]" "db_ok s" "room_for 1 s" "ready e c" "now_of s \<le> mstime s"
    and "string2ll x = Some n" "0 < n" "in_int64 (n * 1000)" "in_int64 (mstime s + n * 1000)"
  shows "performs e s c (setexCommand e s c cmd) ((tview s)(k \<mapsto> (AStr v, Some (mstime s + n * 1000)))) shared_ok 1 1"
proof -
  obtain w where w: "encode_arg e s c 3 = Inr (w, set_arg c 3 w)" "str_obj w" "obj_text w = v"
    using encode_arg_ok [OF assms(1), of 3] by auto
  have k: "arg_key (set_arg c 3 w) 1 = Inr k" using arg_key_ok [OF assms(1), of 1] by (simp add: arg_key_set_arg)
  obtain a where a: "arg c 2 = Inr a" "str_obj a" "obj_text a = x" using arg_ok [OF assms(1), of 2] by auto
  let ?cmd = "setGenericCommand e s (set_arg c 3 w) cmd {} k w (Some a) UNIT_SECONDS None None"
  have "setexCommand e s c cmd = ?cmd" using w(1) k a(1) by (simp add: setexCommand_def arg_set_arg)
  moreover have "performs e s (set_arg c 3 w) ?cmd
    (if set_stops {} (tview s k) then tview s
     else (tview s)(k \<mapsto> (AStr (obj_text w), if Some a = None then None else Some (mstime s + n * 1000))))
    (if set_stops {} (tview s k) then case None of None \<Rightarrow> shared_nullbulk | Some t \<Rightarrow> t
     else case None of None \<Rightarrow> shared_ok | Some t \<Rightarrow> t) (if set_stops {} (tview s k) then 0 else 1) 1"
  proof (rule setGeneric_ok [OF assms(2,3)])
    show "set_expire_ms e (set_arg c 3 w) cmd (Some a) UNIT_SECONDS = Inr (Some (n * 1000), set_arg c 3 w)"
      using assms(6-8) getLongLongFromObject_text [OF a(2)] a(3)
      by (simp add: set_expire_ms_def getLongLongFromObjectOrReply_def ck_int64_id)
  qed (use assms(4,5,7,9) w set_arg_strs [OF assms(1)] in simp_all)
  ultimately show ?thesis by (simp add: performs_set_arg set_stops_def w(3))
qed

section \<open>GET\<close>

text \<open>
  A text the bulk reply functions can send. The text of \<open>LONG_MIN\<close> is left out: stored as an integer it
  makes \<open>addReplyBulkLen\<close> negate the smallest number.
\<close>

definition sendable :: "string \<Rightarrow> bool" where
  "sendable t \<longleftrightarrow> t \<noteq> deci (- (2 ^ 63)) \<and> length t < 2 ^ 63"

definition get_reply :: "(aval \<times> int option) option \<Rightarrow> string" where
  "get_reply x = (case x of None \<Rightarrow> shared_nullbulk | Some (AStr t, _) \<Rightarrow> bulk_text t | Some (AObj _, _) \<Rightarrow> shared_wrongtypeerr)"

lemma aval_cases:
  assumes "typed_obj v"
  obtains (str) "otype v = OBJ_STRING" "str_obj v" "aval v = AStr (obj_text v)"
  | (other) "otype v \<noteq> OBJ_STRING" "aval v = AObj (no_lru v)"
  using assms by (auto simp: aval_def typed_string)

definition sendable_at :: "server \<Rightarrow> string \<Rightarrow> bool" where
  "sendable_at s k \<longleftrightarrow> (\<forall>t x. tview s k = Some (AStr t, x) \<longrightarrow> sendable t)"

lemma getGeneric_ok:
  assumes "args_are c (nm # k # ts)" "db_ok s" "\<not> is_slave s" "ready e c" "sendable_at s k"
  shows "\<exists>s1 c1. getGenericCommand e s c = Inr ((case tview s k of Some (AObj _, _) \<Rightarrow> False | _ \<Rightarrow> True), s1, c1) \<and>
    db_ok s1 \<and> cfg s1 = cfg s \<and> dirty s1 = dirty s \<and> tview s1 = tview s \<and> (\<forall>n. room_for n s \<longrightarrow> room_for n s1) \<and>
    appends e 4 (get_reply (tview s k)) c c1"
proof -
  have k: "arg_key c 1 = Inr k" using arg_key_ok [OF assms(1), of 1] by simp
  obtain v s1 where s1: "lookupKeyReadWithFlags e s k False = Inr (v, s1)" "db_ok s1" "cfg s1 = cfg s" "dirty s1 = dirty s"
    "view s1 = view s" "map_option fst (tview s k) = map_option aval v" "\<And>o'. v = Some o' \<Longrightarrow> typed_obj o'"
    "\<And>n. room_for n s \<Longrightarrow> room_for n s1" using lookupR [OF assms(2,3), of e k False] by metis
  have fin: ?thesis if "getGenericCommand e s c = Inr ((case tview s k of Some (AObj _, _) \<Rightarrow> False | _ \<Rightarrow> True), s1, c1)"
      "appends e 4 (get_reply (tview s k)) c c1" for c1
    by (rule exI [of _ s1], rule exI [of _ c1]) (use that s1(2-4,8) tview_cong [OF s1(5)] in simp)
  show ?thesis
  proof (cases v)
    case None
    then have t: "tview s k = None" using s1(6) by simp
    obtain c1 where c1: "addReplyShared e c shared_nullbulk = Inr c1" "appends e 4 shared_nullbulk c c1"
      using reply_shared [OF assms(4)] reply_text_shared by blast
    show ?thesis
      by (rule fin) (use t k s1(1) c1 None in \<open>simp_all add: getGenericCommand_def lookupKeyReadOrReply_def lookupKeyRead_def get_reply_def\<close>)
  next
    case (Some o')
    then obtain x where t: "tview s k = Some (aval o', x)" using s1(6) by (cases "tview s k") auto
    from s1(7) [OF Some] show ?thesis
    proof (cases rule: aval_cases)
      case str
      then have sd: "sendable (obj_text o')" using assms(5) t by (simp add: sendable_at_def)
      then have "optr o' \<noteq> PInt (- (2 ^ 63))" "length (obj_text o') < 2 ^ 63" by (auto simp: sendable_def obj_text_def)
      then obtain c1 where c1: "addReplyBulk e c o' = Inr c1" "appends e 4 (bulk_text (obj_text o')) c c1"
        using reply_bulk [OF assms(4) str(2)] by blast
      show ?thesis
        by (rule fin) (use t k s1(1) c1 Some str in \<open>simp_all add: getGenericCommand_def lookupKeyReadOrReply_def lookupKeyRead_def get_reply_def\<close>)
    next
      case other
      obtain c1 where c1: "addReplyShared e c shared_wrongtypeerr = Inr c1" "appends e 4 shared_wrongtypeerr c c1"
        using reply_shared [OF assms(4)] reply_text_shared by blast
      show ?thesis
        by (rule fin) (use t k s1(1) c1 Some other in \<open>simp_all add: getGenericCommand_def lookupKeyReadOrReply_def lookupKeyRead_def get_reply_def\<close>)
    qed
  qed
qed

lemma getCommand_ok:
  assumes "args_are c [nm, k]" "db_ok s" "\<not> is_slave s" "ready e c" "sendable_at s k"
  shows "performs e s c (getCommand e s c) (tview s) (get_reply (tview s k)) 0 0"
proof -
  obtain s1 c1 where g: "getGenericCommand e s c = Inr ((case tview s k of Some (AObj _, _) \<Rightarrow> False | _ \<Rightarrow> True), s1, c1)"
    "db_ok s1" "cfg s1 = cfg s" "dirty s1 = dirty s" "tview s1 = tview s" "\<forall>n. room_for n s \<longrightarrow> room_for n s1"
    "appends e 4 (get_reply (tview s k)) c c1" using getGeneric_ok [OF assms] by blast
  show ?thesis
    by (rule performsI [OF _ g(2,3,5)]) (use g answersI [OF g(7) args_strs [OF assms(1)]] in \<open>simp_all add: getCommand_def\<close>)
qed

lemma getsetCommand_ok:
  assumes "args_are c [nm, k, v]" "db_ok s" "\<not> is_slave s" "room_for 1 s" "ready e c" "sendable_at s k"
  shows "performs e s c (getsetCommand e s c)
    (case tview s k of Some (AObj _, _) \<Rightarrow> tview s | _ \<Rightarrow> (tview s)(k \<mapsto> (AStr v, None))) (get_reply (tview s k))
    (case tview s k of Some (AObj _, _) \<Rightarrow> 0 | _ \<Rightarrow> 1) 1"
proof -
  obtain s1 c1 where g: "getGenericCommand e s c = Inr ((case tview s k of Some (AObj _, _) \<Rightarrow> False | _ \<Rightarrow> True), s1, c1)"
    "db_ok s1" "cfg s1 = cfg s" "dirty s1 = dirty s" "tview s1 = tview s" "\<forall>n. room_for n s \<longrightarrow> room_for n s1"
    "appends e 4 (get_reply (tview s k)) c c1" using getGeneric_ok [OF assms(1-3,5,6)] by blast
  have a: "args_are c1 [nm, k, v]"
    using assms(1) appends_argv [OF g(7)] by (simp add: args_are_def)
  show ?thesis
  proof (cases "\<exists>w x. tview s k = Some (AObj w, x)")
    case True
    then have "getsetCommand e s c = Inr (s1, c1)" using g(1) by (auto simp: getsetCommand_def)
    then show ?thesis
      by (rule performsI [OF _ g(2,3)])
        (use True g(4-6) answersI [OF g(7) args_strs [OF assms(1)]] room_less [of 1] in auto)
  next
    case False
    have b: "(case tview s k of Some (AObj _, _) \<Rightarrow> False | _ \<Rightarrow> True) = True"
      "(case tview s k of Some (AObj _, _) \<Rightarrow> tview s | _ \<Rightarrow> (tview s)(k \<mapsto> (AStr v, None))) = (tview s)(k \<mapsto> (AStr v, None))"
      "(case tview s k of Some (AObj _, _) \<Rightarrow> 0 | _ \<Rightarrow> 1) = (1 :: int)"
      using False by (auto split: option.splits prod.splits aval.splits)
    obtain w where w: "encode_arg e s1 c1 2 = Inr (w, set_arg c1 2 w)" "str_obj w" "obj_text w = v"
      using encode_arg_ok [OF a, of 2] by auto
    have k: "arg_key (set_arg c1 2 w) 1 = Inr k" using arg_key_ok [OF a, of 1] by (simp add: arg_key_set_arg)
    have "room_for 1 s1" using g(6) assms(4) by blast
    then obtain s2 where s2: "setKey e s1 k w = Inr s2" "db_ok s2" "cfg s2 = cfg s1" "dirty s2 = dirty s1"
      "tview s2 = (tview s1)(k \<mapsto> (AStr (obj_text w), None))" "\<And>n. room_for (1 + n) s1 \<Longrightarrow> room_for n s2"
      using setKeyV [OF g(2) w(2)] by metis
    let ?s3 = "dirtied (notifyKeyspaceEvent ''set'' s2 k)"
    have "getsetCommand e s c = Inr (?s3, set_arg c1 2 w)"
      using g(1) b(1) w(1) k s2(1) by (simp add: getsetCommand_def)
    moreover have "answers e (get_reply (tview s k)) c (set_arg c1 2 w)"
    proof -
      have "appends e 4 (get_reply (tview s k)) (c\<lparr>argv := argv (set_arg c1 2 w)\<rparr>) (set_arg c1 2 w)"
        using appends_set_argv [OF g(7)] by (simp add: set_arg_def)
      then show ?thesis using set_arg_strs [OF a w(2)] unfolding answers_def by blast
    qed
    ultimately show ?thesis unfolding b
      by (intro performsI [where s' = ?s3]) (use s2 g w(3) in simp_all)
  qed
qed

section \<open>Changing a string in place\<close>

lemma unshare_write:
  assumes "db_ok s1" "kmap s1 k = Some o'" "str_obj o'" "room_for 0 s1" "\<not> gone s1 k"
  shows "\<exists>o2 s2 t. dbUnshareStringValue e s1 k o' = Inr (o2, s2) \<and> sds_of o2 = Inr t \<and> sds_ok t \<and> sdsval t = obj_text o' \<and>
    (\<forall>t1. sds_ok t1 \<longrightarrow> (\<exists>s3. write_object s2 k (o2\<lparr>optr := PSds t1\<rparr>) = Inr s3 \<and> db_ok s3 \<and> cfg s3 = cfg s1 \<and>
      dirty s3 = dirty s1 \<and> tview s3 = (tview s1)(k \<mapsto> (AStr (sdsval t1), kexp s1 k)) \<and> (\<forall>n. room_for n s1 \<longrightarrow> room_for n s3)))"
proof -
  obtain r s2 where r: "dbUnshareStringValue e s1 k o' = Inr (r, s2)" "str_obj r" "obj_text r = obj_text o'"
    "oenc r = OBJ_ENCODING_RAW" "leaves s1 s2 ((kmap s1)(k \<mapsto> r)) (kexp s1) []"
    using dbUnshareStringValue_ok [OF assms(1-4)] by blast
  note l = leavesD [OF r(5)]
  from r(2) obtain t where t: "optr r = PSds t" "sds_ok t" "obj_text r = sdsval t" "sdsEncodedObject r" "0 < refcount r"
    using r(4) by (cases rule: str_obj_cases) auto
  have "\<exists>s3. write_object s2 k (r\<lparr>optr := PSds t1\<rparr>) = Inr s3 \<and> db_ok s3 \<and> cfg s3 = cfg s1 \<and>
      dirty s3 = dirty s1 \<and> tview s3 = (tview s1)(k \<mapsto> (AStr (sdsval t1), kexp s1 k)) \<and> (\<forall>n. room_for n s1 \<longrightarrow> room_for n s3)"
    if t1: "sds_ok t1" for t1
  proof -
    let ?w = "r\<lparr>optr := PSds t1\<rparr>"
    have w: "str_obj ?w" "obj_text ?w = sdsval t1" using r(2) t t1 by (simp_all add: str_obj_def obj_text_def sdsEncodedObject_def)
    have "kmap s2 k = Some r" using l by simp
    from write_object_ok [OF l(1) this typed_str [OF w(1)]] obtain s3 where
      s3: "write_object s2 k ?w = Inr s3" "leaves s2 s3 ((kmap s2)(k \<mapsto> ?w)) (kexp s2) []" by blast
    note m = leavesD [OF s3(2)]
    have all: "leaves s1 s3 ((kmap s1)(k \<mapsto> ?w)) (kexp s1) []" using leaves_trans [OF r(5) s3(2)] l by simp
    have g: "gone s3 k = gone s1 k" by (rule gone_cong(2)) (use leavesD [OF all] in simp_all)
    have "view s3 = (view s1)(k \<mapsto> (no_lru ?w, kexp s1 k))" by (rule view_upd [OF all]) (use g assms(5) in simp_all)
    from tview_upd [OF this] have "tview s3 = (tview s1)(k \<mapsto> (AStr (sdsval t1), kexp s1 k))"
      using w by (simp add: aval_def str_obj_def)
    moreover have "room_for n s3" if "room_for n s1" for n
      using room_mono [OF assms(1) m(1), of n] leavesD(3) [OF all] assms(2) that by auto
    ultimately show ?thesis using s3(1) leavesD [OF all] by auto
  qed
  then show ?thesis using r t by (auto simp: sds_of_def)
qed

lemma add_new:
  assumes "db_ok s1" "kmap s1 k = None" "str_obj v" "room_for 1 s1" "kexp s1 k = None"
  shows "\<exists>s2. dbAdd s1 k v = Inr s2 \<and> db_ok s2 \<and> cfg s2 = cfg s1 \<and> dirty s2 = dirty s1 \<and> kmap s2 k = Some v \<and> \<not> gone s2 k \<and>
    kexp s2 k = None \<and> tview s2 = (tview s1)(k \<mapsto> (AStr (obj_text v), None)) \<and> (\<forall>n. room_for (1 + n) s1 \<longrightarrow> room_for n s2)"
proof -
  obtain s2 where s2: "dbAdd s1 k v = Inr s2" "leaves s1 s2 ((kmap s1)(k \<mapsto> v)) (kexp s1) (add_notices s1 k v)"
    using dbAdd_ok [OF assms(1,2) typed_str [OF assms(3)] assms(4)] by blast
  note l = leavesD [OF s2(2)]
  have g: "\<not> gone s2 k" using l(4) assms(5) by simp
  have "view s2 = (view s1)(k \<mapsto> (no_lru v, kexp s1 k))" by (rule view_upd [OF s2(2)]) (use g in simp_all)
  from tview_upd [OF this] have "tview s2 = (tview s1)(k \<mapsto> (AStr (obj_text v), None))"
    using assms(3,5) by (simp add: aval_def str_obj_def)
  moreover have "room_for n s2" if "room_for (1 + n) s1" for n
    using room_insert [OF assms(1) l(1) _ that, of k] l(3) by auto
  ultimately show ?thesis using s2(1) l assms(5) g by auto
qed

definition short :: "string \<Rightarrow> bool" where
  "short t \<longleftrightarrow> length t \<le> 512 * 1024 * 1024"

definition short_at :: "server \<Rightarrow> string \<Rightarrow> bool" where
  "short_at s k \<longleftrightarrow> (\<forall>t x. tview s k = Some (AStr t, x) \<longrightarrow> short t)"

definition int_reply :: "int \<Rightarrow> string" where
  "int_reply n = CHR '':'' # deci n @ crlf"

lemma reply_int:
  assumes "ready e c" "in_int64 n"
  shows "\<exists>c'. addReplyLongLong e c n = Inr c' \<and> appends e 4 (int_reply n) c c'"
  using reply_ll [OF assms] by (simp add: int_reply_def)

lemma to_int64_id: "in_int64 n \<Longrightarrow> to_int64 n = n"
  by (simp add: to_int64_def in_int64_def)

lemma in_int64_small: "0 \<le> n \<Longrightarrow> n \<le> 2 ^ 32 \<Longrightarrow> in_int64 n"
  by (simp add: in_int64_def)

definition too_long :: string where
  "too_long = ''string exceeds maximum allowed size (512MB)''"

lemma check_length:
  assumes "ready e c" "in_int64 n"
  shows "\<exists>c'. checkStringLength e c (to_int64 n) = Inr (n \<le> 512 * 1024 * 1024, c') \<and>
    (if n \<le> 512 * 1024 * 1024 then c' = c else appends e 4 (err_text too_long) c c')"
  using reply_error [OF assms(1), of too_long] to_int64_id [OF assms(2)]
  by (auto simp: checkStringLength_def too_long_def)

lemma check_type:
  assumes "ready e c"
  shows "\<exists>c'. checkType e c v OBJ_STRING = Inr (otype v \<noteq> OBJ_STRING, c') \<and>
    (if otype v = OBJ_STRING then c' = c else appends e 4 shared_wrongtypeerr c c')"
proof (cases "otype v = OBJ_STRING")
  case False
  obtain c' where "addReplyShared e c shared_wrongtypeerr = Inr c'" "appends e 4 shared_wrongtypeerr c c'"
    using reply_shared [OF assms] reply_text_shared by blast
  with False show ?thesis unfolding checkType_def shared_wrongtypeerr_def [symmetric] by simp
qed (simp add: checkType_def)

section \<open>The specification of the commands\<close>

text \<open>
  What a command does to the view \<open>m\<close> of the keyspace: the new view, the reply and the number of changes.
\<close>

type_synonym kview = "string \<rightharpoonup> aval \<times> int option"

definition spec_append :: "string \<Rightarrow> string \<Rightarrow> kview \<Rightarrow> kview \<times> string \<times> int" where
  "spec_append k v m =
     (case m k of
        None \<Rightarrow> (m(k \<mapsto> (AStr v, None)), int_reply (int (length v)), 1)
      | Some (AStr t, x) \<Rightarrow>
          if short (t @ v) then (m(k \<mapsto> (AStr (t @ v), x)), int_reply (int (length (t @ v))), 1)
          else (m, err_text too_long, 0)
      | Some (AObj _, _) \<Rightarrow> (m, shared_wrongtypeerr, 0))"

definition spec_strlen :: "string \<Rightarrow> kview \<Rightarrow> kview \<times> string \<times> int" where
  "spec_strlen k m =
     (m, case m k of None \<Rightarrow> shared_czero | Some (AStr t, _) \<Rightarrow> int_reply (int (length t)) | Some (AObj _, _) \<Rightarrow> shared_wrongtypeerr, 0)"

definition not_an_integer :: string where
  "not_an_integer = ''value is not an integer or out of range''"

definition spec_incrby :: "string \<Rightarrow> int \<Rightarrow> kview \<Rightarrow> kview \<times> string \<times> int" where
  "spec_incrby k n m =
     (let add = (\<lambda>old x. if in_int64 (old + n) then (m(k \<mapsto> (AStr (deci (old + n)), x)), int_reply (old + n), 1)
                         else (m, err_text ''increment or decrement would overflow'', 0)) in
      case m k of
        None \<Rightarrow> add 0 None
      | Some (AStr t, x) \<Rightarrow> (case string2ll t of Some old \<Rightarrow> add old x | None \<Rightarrow> (m, err_text not_an_integer, 0))
      | Some (AObj _, _) \<Rightarrow> (m, shared_wrongtypeerr, 0))"

text \<open>The text from one index to another; a negative index counts from the end, and one before the start is 0.\<close>

definition subtext :: "string \<Rightarrow> int \<Rightarrow> int \<Rightarrow> string" where
  "subtext t a b =
     (let n = int (length t); lo = (if a < 0 then max 0 (n + a) else a); hi = (if b < 0 then max 0 (n + b) else b) in
      if a < 0 \<and> b < 0 \<and> b < a then [] else take (nat (hi - lo + 1)) (drop (nat lo) t))"

definition spec_getrange :: "string \<Rightarrow> int \<Rightarrow> int \<Rightarrow> kview \<Rightarrow> kview \<times> string \<times> int" where
  "spec_getrange k a b m =
     (m, case m k of None \<Rightarrow> shared_emptybulk | Some (AStr t, _) \<Rightarrow> bulk_text (subtext t a b)
         | Some (AObj _, _) \<Rightarrow> shared_wrongtypeerr, 0)"

text \<open>The text with \<open>v\<close> at an offset, zero bytes before it where there was none.\<close>

definition patched :: "string \<Rightarrow> nat \<Rightarrow> string \<Rightarrow> string" where
  "patched t off v = take off (t @ replicate (off - length t) NUL) @ v @ drop (off + length v) t"

definition spec_setrange :: "string \<Rightarrow> int \<Rightarrow> string \<Rightarrow> kview \<Rightarrow> kview \<times> string \<times> int" where
  "spec_setrange k off v m =
     (let write = (\<lambda>t x. if off + int (length v) \<le> 512 * 1024 * 1024
                         then (m(k \<mapsto> (AStr (patched t (nat off) v), x)), int_reply (int (length (patched t (nat off) v))), 1)
                         else (m, err_text too_long, 0)) in
      if off < 0 then (m, err_text ''offset is out of range'', 0)
      else
        case m k of
          None \<Rightarrow> if v = [] then (m, shared_czero, 0) else write [] None
        | Some (AStr t, x) \<Rightarrow> if v = [] then (m, int_reply (int (length t)), 0) else write t x
        | Some (AObj _, _) \<Rightarrow> (m, shared_wrongtypeerr, 0))"

text \<open>A step of the server that keeps the invariant and leads to the view \<open>m\<close>, with \<open>d\<close> changes and at most \<open>n\<close> new keys.\<close>

definition goes :: "server \<Rightarrow> server \<Rightarrow> nat \<Rightarrow> kview \<Rightarrow> int \<Rightarrow> bool" where
  "goes s s' n m d \<longleftrightarrow> db_ok s' \<and> cfg s' = cfg s \<and> tview s' = m \<and> dirty s' = dirty s + d \<and>
     (\<forall>k. room_for (n + k) s \<longrightarrow> room_for k s')"

lemma goes_trans: "goes s s1 0 (tview s) 0 \<Longrightarrow> goes s1 s2 n m d \<Longrightarrow> goes s s2 n m d"
  by (simp add: goes_def)

lemma goes_less: "goes s s1 0 m d \<Longrightarrow> goes s s1 n m d"
  unfolding goes_def using room_less by auto

lemma goesD:
  assumes "goes s s1 0 (tview s) 0"
  shows "db_ok s1" "tview s1 = tview s" "room_for n s \<Longrightarrow> room_for n s1" "cfg s1 = cfg s"
  using assms by (auto simp: goes_def)

lemma goes_noted [simp]:
  "goes s (notifyKeyspaceEvent ev s1 k) n m d = goes s s1 n m d" "goes s (signalModifiedKey s1 k) n m d = goes s s1 n m d"
  "goes s (dirtied s1) n m 1 = goes s s1 n m 0"
  by (simp_all add: goes_def)

definition does :: "env \<Rightarrow> server \<Rightarrow> client \<Rightarrow> (server \<times> client) res \<Rightarrow> kview \<times> string \<times> int \<Rightarrow> bool" where
  "does e s c r x \<longleftrightarrow> performs e s c r (fst x) (fst (snd x)) (snd (snd x)) 1"

lemma doesI:
  assumes "r = Inr (s', c')" "goes s s' 1 m d" "answers e t c c'" "x = (m, t, d)"
  shows "does e s c r x"
  using assms by (auto simp: does_def performs_def goes_def)

lemma read_doesI:
  assumes "r = Inr (s', c')" "goes s s' 0 (tview s) 0" "answers e t c c'" "x = (tview s, t, 0)"
  shows "does e s c r x"
  by (rule doesI [OF assms(1) goes_less [OF assms(2)] assms(3,4)])

text \<open>The three cases of a key that is to hold a string: no key, a value of another type, a string.\<close>

lemma write_target:
  assumes "db_ok s" "ready e c" "list_all str_obj (argv c)"
  obtains
    (none) s1 where "lookupKeyWrite e s k = Inr (None, s1)" "goes s s1 0 (tview s) 0" "tview s k = None" "kmap s1 k = None" "kexp s1 k = None"
  | (other) s1 o' c1 v x where "lookupKeyWrite e s k = Inr (Some o', s1)" "goes s s1 0 (tview s) 0" "tview s k = Some (AObj v, x)"
      "checkType e c o' OBJ_STRING = Inr (True, c1)" "answers e shared_wrongtypeerr c c1"
  | (str) s1 o' where "lookupKeyWrite e s k = Inr (Some o', s1)" "goes s s1 0 (tview s) 0"
      "tview s k = Some (AStr (obj_text o'), kexp s1 k)" "checkType e c o' OBJ_STRING = Inr (False, c)" "str_obj o'"
      "kmap s1 k = Some o'" "\<not> gone s1 k"
proof -
  obtain v s1 where s1: "lookupKeyWrite e s k = Inr (v, s1)" "db_ok s1" "cfg s1 = cfg s" "dirty s1 = dirty s" "view s1 = view s"
    "kmap s1 k = v" "\<not> gone s1 k" "tview s k = map_option (\<lambda>o'. (aval o', kexp s1 k)) v" "\<And>o'. v = Some o' \<Longrightarrow> typed_obj o'"
    "\<And>n. room_for n s \<Longrightarrow> room_for n s1" "v = None \<Longrightarrow> kexp s1 k = None" by (rule lookupW [OF assms(1), of e k]) (rule that)
  have g: "goes s s1 0 (tview s) 0" using s1 tview_cong [OF s1(5)] by (simp add: goes_def)
  show thesis
  proof (cases v)
    case None
    with s1(1,6,8) s1(11) [OF None] show thesis by (intro none [OF _ g]) simp_all
  next
    case (Some o')
    obtain c1 where c1: "checkType e c o' OBJ_STRING = Inr (otype o' \<noteq> OBJ_STRING, c1)"
      "if otype o' = OBJ_STRING then c1 = c else appends e 4 shared_wrongtypeerr c c1" using check_type [OF assms(2)] by blast
    from s1(9) [OF Some] show thesis
    proof (cases rule: aval_cases)
      case str
      with s1(1,6,7,8) Some c1 show thesis by (intro that(3) [OF _ g, of o']) simp_all
    next
      case other
      with s1(1,8) Some c1 answersI [OF _ assms(3)] show thesis
        by (intro that(2) [OF _ g, of o' "no_lru o'" "kexp s1 k" c1]) simp_all
    qed
  qed
qed

lemma read_target:
  assumes "db_ok s" "\<not> is_slave s" "ready e c" "list_all str_obj (argv c)" "reply_text t"
  obtains
    (none) s1 c1 where "lookupKeyReadOrReply e s c k t = Inr (None, s1, c1)" "goes s s1 0 (tview s) 0" "tview s k = None" "answers e t c c1"
  | (other) s1 o' c1 v x where "lookupKeyReadOrReply e s c k t = Inr (Some o', s1, c)" "goes s s1 0 (tview s) 0"
      "tview s k = Some (AObj v, x)" "checkType e c o' OBJ_STRING = Inr (True, c1)" "answers e shared_wrongtypeerr c c1"
  | (str) s1 o' x where "lookupKeyReadOrReply e s c k t = Inr (Some o', s1, c)" "goes s s1 0 (tview s) 0"
      "tview s k = Some (AStr (obj_text o'), x)" "checkType e c o' OBJ_STRING = Inr (False, c)" "str_obj o'"
proof -
  obtain v s1 where s1: "lookupKeyReadWithFlags e s k False = Inr (v, s1)" "db_ok s1" "cfg s1 = cfg s" "dirty s1 = dirty s"
    "view s1 = view s" "map_option fst (tview s k) = map_option aval v" "\<And>o'. v = Some o' \<Longrightarrow> typed_obj o'"
    "\<And>n. room_for n s \<Longrightarrow> room_for n s1" by (rule lookupR [OF assms(1,2), of e k False]) (rule that)
  have g: "goes s s1 0 (tview s) 0" using s1 tview_cong [OF s1(5)] by (simp add: goes_def)
  show thesis
  proof (cases v)
    case None
    obtain c1 where "addReplyShared e c t = Inr c1" "appends e 4 t c c1" using reply_shared [OF assms(3,5)] by blast
    with s1(1,6) None answersI [OF _ assms(4)] show thesis
      by (intro none [OF _ g, of c1]) (simp_all add: lookupKeyReadOrReply_def lookupKeyRead_def)
  next
    case (Some o')
    obtain x where x: "tview s k = Some (aval o', x)" using s1(6) Some by (cases "tview s k") auto
    obtain c1 where c1: "checkType e c o' OBJ_STRING = Inr (otype o' \<noteq> OBJ_STRING, c1)"
      "if otype o' = OBJ_STRING then c1 = c else appends e 4 shared_wrongtypeerr c c1" using check_type [OF assms(3)] by blast
    have l: "lookupKeyReadOrReply e s c k t = Inr (Some o', s1, c)"
      using s1(1) Some by (simp add: lookupKeyReadOrReply_def lookupKeyRead_def)
    from s1(7) [OF Some] show thesis
    proof (cases rule: aval_cases)
      case str
      with c1 x show thesis by (intro that(3) [OF l g]) simp_all
    next
      case other
      with c1 x answersI [OF _ assms(4)] show thesis by (intro that(2) [OF l g, of "no_lru o'" x c1]) simp_all
    qed
  qed
qed

lemma add_goes:
  assumes "goes s s1 0 (tview s) 0" "kmap s1 k = None" "kexp s1 k = None" "str_obj v" "room_for 1 s"
  shows "\<exists>s2. dbAdd s1 k v = Inr s2 \<and> goes s s2 1 ((tview s)(k \<mapsto> (AStr (obj_text v), None))) 0 \<and> kmap s2 k = Some v \<and>
    \<not> gone s2 k \<and> kexp s2 k = None"
  using add_new [OF goesD(1) [OF assms(1)] assms(2,4) goesD(3) [OF assms(1,5)] assms(3)] assms(1)
  by (auto simp: goes_def)

lemma unshare_goes:
  assumes "goes s s1 0 (tview s) 0" "kmap s1 k = Some o'" "str_obj o'" "\<not> gone s1 k" "room_for 1 s"
  shows "\<exists>o2 s2 t. dbUnshareStringValue e s1 k o' = Inr (o2, s2) \<and> sds_of o2 = Inr t \<and> sds_ok t \<and> sdsval t = obj_text o' \<and>
    (\<forall>t1. sds_ok t1 \<longrightarrow> (\<exists>s3. write_object s2 k (o2\<lparr>optr := PSds t1\<rparr>) = Inr s3 \<and>
      goes s s3 1 ((tview s)(k \<mapsto> (AStr (sdsval t1), kexp s1 k))) 0))"
proof -
  have "room_for 0 s1" using goesD(3) [OF assms(1), of 0] room_less [of 1 0] assms(5) by simp
  from unshare_write [OF goesD(1) [OF assms(1)] assms(2,3) this assms(4), of e] obtain o2 s2 t where
    u: "dbUnshareStringValue e s1 k o' = Inr (o2, s2)" "sds_of o2 = Inr t" "sds_ok t" "sdsval t = obj_text o'"
    "\<forall>t1. sds_ok t1 \<longrightarrow> (\<exists>s3. write_object s2 k (o2\<lparr>optr := PSds t1\<rparr>) = Inr s3 \<and> db_ok s3 \<and> cfg s3 = cfg s1 \<and>
      dirty s3 = dirty s1 \<and> tview s3 = (tview s1)(k \<mapsto> (AStr (sdsval t1), kexp s1 k)) \<and> (\<forall>n. room_for n s1 \<longrightarrow> room_for n s3))"
    by blast
  have "\<exists>s3. write_object s2 k (o2\<lparr>optr := PSds t1\<rparr>) = Inr s3 \<and> goes s s3 1 ((tview s)(k \<mapsto> (AStr (sdsval t1), kexp s1 k))) 0"
    if ok: "sds_ok t1" for t1
  proof -
    obtain s3 where s3: "write_object s2 k (o2\<lparr>optr := PSds t1\<rparr>) = Inr s3" "db_ok s3" "cfg s3 = cfg s1" "dirty s3 = dirty s1"
      "tview s3 = (tview s1)(k \<mapsto> (AStr (sdsval t1), kexp s1 k))" "\<forall>n. room_for n s1 \<longrightarrow> room_for n s3" using u(5) ok by blast
    then have "goes s1 s3 0 ((tview s)(k \<mapsto> (AStr (sdsval t1), kexp s1 k))) 0" using goesD(2) [OF assms(1)] by (simp add: goes_def)
    from goes_less [OF goes_trans [OF assms(1) this]] s3(1) show ?thesis by blast
  qed
  with u show ?thesis by blast
qed

lemma int_answer:
  assumes "ready e c" "list_all str_obj (argv c)" "in_int64 n"
  shows "\<exists>c'. addReplyLongLong e c n = Inr c' \<and> answers e (int_reply n) c c'"
  using reply_int [OF assms(1,3)] answersI [OF _ assms(2)] by blast

lemma err_answer:
  assumes "ready e c" "list_all str_obj (argv c)" "length m < 2 ^ 64"
  shows "\<exists>c'. addReplyError e c m = Inr c' \<and> answers e (err_text m) c c'"
  using reply_error [OF assms(1,3)] answersI [OF _ assms(2)] by blast

lemma short_int64: "short t \<Longrightarrow> in_int64 (int (length t))"
  by (simp add: short_def in_int64_def)

section \<open>APPEND and STRLEN\<close>

lemma strlenCommand_ok:
  assumes "args_are c [nm, k]" "db_ok s" "\<not> is_slave s" "ready e c" "short_at s k"
  shows "does e s c (strlenCommand e s c) (spec_strlen k (tview s))"
proof -
  note strs = args_strs [OF assms(1)]
  have k: "arg_key c 1 = Inr k" using arg_key_ok [OF assms(1), of 1] by simp
  from assms(2-4) strs reply_text_shared(4) show ?thesis
  proof (cases rule: read_target [where k = k])
    case (none s1 c1)
    show ?thesis by (rule read_doesI [OF _ none(2,4)]) (use k none in \<open>simp_all add: strlenCommand_def spec_strlen_def\<close>)
  next
    case (other s1 o' c1 v x)
    show ?thesis by (rule read_doesI [OF _ other(2,5)]) (use k other in \<open>simp_all add: strlenCommand_def spec_strlen_def\<close>)
  next
    case (str s1 o' x)
    have "short (obj_text o')" using assms(5) str(3) by (simp add: short_at_def)
    then obtain c1 where c1: "addReplyLongLong e c (int (length (obj_text o'))) = Inr c1" "answers e (int_reply (int (length (obj_text o')))) c c1"
      using int_answer [OF assms(4) strs short_int64] by blast
    show ?thesis
      by (rule read_doesI [OF _ str(2) c1(2)])
        (use k str c1(1) stringObjectLen_text [OF str(5)] in \<open>simp_all add: strlenCommand_def spec_strlen_def\<close>)
  qed
qed

lemma append_over:
  assumes "args_are c [nm, k, v]" "goes s s1 0 (tview s) 0" "lookupKeyWrite e s k = Inr (Some o', s1)" "room_for 1 s" "ready e c"
    "checkType e c o' OBJ_STRING = Inr (False, c)" "str_obj o'" "kmap s1 k = Some o'" "\<not> gone s1 k"
    "tview s k = Some (AStr (obj_text o'), kexp s1 k)" "short (obj_text o')" "short v"
  shows "does e s c (appendCommand e s c) (spec_append k v (tview s))"
proof -
  have k: "arg_key c 1 = Inr k" using arg_key_ok [OF assms(1), of 1] by simp
  obtain t0 where t0': "arg_sds c 2 = Inr t0" "sds_ok t0" "sdsval t0 = v" using arg_ok [OF assms(1), of 2] by auto
  have t0: "sdslen t0 = length v" "sdslen t0 \<le> length (hdr_buf t0)" "take (sdslen t0) (hdr_buf t0) = v"
    using t0' sdslen_le_buf [OF t0'(2)] take_bufI [OF t0'(2)] length_sdsval [OF t0'(2)] by auto
  let ?n = "int (length (obj_text o')) + int (length v)" and ?t = "obj_text o' @ v"
  have n32: "?n \<le> 2 ^ 32" using assms(11,12) by (simp add: short_def)
  obtain c2 where c2: "checkStringLength e c (to_int64 ?n) = Inr (?n \<le> 512 * 1024 * 1024, c2)"
    "if ?n \<le> 512 * 1024 * 1024 then c2 = c else appends e 4 (err_text too_long) c c2" using check_length [OF assms(5) in_int64_small [OF _ n32]] by auto
  have shv: "(?n \<le> 512 * 1024 * 1024) = short ?t" unfolding short_def length_append by linarith
  note start = k rbind_simps assms(3) prod.case option.case assms(6) if_False t0'(1) stringObjectLen_text [OF assms(7)] t0(1)
  show ?thesis
  proof (cases "short ?t")
    case False
    then have c2': "checkStringLength e c (to_int64 ?n) = Inr (False, c2)" "appends e 4 (err_text too_long) c c2" using c2 shv by simp_all
    have "appendCommand e s c = Inr (s1, c2)" unfolding appendCommand_def start c2'(1) not_False_eq_True if_True ..
    from read_doesI [OF this assms(2) answersI [OF c2'(2) args_strs [OF assms(1)]]] show ?thesis
      using False assms(10) by (simp add: spec_append_def)
  next
    case True
    then have c2': "checkStringLength e c (to_int64 ?n) = Inr (True, c)" using c2 shv by simp
    from unshare_goes [OF assms(2,8,7,9,4), of e] obtain o2 s2 t where u: "dbUnshareStringValue e s1 k o' = Inr (o2, s2)"
      "sds_of o2 = Inr t" "sds_ok t" "sdsval t = obj_text o'"
      "\<And>t1. sds_ok t1 \<Longrightarrow> \<exists>s3. write_object s2 k (o2\<lparr>optr := PSds t1\<rparr>) = Inr s3 \<and>
        goes s s3 1 ((tview s)(k \<mapsto> (AStr (sdsval t1), kexp s1 k))) 0" by blast
    have "sdslen t + sdslen t0 < 2 ^ 63" using n32 length_sdsval [OF u(3)] u(4) t0(1) by simp
    then obtain t1 where t1: "sdscatlen (junk e) t (hdr_buf t0) (sdslen t0) = Inr t1" "sds_ok t1" "sdsval t1 = ?t"
      using sdscatlen_ok [OF u(3) _ t0(2)] t0(3) u(4) by metis
    obtain s3 where s3: "write_object s2 k (o2\<lparr>optr := PSds t1\<rparr>) = Inr s3" "goes s s3 1 ((tview s)(k \<mapsto> (AStr ?t, kexp s1 k))) 0"
      using u(5) [OF t1(2)] t1(3) by metis
    obtain c3 where c3: "addReplyLongLong e c (int (length ?t)) = Inr c3" "answers e (int_reply (int (length ?t))) c c3"
      using int_answer [OF assms(5) args_strs [OF assms(1)] short_int64 [OF True]] by blast
    have len: "sdslen t1 = length ?t" using length_sdsval [OF t1(2)] t1(3) by simp
    let ?s4 = "dirtied (notifyKeyspaceEvent ''append'' (signalModifiedKey s3 k) k)"
    have "appendCommand e s c = Inr (?s4, c3)"
      unfolding appendCommand_def start c2' not_True_eq_False if_False u(1,2) t1(1) [unfolded t0(1)] s3(1) len Let_def c3(1) ..
    then show ?thesis by (rule doesI [OF _ _ c3(2)]) (use s3(2) assms(10) True in \<open>simp_all add: spec_append_def\<close>)
  qed
qed

lemma appendCommand_ok:
  assumes "args_are c [nm, k, v]" "db_ok s" "room_for 1 s" "ready e c" "short v" "short_at s k"
  shows "does e s c (appendCommand e s c) (spec_append k v (tview s))"
proof -
  note strs = args_strs [OF assms(1)]
  have k: "arg_key c 1 = Inr k" using arg_key_ok [OF assms(1), of 1] by simp
  from assms(2,4) strs show ?thesis
  proof (cases rule: write_target [where k = k])
    case (none s1)
    obtain w where w: "encode_arg e s1 c 2 = Inr (w, set_arg c 2 w)" "str_obj w" "obj_text w = v"
      using encode_arg_ok [OF assms(1), of 2] by auto
    obtain s2 where s2: "dbAdd s1 k w = Inr s2" "goes s s2 1 ((tview s)(k \<mapsto> (AStr v, None))) 0"
      using add_goes [OF none(2,4,5) w(2) assms(3)] w(3) by blast
    obtain c1 where c1: "addReplyLongLong e (set_arg c 2 w) (int (length v)) = Inr c1"
      "answers e (int_reply (int (length v))) (set_arg c 2 w) c1"
      using int_answer [OF _ set_arg_strs [OF assms(1) w(2)] short_int64 [OF assms(5)], of e 2] assms(4) by auto
    let ?s3 = "dirtied (notifyKeyspaceEvent ''append'' (signalModifiedKey s2 k) k)"
    have "appendCommand e s c = Inr (?s3, c1)"
      using k none(1) w(1) s2(1) stringObjectLen_text [OF w(2)] w(3) c1(1) by (simp add: appendCommand_def)
    then show ?thesis
      by (rule doesI [OF _ _ c1(2) [unfolded answers_set_arg]]) (use s2(2) none(3) in \<open>simp_all add: spec_append_def\<close>)
  next
    case (other s1 o' c1 v x)
    show ?thesis by (rule read_doesI [OF _ other(2,5)]) (use k other in \<open>simp_all add: appendCommand_def spec_append_def\<close>)
  next
    case (str s1 o')
    have "short (obj_text o')" using assms(6) str(3) by (simp add: short_at_def)
    from append_over [OF assms(1) str(2,1) assms(3,4) str(4-7,3) this assms(5)] show ?thesis .
  qed
qed

section \<open>Counters\<close>

lemma get_ll:
  assumes "ready e c" "list_all str_obj (argv c)" "\<And>v. p = Some v \<Longrightarrow> str_obj v"
  shows "\<exists>c'. getLongLongFromObjectOrReply e c p None =
      Inr (case p of None \<Rightarrow> Some 0 | Some v \<Rightarrow> string2ll (obj_text v), c') \<and>
    ((case p of None \<Rightarrow> Some 0 | Some v \<Rightarrow> string2ll (obj_text v)) \<noteq> None \<longrightarrow> c' = c) \<and>
    ((case p of None \<Rightarrow> Some 0 | Some v \<Rightarrow> string2ll (obj_text v)) = None \<longrightarrow> answers e (err_text not_an_integer) c c')"
proof -
  obtain c' where c': "addReplyError e c not_an_integer = Inr c'" "answers e (err_text not_an_integer) c c'"
    using err_answer [OF assms(1,2), of not_an_integer] by (auto simp: not_an_integer_def)
  have g: "getLongLongFromObject p = Inr (case p of None \<Rightarrow> Some 0 | Some v \<Rightarrow> string2ll (obj_text v))"
    using assms(3) getLongLongFromObject_text by (cases p) (simp_all add: getLongLongFromObject_def)
  show ?thesis unfolding getLongLongFromObjectOrReply_def g rbind_simps not_an_integer_def [symmetric]
    using c' by (auto split: option.split)
qed

lemma overwrite_goes:
  assumes "goes s s1 0 (tview s) 0" "leaves s1 s2 ((kmap s1)(k \<mapsto> v)) (kexp s1) []" "kmap s1 k = Some o'" "\<not> gone s1 k" "str_obj v"
  shows "goes s s2 1 ((tview s)(k \<mapsto> (AStr (obj_text v), kexp s1 k))) 0"
proof -
  note l = leavesD [OF assms(2)]
  have g: "\<not> gone s2 k" using assms(4) gone_cong(2) [of s2 s1 k] l by simp
  have "view s2 = (view s1)(k \<mapsto> (no_lru v, kexp s1 k))" by (rule view_upd [OF assms(2)]) (use g in simp_all)
  from tview_upd [OF this] have "tview s2 = (tview s1)(k \<mapsto> (AStr (obj_text v), kexp s1 k))"
    using assms(5) by (simp add: aval_def str_obj_def)
  moreover have "room_for n s2" if "room_for n s1" for n
    using room_mono [OF goesD(1) [OF assms(1)] l(1) _ that] l(3) assms(3) by auto
  ultimately have "goes s1 s2 0 ((tview s)(k \<mapsto> (AStr (obj_text v), kexp s1 k))) 0"
    using l goesD(2) [OF assms(1)] by (simp add: goes_def)
  from goes_less [OF goes_trans [OF assms(1) this]] show ?thesis .
qed

text \<open>The object of the counter: written in place, replaced or added.\<close>

lemma counter_store:
  assumes "goes s s1 0 (tview s) 0" "kmap s1 k = v" "\<not> gone s1 k" "v = None \<Longrightarrow> kexp s1 k = None" "\<And>o'. v = Some o' \<Longrightarrow> str_obj o'"
    "room_for 1 s" "in_int64 n"
  shows "\<exists>w s2. incr_store e s1 k v n = Inr (w, s2) \<and>
    str_obj w \<and> obj_text w = deci n \<and> goes s s2 1 ((tview s)(k \<mapsto> (AStr (deci n), kexp s1 k))) 0"
proof -
  obtain w where w: "createStringObjectFromLongLong (lruclock e) n = Inr w" "str_obj w" "obj_text w = deci n"
    using createStringObjectFromLongLong_text [OF assms(7)] by blast
  note ok = goesD(1) [OF assms(1)]
  have r: "room_for 0 s1" using goesD(3) [OF assms(1), of 0] room_less [of 1 0] assms(6) by simp
  show ?thesis
  proof (cases v)
    case None
    then show ?thesis using add_goes [OF assms(1) _ assms(4) w(2) assms(6)] assms(2,4) w by (auto simp: incr_store_def)
  next
    case (Some o')
    note o' = assms(5) [OF Some]
    show ?thesis
    proof (cases "refcount o' + held s1 k = 1 \<and> oenc o' = OBJ_ENCODING_INT \<and> (n < 0 \<or> n \<ge> OBJ_SHARED_INTEGERS) \<and>
        n \<ge> - (2 ^ 63) \<and> n \<le> 2 ^ 63 - 1")
      case True
      let ?w = "o'\<lparr>optr := PInt n\<rparr>"
      have v: "str_obj ?w" "obj_text ?w = deci n" using o' True assms(7) by (auto simp: str_obj_def obj_text_def)
      obtain s2 where s2: "write_object s1 k ?w = Inr s2" "leaves s1 s2 ((kmap s1)(k \<mapsto> ?w)) (kexp s1) []"
        using write_object_ok [OF ok _ typed_str [OF v(1)]] assms(2) Some by blast
      have "goes s s2 1 ((tview s)(k \<mapsto> (AStr (deci n), kexp s1 k))) 0"
        using overwrite_goes [OF assms(1) s2(2) _ assms(3) v(1)] assms(2) Some v(2) by simp
      then show ?thesis unfolding incr_store_def Some option.case if_P [OF True] Let_def s2(1) rbind_simps using v by blast
    next
      case False
      obtain s2 where s2: "dbOverwrite s1 k w = Inr s2" "leaves s1 s2 ((kmap s1)(k \<mapsto> w)) (kexp s1) []"
        using dbOverwrite_ok [OF ok _ typed_str [OF w(2)] r] assms(2) Some by blast
      have "goes s s2 1 ((tview s)(k \<mapsto> (AStr (deci n), kexp s1 k))) 0"
        using overwrite_goes [OF assms(1) s2(2) _ assms(3) w(2)] assms(2) Some w(3) by simp
      then show ?thesis unfolding incr_store_def Some option.case if_not_P [OF False] w(1) s2(1) rbind_simps using w(2,3) by blast
    qed
  qed
qed

lemma counter_reply:
  assumes "ready e c" "list_all str_obj (argv c)" "str_obj w" "obj_text w = deci n"
  shows "\<exists>c'. rbind (addReplyShared e c shared_colon) (\<lambda>c3. rbind (addReply e c3 w) (\<lambda>c4.
      rbind (addReplyShared e c4 crlf) (\<lambda>c5. Inr (s3, c5)))) = Inr (s3, c') \<and> answers e (int_reply n) c c'"
proof -
  have e: "env_ok e" "out_ok e c" "has_room 4 c" using assms(1) by (auto simp: ready_def)
  have t: "is_cstring shared_colon" "length shared_colon < 2 ^ 64" "is_cstring crlf" "length crlf < 2 ^ 64"
    by (simp_all add: shared_colon_def crlf_def)
  obtain c1 where c1: "addReplyShared e c shared_colon = Inr c1" "appends e 1 shared_colon c c1"
    using addReplyShared_ok [OF e(2,1) has_room_le [OF e(3)] t(1,2)] by auto
  have r1: "has_room 3 c1" using has_room_step [OF c1(2), of 3] e(3) by simp
  obtain c2 where c2: "addReply e c1 w = Inr c2" "appends e 1 (deci n) c1 c2"
    using addReply_ok [OF appends_out_ok [OF c1(2)] e(1) has_room_le [OF r1] assms(3)] assms(4) by auto
  have r2: "has_room 2 c2" using has_room_step [OF c2(2), of 2] r1 by (simp add: numeral_3_eq_3)
  obtain c3 where c3: "addReplyShared e c2 crlf = Inr c3" "appends e 1 crlf c2 c3"
    using addReplyShared_ok [OF appends_out_ok [OF c2(2)] e(1) has_room_le [OF r2] t(3,4)] by auto
  have "appends e (1 + (1 + 1)) (shared_colon @ deci n @ crlf) c c3"
    using appends_trans [OF c1(2) appends_trans [OF c2(2) c3(2)]] .
  then have "appends e 4 (int_reply n) c c3" using appends_le [of e 3 _ c c3 4] by (simp add: int_reply_def shared_colon_def numeral_3_eq_3)
  then show ?thesis using c1(1) c2(1) c3(1) answersI [OF _ assms(2)] by simp
qed

lemma incr_guard:
  fixes old n :: int
  assumes "in_int64 old" "in_int64 n"
  shows "(n < 0 \<and> old < 0 \<and> n < - (2 ^ 63) - old \<or> n > 0 \<and> old > 0 \<and> n > (2 ^ 63 - 1) - old) = (\<not> in_int64 (old + n))"
  using assms by (auto simp: in_int64_def)

lemma incr_tail:
  assumes "arg_key c 1 = Inr k" "lookupKeyWrite e s k = Inr (v, s1)" "goes s s1 0 (tview s) 0"
    "(case v of None \<Rightarrow> Inr (False, c) | Some o' \<Rightarrow> checkType e c o' OBJ_STRING) = Inr (False, c)"
    "kmap s1 k = v" "\<not> gone s1 k" "v = None \<Longrightarrow> kexp s1 k = None" "\<And>o'. v = Some o' \<Longrightarrow> str_obj o'"
    "room_for 1 s" "in_int64 n" "ready e c" "list_all str_obj (argv c)"
    "tview s k = map_option (\<lambda>o'. (AStr (obj_text o'), kexp s1 k)) v"
  shows "does e s c (incrDecrCommand e s c n) (spec_incrby k n (tview s))"
proof -
  let ?num = "case v of None \<Rightarrow> Some 0 | Some o' \<Rightarrow> string2ll (obj_text o')"
  obtain c2 where c2: "getLongLongFromObjectOrReply e c v None = Inr (?num, c2)"
    "?num \<noteq> None \<longrightarrow> c2 = c" "?num = None \<longrightarrow> answers e (err_text not_an_integer) c c2" using get_ll [OF assms(11,12,8)] by blast
  note start = assms(1,2,4) rbind_simps prod.case if_False c2(1)
  show ?thesis
  proof (cases ?num)
    case None
    have "incrDecrCommand e s c n = Inr (s1, c2)" unfolding incrDecrCommand_def start None option.case ..
    from read_doesI [OF this assms(3)] c2(3) None assms(13) show ?thesis
      by (auto simp: spec_incrby_def split: option.splits)
  next
    case (Some old)
    have i: "in_int64 old" using Some by (cases v) (auto simp: in_int64_def string2ll_iff)
    have c2c: "c2 = c" using c2(2) Some by simp
    have spec: "spec_incrby k n (tview s) =
      (if in_int64 (old + n) then ((tview s)(k \<mapsto> (AStr (deci (old + n)), kexp s1 k)), int_reply (old + n), 1)
       else (tview s, err_text ''increment or decrement would overflow'', 0))"
      using Some assms(13,7) by (cases v) (simp_all add: spec_incrby_def)
    show ?thesis
    proof (cases "in_int64 (old + n)")
      case False
      obtain c3 where c3: "addReplyError e c ''increment or decrement would overflow'' = Inr c3"
        "answers e (err_text ''increment or decrement would overflow'') c c3" 
        using err_answer [OF assms(11,12), of "''increment or decrement would overflow''"] by auto
      have "incrDecrCommand e s c n = Inr (s1, c3)"
        unfolding incrDecrCommand_def start Some c2c option.case incr_guard [OF i assms(10)] using False c3(1) by simp
      from read_doesI [OF this assms(3) c3(2)] False spec show ?thesis by simp
    next
      case True
      have st: "\<exists>w s2. incr_store e s1 k v (old + n) = Inr (w, s2) \<and> str_obj w \<and> obj_text w = deci (old + n) \<and>
        goes s s2 1 ((tview s)(k \<mapsto> (AStr (deci (old + n)), kexp s1 k))) 0"
        by (rule counter_store [OF assms(3,5,6) _ _ assms(9) True]) (use assms(7,8) in simp_all)
      obtain w s2 where w: "str_obj w" "obj_text w = deci (old + n)"
          "goes s s2 1 ((tview s)(k \<mapsto> (AStr (deci (old + n)), kexp s1 k))) 0"
        and st: "incr_store e s1 k v (old + n) = Inr (w, s2)"
        using st by blast
      let ?s3 = "dirtied (notifyKeyspaceEvent ''incrby'' (signalModifiedKey s2 k) k)"
      obtain c3 where c3: "rbind (addReplyShared e c shared_colon) (\<lambda>c3. rbind (addReply e c3 w) (\<lambda>c4.
          rbind (addReplyShared e c4 crlf) (\<lambda>c5. Inr (?s3, c5)))) = Inr (?s3, c3)" "answers e (int_reply (old + n)) c c3"
        using counter_reply [OF assms(11,12) w(1,2), of ?s3] by blast
      have "incrDecrCommand e s c n = Inr (?s3, c3)"
        unfolding incrDecrCommand_def start Some c2c option.case incr_guard [OF i assms(10)] 
          ck_int64_id [OF True] st rbind_simps Let_def prod.case c3(1) using True by simp
      then show ?thesis by (rule doesI [OF _ _ c3(2)]) (use w(3) spec True in simp_all)
    qed
  qed
qed

lemma incrDecrCommand_ok:
  assumes "args_are c (nm # k # ts)" "db_ok s" "room_for 1 s" "ready e c" "in_int64 n"
  shows "does e s c (incrDecrCommand e s c n) (spec_incrby k n (tview s))"
proof -
  note strs = args_strs [OF assms(1)]
  have k: "arg_key c 1 = Inr k" using arg_key_ok [OF assms(1), of 1] by simp
  from assms(2,4) strs show ?thesis
  proof (cases rule: write_target [where k = k])
    case (none s1)
    show ?thesis
      by (rule incr_tail [OF k none(1,2)]) (use none assms strs in \<open>simp_all add: gone_def expired_def\<close>)
  next
    case (other s1 o' c1 v x)
    show ?thesis by (rule read_doesI [OF _ other(2,5)]) (use k other in \<open>simp_all add: incrDecrCommand_def spec_incrby_def\<close>)
  next
    case (str s1 o')
    show ?thesis by (rule incr_tail [OF k str(1,2)]) (use str assms strs in simp_all)
  qed
qed

lemma incrbyCommand_ok:
  assumes "args_are c [nm, k, x]" "db_ok s" "room_for 1 s" "ready e c" "string2ll x = Some n"
  shows "does e s c (incrbyCommand e s c) (spec_incrby k n (tview s))"
proof -
  obtain a where a: "arg c 2 = Inr a" "str_obj a" "obj_text a = x" using arg_ok [OF assms(1), of 2] by auto
  obtain c1 where "getLongLongFromObjectOrReply e c (Some a) None = Inr (Some n, c1)" "c1 = c"
    using get_ll [OF assms(4) args_strs [OF assms(1)], of "Some a"] a assms(5) by auto
  then have "incrbyCommand e s c = incrDecrCommand e s c n" using a(1) by (simp add: incrbyCommand_def)
  then show ?thesis using incrDecrCommand_ok [OF assms(1-4)] assms(5) by (simp add: string2ll_iff)
qed

section \<open>Ranges\<close>

lemma bulk_answer:
  assumes "ready e c" "list_all str_obj (argv c)" "n \<le> length p" "n < 2 ^ 63"
  shows "\<exists>c'. addReplyBulkCBuffer e c p n = Inr c' \<and> answers e (bulk_text (take n p)) c c'"
proof -
  have e: "env_ok e" "out_ok e c" "has_room 4 c" using assms(1) by (auto simp: ready_def)
  have i: "in_int64 (int n)" using assms(4) by (simp add: in_int64_def)
  obtain c1 where c1: "addReplyLongLongWithPrefix e c (int n) (CHR ''$'') = Inr c1" "appends e 1 (CHR ''$'' # deci (int n) @ crlf) c c1"
    using addReplyLongLongWithPrefix_ok [OF e(2,1) has_room_le [OF e(3)] i, of "CHR ''$''"] by auto
  have r1: "has_room 3 c1" using has_room_step [OF c1(2), of 3] e(3) by simp
  obtain c2 where c2: "addReplyString e c1 p n = Inr c2" "appends e 1 (take n p) c1 c2"
    using addReplyString_ok [OF appends_out_ok [OF c1(2)] e(1) has_room_le [OF r1] assms(3)] assms(4) by auto
  have r2: "has_room 2 c2" using has_room_step [OF c2(2), of 2] r1 by (simp add: numeral_3_eq_3)
  have t: "is_cstring crlf" "length crlf < 2 ^ 64" by (simp_all add: crlf_def)
  obtain c3 where c3: "addReplyShared e c2 crlf = Inr c3" "appends e 1 crlf c2 c3"
    using addReplyShared_ok [OF appends_out_ok [OF c2(2)] e(1) has_room_le [OF r2] t] by auto
  have "appends e (1 + (1 + 1)) ((CHR ''$'' # deci (int n) @ crlf) @ take n p @ crlf) c c3"
    using appends_trans [OF c1(2) appends_trans [OF c2(2) c3(2)]] .
  moreover have "(CHR ''$'' # deci (int n) @ crlf) @ take n p @ crlf = bulk_text (take n p)"
    using assms(3) by (simp add: bulk_text_def deci_def)
  ultimately have "appends e 4 (bulk_text (take n p)) c c3"
    using appends_le [of e 3 _ c c3 4] by (simp add: numeral_3_eq_3)
  then show ?thesis using c1(1) c2(1) c3(1) answersI [OF _ assms(2)] by (simp add: addReplyBulkCBuffer_def)
qed

lemma range_text_ok:
  assumes "str_obj o'"
  shows "range_text e o' = Inr (obj_text o')"
  using assms
proof (cases rule: str_obj_cases)
  case (raw t)
  then show ?thesis using sdslen_le_buf [OF raw(2)] by (simp add: range_text_def sds_of_def rd_bytes_def)
next
  case (num n)
  then show ?thesis using ll2string_fits [OF num(2), of 32 "mem_resize (junk e) 32 []"] length_deci_int64 [OF num(2)]
    by (simp add: range_text_def long_of_def rd_bytes_def)
qed

lemma empty_bulk: "shared_emptybulk = bulk_text []"
  by code_simp

lemma range_reply_ok:
  assumes "ready e c" "list_all str_obj (argv c)" "length t < 2 ^ 63"
  shows "\<exists>c'. range_reply e c t a b = Inr c' \<and> answers e (bulk_text (subtext t a b)) c c'"
proof -
  let ?n = "int (length t)"
  define lo where "lo = (if a < 0 then max 0 (?n + a) else a)"
  define hi where "hi = (if b < 0 then max 0 (?n + b) else b)"
  define hi' where "hi' = (if hi \<ge> ?n then ?n - 1 else hi)"
  have sub: "subtext t a b = (if a < 0 \<and> b < 0 \<and> b < a then [] else take (nat (hi - lo + 1)) (drop (nat lo) t))"
    by (simp add: subtext_def Let_def lo_def hi_def)
  have run: "range_reply e c t a b = (if a < 0 \<and> b < 0 \<and> b < a \<or> lo > hi' \<or> ?n = 0 then addReplyShared e c shared_emptybulk
      else addReplyBulkCBuffer e c (drop (nat lo) t) (nat (hi' - lo + 1)))"
    by (simp add: range_reply_def Let_def lo_def hi_def hi'_def max_def)
  have lo: "0 \<le> lo" by (simp add: lo_def)
  show ?thesis
  proof (cases "a < 0 \<and> b < 0 \<and> b < a \<or> lo > hi' \<or> ?n = 0")
    case True
    have "subtext t a b = []" using True lo unfolding sub by (auto simp: hi'_def split: if_splits)
    moreover obtain c1 where "addReplyShared e c shared_emptybulk = Inr c1" "appends e 4 shared_emptybulk c c1"
      using reply_shared [OF assms(1)] reply_text_shared by blast
    ultimately show ?thesis using True run answersI [OF _ assms(2)] empty_bulk by auto
  next
    case False
    have n: "nat (hi' - lo + 1) \<le> length (drop (nat lo) t)" "nat (hi' - lo + 1) < 2 ^ 63"
      using False lo assms(3) by (auto simp: hi'_def split: if_splits)
    have "take (nat (hi' - lo + 1)) (drop (nat lo) t) = take (nat (hi - lo + 1)) (drop (nat lo) t)"
      using lo False by (auto simp: hi'_def)
    then have "subtext t a b = take (nat (hi' - lo + 1)) (drop (nat lo) t)" using False unfolding sub by auto
    then show ?thesis using bulk_answer [OF assms(1,2) n] False run by auto
  qed
qed

lemma getrangeCommand_ok:
  assumes "args_are c [nm, k, x, y]" "db_ok s" "\<not> is_slave s" "ready e c" "short_at s k" "string2ll x = Some a" "string2ll y = Some b"
  shows "does e s c (getrangeCommand e s c) (spec_getrange k a b (tview s))"
proof -
  note strs = args_strs [OF assms(1)]
  have k: "arg_key c 1 = Inr k" using arg_key_ok [OF assms(1), of 1] by simp
  obtain p where p: "arg c 2 = Inr p" "str_obj p" "obj_text p = x" using arg_ok [OF assms(1), of 2] by auto
  obtain q where q: "arg c 3 = Inr q" "str_obj q" "obj_text q = y" using arg_ok [OF assms(1), of 3] by auto
  have g: "getLongLongFromObjectOrReply e c (Some p) None = Inr (Some a, c)" "getLongLongFromObjectOrReply e c (Some q) None = Inr (Some b, c)"
    using get_ll [OF assms(4) strs, of "Some p"] get_ll [OF assms(4) strs, of "Some q"] p q assms(6,7) by auto
  note start = getrangeCommand_def k p(1) q(1) g rbind_simps prod.case option.case
  from assms(2-4) strs reply_text_shared(3) show ?thesis
  proof (cases rule: read_target [where k = k])
    case (none s1 c1)
    have "getrangeCommand e s c = Inr (s1, c1)" unfolding start none(1) ..
    from read_doesI [OF this none(2,4)] none(3) show ?thesis by (simp add: spec_getrange_def)
  next
    case (other s1 o' c1 v z)
    have "getrangeCommand e s c = Inr (s1, c1)" unfolding start other(1,4) if_True ..
    from read_doesI [OF this other(2,5)] other(3) show ?thesis by (simp add: spec_getrange_def)
  next
    case (str s1 o' z)
    have "short (obj_text o')" using assms(5) str(3) by (simp add: short_at_def)
    then have "length (obj_text o') < 2 ^ 63" by (simp add: short_def)
    then obtain c1 where c1: "range_reply e c (obj_text o') a b = Inr c1" "answers e (bulk_text (subtext (obj_text o') a b)) c c1"
      using range_reply_ok [OF assms(4) strs] by blast
    have "getrangeCommand e s c = Inr (s1, c1)" unfolding start str(1,4) if_False range_text_ok [OF str(5)] c1(1) ..
    from read_doesI [OF this str(2) c1(2)] str(3) show ?thesis by (simp add: spec_getrange_def)
  qed
qed

text \<open>The bytes of \<open>SETRANGE\<close>: the string grows with zero bytes and the value is copied over it.\<close>

lemma patch_bytes:
  assumes "sds_ok t" "sds_ok u" "off + sdslen u < 2 ^ 63" "0 < sdslen u"
  shows "\<exists>t1 b. sdsgrowzero jk t (off + sdslen u) = Inr t1 \<and> rd_bytes (hdr_buf u) 0 (sdslen u) = Inr (sdsval u) \<and>
    wr_bytes (hdr_buf t1) off (sdsval u) = Inr b \<and> sds_ok (t1\<lparr>hdr_buf := b\<rparr>) \<and>
    sdsval (t1\<lparr>hdr_buf := b\<rparr>) = patched (sdsval t) off (sdsval u)"
proof -
  let ?n = "off + sdslen u"
  obtain t1 where t1: "sdsgrowzero jk t ?n = Inr t1" "sds_ok t1" "sdsval t1 = sdsval t @ replicate (?n - sdslen t) NUL"
    using sdsgrowzero_ok [OF assms(1,3)] by blast
  have lu: "length (sdsval u) = sdslen u" "length (sdsval t) = sdslen t" using assms by simp_all
  have l1: "sdslen t1 = max (sdslen t) ?n" using length_sdsval [OF t1(2)] t1(3) lu by simp
  have len: "sdslen t1 < length (hdr_buf t1)" using sdslen_le_buf [OF t1(2)] .
  let ?b = "take off (hdr_buf t1) @ sdsval u @ drop ?n (hdr_buf t1)"
  have w: "wr_bytes (hdr_buf t1) off (sdsval u) = Inr ?b" using len l1 lu by (simp add: wr_bytes_Inr)
  have lb: "length ?b = length (hdr_buf t1)" using len l1 lu by simp
  have nth: "?b ! sdslen t1 = hdr_buf t1 ! sdslen t1" using len l1 lu by (auto simp: nth_append)
  have ok: "sds_ok (t1\<lparr>hdr_buf := ?b\<rparr>)"
    using t1(2) lb nth unfolding sds_ok_def sdsalloc_def sdslen_def by (cases "hdr_type t1") simp_all
  have "take (sdslen t1) ?b = take off (take (sdslen t1) (hdr_buf t1)) @ sdsval u @ drop ?n (take (sdslen t1) (hdr_buf t1))"
    using l1 len lu by (simp add: min_def drop_take)
  also have "\<dots> = patched (sdsval t) off (sdsval u)"
    using take_bufI [OF t1(2)] t1(3) lu by (auto simp: patched_def min_def)
  finally have "sdsval (t1\<lparr>hdr_buf := ?b\<rparr>) = patched (sdsval t) off (sdsval u)"
    by (simp add: sdsval_def sdslen_def)
  moreover have "rd_bytes (hdr_buf u) 0 (sdslen u) = Inr (sdsval u)"
    using sdslen_le_buf [OF assms(2)] take_bufI [OF assms(2)] by (simp add: rd_bytes_def)
  ultimately show ?thesis using t1(1) w ok by blast
qed

lemma get_long:
  assumes "ready e c" "list_all str_obj (argv c)" "str_obj v" "string2ll (obj_text v) = Some n"
  shows "getLongFromObjectOrReply e c (Some v) None = Inr (Some n, c)"
proof -
  have "getLongLongFromObjectOrReply e c (Some v) None = Inr (Some n, c)"
    using get_ll [OF assms(1,2), of "Some v"] assms(3,4) by auto
  moreover have "in_int64 n" using assms(4) by (simp add: string2ll_iff)
  ultimately show ?thesis by (simp add: getLongFromObjectOrReply_def in_int64_def)
qed

lemma write_goes:
  assumes "goes s s2 1 m 0" "kmap s2 k = Some o2" "\<not> gone s2 k" "str_obj w"
  shows "\<exists>s3. write_object s2 k w = Inr s3 \<and> goes s s3 1 (m(k \<mapsto> (AStr (obj_text w), kexp s2 k))) 0"
proof -
  have ok: "db_ok s2" "goes s2 s2 0 (tview s2) 0" "tview s2 = m" using assms(1) by (simp_all add: goes_def)
  obtain s3 where s3: "write_object s2 k w = Inr s3" "leaves s2 s3 ((kmap s2)(k \<mapsto> w)) (kexp s2) []"
    using write_object_ok [OF ok(1) assms(2) typed_str [OF assms(4)]] by blast
  note l = leavesD [OF s3(2)]
  have "dom (kmap s3) \<subseteq> dom (kmap s2)" using l(3) assms(2) by auto
  then have "room_for n s3" if "room_for n s2" for n using room_mono [OF ok(1) l(1) _ that] by blast
  then have "goes s s3 1 (m(k \<mapsto> (AStr (obj_text w), kexp s2 k))) 0"
    using overwrite_goes [OF ok(2) s3(2) assms(2-4)] assms(1) ok(3) by (simp add: goes_def)
  with s3(1) show ?thesis by blast
qed

text \<open>\<open>SETRANGE\<close> once the object that is to be written is known.\<close>

lemma setrange_write:
  assumes "setrange_target e s c k off (sdslen u) = Inr (Some o2, s2, c)" "sds_of o2 = Inr t" "sds_ok t" "sds_ok u" "0 \<le> off"
    "0 < sdslen u" "off + int (sdslen u) \<le> 512 * 1024 * 1024" "short (sdsval t) \<or> sdslen t \<le> nat off + sdslen u" "ready e c" "list_all str_obj (argv c)"
    "arg_sds c 3 = Inr u" "arg c 2 = Inr p" "getLongFromObjectOrReply e c (Some p) None = Inr (Some off, c)" "arg_key c 1 = Inr k"
    "\<forall>t1. sds_ok t1 \<longrightarrow> (\<exists>s3. write_object s2 k (o2\<lparr>optr := PSds t1\<rparr>) = Inr s3 \<and> goes s s3 1 ((tview s)(k \<mapsto> (AStr (sdsval t1), x))) 0)"
    "spec_setrange k off (sdsval u) (tview s) =
       ((tview s)(k \<mapsto> (AStr (patched (sdsval t) (nat off) (sdsval u)), x)), int_reply (int (length (patched (sdsval t) (nat off) (sdsval u)))), 1)"
  shows "does e s c (setrangeCommand e s c) (spec_setrange k off (sdsval u) (tview s))"
proof -
  let ?v = "patched (sdsval t) (nat off) (sdsval u)"
  have "nat off + sdslen u \<le> 512 * 1024 * 1024" using assms(5,7) by linarith
  then have n: "nat off + sdslen u < 2 ^ 63" by simp
  obtain t1 b where g: "sdsgrowzero (junk e) t (nat off + sdslen u) = Inr t1" "rd_bytes (hdr_buf u) 0 (sdslen u) = Inr (sdsval u)"
    "wr_bytes (hdr_buf t1) (nat off) (sdsval u) = Inr b" "sds_ok (t1\<lparr>hdr_buf := b\<rparr>)" "sdsval (t1\<lparr>hdr_buf := b\<rparr>) = ?v"
    using patch_bytes [OF assms(3,4) n assms(6)] by blast
  obtain s3 where s3: "write_object s2 k (o2\<lparr>optr := PSds (t1\<lparr>hdr_buf := b\<rparr>)\<rparr>) = Inr s3"
    "goes s s3 1 ((tview s)(k \<mapsto> (AStr ?v, x))) 0" using assms(15) g(4,5) by metis
  have len: "sdslen (t1\<lparr>hdr_buf := b\<rparr>) = length ?v" using length_sdsval [OF g(4)] g(5) by simp
  have "length ?v \<le> max (sdslen t) (nat off + sdslen u)"
    using length_sdsval [OF assms(3)] length_sdsval [OF assms(4)] by (simp add: patched_def)
  then have "length ?v \<le> 512 * 1024 * 1024"
    using assms(5,7,8) length_sdsval [OF assms(3)] by (auto simp: short_def)
  then have "in_int64 (int (length ?v))" by (simp add: in_int64_def)
  then obtain c3 where c3: "addReplyLongLong e c (int (length ?v)) = Inr c3" "answers e (int_reply (int (length ?v))) c c3"
    using int_answer [OF assms(9,10)] by blast
  let ?s4 = "dirtied (notifyKeyspaceEvent ''setrange'' (signalModifiedKey s3 k) k)"
  have "setrangeCommand e s c = Inr (?s4, c3)"
    unfolding setrangeCommand_def assms(1,2,11-14) rbind_simps prod.case option.case g(1-3) Let_def s3(1) len c3(1)
    using assms(5) by simp
  from doesI [OF this _ c3(2) assms(16)] show ?thesis using s3(2) by simp
qed

definition range_args :: "env \<Rightarrow> client \<Rightarrow> string \<Rightarrow> int \<Rightarrow> sds \<Rightarrow> bool" where
  "range_args e c k off u \<longleftrightarrow> arg_sds c 3 = Inr u \<and> arg_key c 1 = Inr k \<and>
     (\<exists>p. arg c 2 = Inr p \<and> getLongFromObjectOrReply e c (Some p) None = Inr (Some off, c))"

lemma setrange_new:
  assumes none: "lookupKeyWrite e s k = Inr (None, s1)" "goes s s1 0 (tview s) 0" "tview s k = None" "kmap s1 k = None" "kexp s1 k = None"
    and room: "room_for 1 s" and args: "range_args e c k off u" "0 \<le> off" "0 < sdslen u" "ready e c" "list_all str_obj (argv c)" "sds_ok u"
    and fits: "off + int (sdslen u) \<le> 512 * 1024 * 1024" "checkStringLength e c (to_int64 (off + int (sdslen u))) = Inr (True, c)"
  shows "does e s c (setrangeCommand e s c) (spec_setrange k off (sdsval u) (tview s))"
proof -
  obtain p where p: "arg_sds c 3 = Inr u" "arg_key c 1 = Inr k" "arg c 2 = Inr p"
    "getLongFromObjectOrReply e c (Some p) None = Inr (Some off, c)" using args(1) by (auto simp: range_args_def)
  let ?n = "nat (off + int (sdslen u))"
  have "?n < 2 ^ 64" using fits(1) by (simp add: nat_less_iff)
  from sdsnewlen_ok(2) [OF this] obtain t where
    t: "sdsnewlen None ?n = Inr t" "sds_ok t" "sdsval t = replicate ?n NUL" by blast
  let ?o = "createObject (lruclock e) OBJ_STRING (PSds t)"
  have o': "str_obj ?o" "obj_text ?o = sdsval t" "sds_of ?o = Inr t"
    using t(2) by (simp_all add: createObject_def str_obj_def obj_text_def sds_of_def sdsEncodedObject_def)
  obtain s2 where s2: "dbAdd s1 k ?o = Inr s2" "goes s s2 1 ((tview s)(k \<mapsto> (AStr (sdsval t), None))) 0" "kmap s2 k = Some ?o"
    "\<not> gone s2 k" "kexp s2 k = None" using add_goes [OF none(2,4,5) o'(1) room] o'(2) by auto
  have tg: "setrange_target e s c k off (sdslen u) = Inr (Some ?o, s2, c)"
    using none(1) args(3) fits(2) t(1) s2(1) by (simp add: setrange_target_def Let_def)
  have pt: "patched (sdsval t) (nat off) (sdsval u) = patched [] (nat off) (sdsval u)"
    using t(3) args(2) length_sdsval [OF args(6)] by (simp add: patched_def nat_add_distrib)
  have wr: "\<forall>t1. sds_ok t1 \<longrightarrow> (\<exists>s3. write_object s2 k (?o\<lparr>optr := PSds t1\<rparr>) = Inr s3 \<and>
    goes s s3 1 ((tview s)(k \<mapsto> (AStr (sdsval t1), None))) 0)"
  proof (intro allI impI)
    fix t1 assume t1: "sds_ok t1"
    have w: "str_obj (?o\<lparr>optr := PSds t1\<rparr>)" "obj_text (?o\<lparr>optr := PSds t1\<rparr>) = sdsval t1"
      using t1 by (simp_all add: createObject_def str_obj_def obj_text_def sdsEncodedObject_def)
    from write_goes [OF s2(2-4) w(1)] w(2) s2(5)
    show "\<exists>s3. write_object s2 k (?o\<lparr>optr := PSds t1\<rparr>) = Inr s3 \<and> goes s s3 1 ((tview s)(k \<mapsto> (AStr (sdsval t1), None))) 0"
      by simp
  qed
  have lt: "sdslen t \<le> nat off + sdslen u" using length_sdsval [OF t(2)] t(3) args(2) by simp
  have ne: "sdsval u \<noteq> []" using args(3) length_sdsval [OF args(6)] by auto
  show ?thesis
    by (rule setrange_write [OF tg o'(3) t(2) args(6,2,3) fits(1) disjI2 [OF lt] args(4,5) p(1,3,4,2) wr])
      (use args(2) ne fits(1) pt none(3) length_sdsval [OF args(6)] in \<open>simp_all add: spec_setrange_def Let_def\<close>)
qed

lemma setrange_over:
  assumes str: "lookupKeyWrite e s k = Inr (Some o', s1)" "goes s s1 0 (tview s) 0"
      "tview s k = Some (AStr (obj_text o'), kexp s1 k)" "checkType e c o' OBJ_STRING = Inr (False, c)" "str_obj o'"
      "kmap s1 k = Some o'" "\<not> gone s1 k" "short (obj_text o')"
    and room: "room_for 1 s" and args: "range_args e c k off u" "0 \<le> off" "0 < sdslen u" "ready e c" "list_all str_obj (argv c)" "sds_ok u"
    and fits: "off + int (sdslen u) \<le> 512 * 1024 * 1024" "checkStringLength e c (to_int64 (off + int (sdslen u))) = Inr (True, c)"
  shows "does e s c (setrangeCommand e s c) (spec_setrange k off (sdsval u) (tview s))"
proof -
  obtain p where p: "arg_sds c 3 = Inr u" "arg_key c 1 = Inr k" "arg c 2 = Inr p"
    "getLongFromObjectOrReply e c (Some p) None = Inr (Some off, c)" using args(1) by (auto simp: range_args_def)
  from unshare_goes [OF str(2,6,5,7) room, of e] obtain o2 s2 t where w: "dbUnshareStringValue e s1 k o' = Inr (o2, s2)"
    "sds_of o2 = Inr t" "sds_ok t" "sdsval t = obj_text o'"
    "\<forall>t1. sds_ok t1 \<longrightarrow> (\<exists>s3. write_object s2 k (o2\<lparr>optr := PSds t1\<rparr>) = Inr s3 \<and>
      goes s s3 1 ((tview s)(k \<mapsto> (AStr (sdsval t1), kexp s1 k))) 0)" by blast
  have tg: "setrange_target e s c k off (sdslen u) = Inr (Some o2, s2, c)"
    using str(1,4) args(3) fits w(1) stringObjectLen_text [OF str(5)] by (simp add: setrange_target_def)
  have ne: "sdsval u \<noteq> []" using args(3) length_sdsval [OF args(6)] by auto
  have sh: "short (sdsval t)" using w(4) str(8) by simp
  show ?thesis
    by (rule setrange_write [OF tg w(2,3) args(6,2,3) fits(1) disjI1 [OF sh] args(4,5) p(1,3,4,2) w(5)])
      (use args(2) ne fits(1) w(4) str(3) length_sdsval [OF args(6)] in \<open>simp_all add: spec_setrange_def Let_def\<close>)
qed

lemma setrangeCommand_ok:
  assumes "args_are c [nm, k, x, v]" "db_ok s" "room_for 1 s" "ready e c" "short_at s k" "string2ll x = Some off" "short v"
    "in_int64 (off + int (length v))"
  shows "does e s c (setrangeCommand e s c) (spec_setrange k off v (tview s))"
proof -
  note strs = args_strs [OF assms(1)]
  have k: "arg_key c 1 = Inr k" using arg_key_ok [OF assms(1), of 1] by simp
  obtain p where p: "arg c 2 = Inr p" "str_obj p" "obj_text p = x" using arg_ok [OF assms(1), of 2] by auto
  obtain u where u: "arg_sds c 3 = Inr u" "sds_ok u" "sdsval u = v" using arg_ok [OF assms(1), of 3] by auto
  have lu: "sdslen u = length v" using length_sdsval [OF u(2)] u(3) by simp
  have g: "getLongFromObjectOrReply e c (Some p) None = Inr (Some off, c)" using get_long [OF assms(4) strs p(2)] p(3) assms(6) by simp
  have ar: "range_args e c k off u" using u(1) k p(1) g by (simp add: range_args_def)
  note start = setrangeCommand_def u(1) p(1) g rbind_simps prod.case option.case k
  show ?thesis
  proof (cases "off < 0")
    case True
    obtain c1 where c1: "addReplyError e c ''offset is out of range'' = Inr c1" "answers e (err_text ''offset is out of range'') c c1"
      using err_answer [OF assms(4) strs, of "''offset is out of range''"] by auto
    have "setrangeCommand e s c = Inr (s, c1)" unfolding start using True c1(1) by simp
    from read_doesI [OF this _ c1(2)] assms(2) True show ?thesis by (simp add: goes_def spec_setrange_def)
  next
    case False
    have stop: "does e s c (setrangeCommand e s c) (spec_setrange k off v (tview s))"
      if "setrange_target e s c k off (sdslen u) = Inr (None, s1, c1)" "goes s s1 0 (tview s) 0" "answers e t c c1"
        "spec_setrange k off v (tview s) = (tview s, t, 0)" for s1 c1 t
    proof -
      have "setrangeCommand e s c = Inr (s1, c1)" unfolding start that(1) using False by simp
      from read_doesI [OF this that(2-4)] show ?thesis .
    qed
    obtain c2 where c2: "checkStringLength e c (to_int64 (off + int (length v))) = Inr (off + int (length v) \<le> 512 * 1024 * 1024, c2)"
      "if off + int (length v) \<le> 512 * 1024 * 1024 then c2 = c else appends e 4 (err_text too_long) c c2"
      using check_length [OF assms(4,8)] by blast
    from assms(2,4) strs show ?thesis
    proof (cases rule: write_target [where k = k])
      case (none s1)
      show ?thesis
      proof (cases "v = []")
        case True
        obtain c1 where c1: "addReplyShared e c shared_czero = Inr c1" "appends e 4 shared_czero c c1"
          using reply_shared [OF assms(4)] reply_text_shared by blast
        show ?thesis by (rule stop [OF _ none(2) answersI [OF c1(2) strs]])
          (use none c1(1) False True lu in \<open>simp_all add: setrange_target_def spec_setrange_def Let_def\<close>)
      next
        case ne: False
        show ?thesis
        proof (cases "off + int (length v) \<le> 512 * 1024 * 1024")
          case big: False
          then show ?thesis by (intro stop [OF _ none(2) answersI [OF _ strs, of _ "err_text too_long" c2]])
            (use none c2 False ne lu in \<open>simp_all add: setrange_target_def spec_setrange_def Let_def\<close>)
        next
          case fits: True
          have "does e s c (setrangeCommand e s c) (spec_setrange k off (sdsval u) (tview s))"
            by (rule setrange_new [OF none assms(3) ar _ _ assms(4) strs u(2)]) (use False ne fits c2 lu in simp_all)
          then show ?thesis using u(3) by simp
        qed
      qed
    next
      case (other s1 o' c1 w z)
      show ?thesis by (rule stop [OF _ other(2,5)]) (use other False in \<open>simp_all add: setrange_target_def spec_setrange_def Let_def\<close>)
    next
      case (str s1 o')
      have sh: "short (obj_text o')" using assms(5) str(3) by (simp add: short_at_def)
      show ?thesis
      proof (cases "v = []")
        case True
        obtain c1 where c1: "addReplyLongLong e c (int (length (obj_text o'))) = Inr c1" "answers e (int_reply (int (length (obj_text o')))) c c1"
          using int_answer [OF assms(4) strs short_int64 [OF sh]] by blast
        show ?thesis by (rule stop [OF _ str(2) c1(2)])
          (use str c1(1) False True lu stringObjectLen_text [OF str(5)] in \<open>simp_all add: setrange_target_def spec_setrange_def Let_def\<close>)
      next
        case ne: False
        show ?thesis
        proof (cases "off + int (length v) \<le> 512 * 1024 * 1024")
          case big: False
          then show ?thesis by (intro stop [OF _ str(2) answersI [OF _ strs, of _ "err_text too_long" c2]])
            (use str c2 False ne lu stringObjectLen_text [OF str(5)] in \<open>simp_all add: setrange_target_def spec_setrange_def Let_def\<close>)
        next
          case fits: True
          have "does e s c (setrangeCommand e s c) (spec_setrange k off (sdsval u) (tview s))"
            by (rule setrange_over [OF str sh assms(3) ar _ _ assms(4) strs u(2)]) (use False ne fits c2 lu in simp_all)
          then show ?thesis using u(3) by simp
        qed
      qed
    qed
  qed
qed

end
