(* ===== verification/KeyCmd.thy ===== *)
theory KeyCmd
  imports TString SdsText
begin

text \<open>
  The commands of \<open>src/db.c\<close> that work on keys whatever their values: deleting, testing, renaming, sizes and
  types, expire times. The loop over the arguments of \<open>DEL\<close>, \<open>EXISTS\<close> and \<open>TOUCH\<close> counts the arguments that
  are left. \<open>mstime()\<close> is the clock of the state.
\<close>

section \<open>Deleting and testing\<close>

fun del_loop :: "server \<Rightarrow> client \<Rightarrow> nat \<Rightarrow> nat \<Rightarrow> int \<Rightarrow> (int \<times> server) res" where
  "del_loop s c j 0 deleted = Inr (deleted, s)"
| "del_loop s c j (Suc n) deleted =
     rbind (arg_key c j) (\<lambda>k.
     rbind (expireIfNeeded s k) (\<lambda>(_, s1).
     rbind (dbDelete s1 k) (\<lambda>(ok, s2).
     if ok then del_loop (dirtied (notifyKeyspaceEvent ''del'' (signalModifiedKey s2 k) k)) c (Suc j) n (deleted + 1)
     else del_loop s2 c (Suc j) n deleted)))"

definition delCommand :: "env \<Rightarrow> server \<Rightarrow> client \<Rightarrow> (server \<times> client) res" where
  "delCommand e s c =
     rbind (del_loop s c 1 (length (argv c) - 1) 0) (\<lambda>(deleted, s1).
     rbind (addReplyLongLong e c deleted) (\<lambda>c1. Inr (s1, c1)))"

fun exists_loop :: "server \<Rightarrow> client \<Rightarrow> nat \<Rightarrow> nat \<Rightarrow> int \<Rightarrow> (int \<times> server) res" where
  "exists_loop s c j 0 cnt = Inr (cnt, s)"
| "exists_loop s c j (Suc n) cnt =
     rbind (arg_key c j) (\<lambda>k.
     rbind (expireIfNeeded s k) (\<lambda>(_, s1).
     rbind (dbExists s1 k) (\<lambda>(found, s2).
     exists_loop s2 c (Suc j) n (if found then cnt + 1 else cnt))))"

definition existsCommand :: "env \<Rightarrow> server \<Rightarrow> client \<Rightarrow> (server \<times> client) res" where
  "existsCommand e s c =
     rbind (exists_loop s c 1 (length (argv c) - 1) 0) (\<lambda>(cnt, s1).
     rbind (addReplyLongLong e c cnt) (\<lambda>c1. Inr (s1, c1)))"

fun touch_loop :: "env \<Rightarrow> server \<Rightarrow> client \<Rightarrow> nat \<Rightarrow> nat \<Rightarrow> int \<Rightarrow> (int \<times> server) res" where
  "touch_loop e s c j 0 touched = Inr (touched, s)"
| "touch_loop e s c j (Suc n) touched =
     rbind (arg_key c j) (\<lambda>k.
     rbind (lookupKeyRead e s k) (\<lambda>(v, s1).
     touch_loop e s1 c (Suc j) n (if v \<noteq> None then touched + 1 else touched)))"

definition touchCommand :: "env \<Rightarrow> server \<Rightarrow> client \<Rightarrow> (server \<times> client) res" where
  "touchCommand e s c =
     rbind (touch_loop e s c 1 (length (argv c) - 1) 0) (\<lambda>(touched, s1).
     rbind (addReplyLongLong e c touched) (\<lambda>c1. Inr (s1, c1)))"

definition dbsizeCommand :: "env \<Rightarrow> server \<Rightarrow> client \<Rightarrow> (server \<times> client) res" where
  "dbsizeCommand e s c = rbind (addReplyLongLong e c (int (dictSize (kdict (db s))))) (\<lambda>c1. Inr (s, c1))"

definition type_name :: "robj option \<Rightarrow> string" where
  "type_name v =
     (case v of
        None \<Rightarrow> ''none''
      | Some o' \<Rightarrow>
          (case otype o' of
             OBJ_STRING \<Rightarrow> ''string'' | OBJ_LIST \<Rightarrow> ''list'' | OBJ_SET \<Rightarrow> ''set'' | OBJ_ZSET \<Rightarrow> ''zset'' | OBJ_HASH \<Rightarrow> ''hash''))"

definition typeCommand :: "env \<Rightarrow> server \<Rightarrow> client \<Rightarrow> (server \<times> client) res" where
  "typeCommand e s c =
     rbind (arg_key c 1) (\<lambda>k.
     rbind (lookupKeyReadWithFlags e s k True) (\<lambda>(v, s1).
     rbind (addReplyStatus e c (type_name v)) (\<lambda>c1. Inr (s1, c1))))"

section \<open>Renaming\<close>

text \<open>
  The reference \<open>incrRefCount\<close> takes before the object has two keys is the one \<open>dbDelete\<close> of the old key
  gives back; the object under the new key has the count it has in the end.
\<close>

definition renameGenericCommand :: "env \<Rightarrow> server \<Rightarrow> client \<Rightarrow> bool \<Rightarrow> (server \<times> client) res" where
  "renameGenericCommand e s c nx =
     rbind (arg_key c 1) (\<lambda>k1.
     rbind (arg_key c 2) (\<lambda>k2.
     let samekey = (sdscmp k1 k2 = 0) in
     rbind (lookupKeyWriteOrReply e s c k1 shared_nokeyerr) (\<lambda>(v, s1, c1).
     case v of
       None \<Rightarrow> Inr (s1, c1)
     | Some o' \<Rightarrow>
         if samekey then rbind (addReplyShared e c1 (if nx then shared_czero else shared_ok)) (\<lambda>c2. Inr (s1, c2))
         else
           rbind (getExpire s1 k1) (\<lambda>(expire, s2).
           rbind (lookupKeyWrite e s2 k2) (\<lambda>(w, s3).
           if w \<noteq> None \<and> nx then rbind (addReplyShared e c1 shared_czero) (\<lambda>c2. Inr (s3, c2))
           else
             rbind (if w \<noteq> None then rbind (dbDelete s3 k2) (\<lambda>(_, s4). Inr s4) else Inr s3) (\<lambda>s4.
             rbind (dbAdd s4 k2 o') (\<lambda>s5.
             rbind (if expire \<noteq> -1 then setExpire s5 k2 expire else Inr s5) (\<lambda>s6.
             rbind (dbDelete s6 k1) (\<lambda>(_, s7).
             let s8 = signalModifiedKey (signalModifiedKey s7 k1) k2;
                 s9 = dirtied (notifyKeyspaceEvent ''rename_to'' (notifyKeyspaceEvent ''rename_from'' s8 k1) k2) in
             rbind (addReplyShared e c1 (if nx then shared_cone else shared_ok)) (\<lambda>c2. Inr (s9, c2)))))))))))"

definition renameCommand :: "env \<Rightarrow> server \<Rightarrow> client \<Rightarrow> (server \<times> client) res" where
  "renameCommand e s c = renameGenericCommand e s c False"

definition renamenxCommand :: "env \<Rightarrow> server \<Rightarrow> client \<Rightarrow> (server \<times> client) res" where
  "renamenxCommand e s c = renameGenericCommand e s c True"

section \<open>Expire times\<close>

text \<open>\<open>rewriteClientCommandVector\<close> with the two arguments \<open>DEL\<close> and the key.\<close>

definition rewrite_as_del :: "env \<Rightarrow> client \<Rightarrow> client res" where
  "rewrite_as_del e c =
     rbind (arg c 1) (\<lambda>key.
     rbind (createStringObject (lruclock e) (Some ''DEL'') 3) (\<lambda>aux. Inr (c\<lparr>argv := [aux, key]\<rparr>)))"

definition expireGenericCommand :: "env \<Rightarrow> server \<Rightarrow> client \<Rightarrow> int \<Rightarrow> time_unit \<Rightarrow> (server \<times> client) res" where
  "expireGenericCommand e s c basetime unit =
     rbind (arg_key c 1) (\<lambda>k.
     rbind (arg c 2) (\<lambda>param.
     rbind (getLongLongFromObjectOrReply e c (Some param) None) (\<lambda>(v, c1).
     case v of
       None \<Rightarrow> Inr (s, c1)
     | Some n \<Rightarrow>
         rbind (if unit = UNIT_SECONDS then ck_int64 (n * 1000) else Inr n) (\<lambda>ms.
         rbind (ck_int64 (ms + basetime)) (\<lambda>when.
         rbind (lookupKeyWrite e s k) (\<lambda>(o', s1).
         if o' = None then rbind (addReplyShared e c1 shared_czero) (\<lambda>c2. Inr (s1, c2))
         else if when \<le> mstime s1 \<and> \<not> loading s1 \<and> \<not> is_slave s1 then
           rbind (dbDelete s1 k) (\<lambda>(ok, s2).
           rbind (rassert ok AssertFail) (\<lambda>_.
           rbind (rewrite_as_del e c1) (\<lambda>c2.
           let s3 = notifyKeyspaceEvent ''del'' (signalModifiedKey (dirtied s2) k) k in
           rbind (addReplyShared e c2 shared_cone) (\<lambda>c3. Inr (s3, c3)))))
         else
           rbind (setExpire s1 k when) (\<lambda>s2.
           rbind (addReplyShared e c1 shared_cone) (\<lambda>c2.
           Inr (dirtied (notifyKeyspaceEvent ''expire'' (signalModifiedKey s2 k) k), c2)))))))))"

definition expireCommand :: "env \<Rightarrow> server \<Rightarrow> client \<Rightarrow> (server \<times> client) res" where
  "expireCommand e s c = expireGenericCommand e s c (mstime s) UNIT_SECONDS"

definition expireatCommand :: "env \<Rightarrow> server \<Rightarrow> client \<Rightarrow> (server \<times> client) res" where
  "expireatCommand e s c = expireGenericCommand e s c 0 UNIT_SECONDS"

definition pexpireCommand :: "env \<Rightarrow> server \<Rightarrow> client \<Rightarrow> (server \<times> client) res" where
  "pexpireCommand e s c = expireGenericCommand e s c (mstime s) UNIT_MILLISECONDS"

definition pexpireatCommand :: "env \<Rightarrow> server \<Rightarrow> client \<Rightarrow> (server \<times> client) res" where
  "pexpireatCommand e s c = expireGenericCommand e s c 0 UNIT_MILLISECONDS"

definition ttlGenericCommand :: "env \<Rightarrow> server \<Rightarrow> client \<Rightarrow> bool \<Rightarrow> (server \<times> client) res" where
  "ttlGenericCommand e s c output_ms =
     rbind (arg_key c 1) (\<lambda>k.
     rbind (lookupKeyReadWithFlags e s k True) (\<lambda>(v, s1).
     if v = None then rbind (addReplyLongLong e c (-2)) (\<lambda>c1. Inr (s1, c1))
     else
       rbind (getExpire s1 k) (\<lambda>(expire, s2).
       rbind (if expire \<noteq> -1 then rbind (ck_int64 (expire - mstime s2)) (\<lambda>t. Inr (if t < 0 then 0 else t)) else Inr (-1)) (\<lambda>ttl.
       if ttl = -1 then rbind (addReplyLongLong e c (-1)) (\<lambda>c1. Inr (s2, c1))
       else
         rbind (if output_ms then Inr ttl else rbind (ck_int64 (ttl + 500)) (\<lambda>t. Inr (t div 1000))) (\<lambda>n.
         rbind (addReplyLongLong e c n) (\<lambda>c1. Inr (s2, c1)))))))"

definition ttlCommand :: "env \<Rightarrow> server \<Rightarrow> client \<Rightarrow> (server \<times> client) res" where
  "ttlCommand e s c = ttlGenericCommand e s c False"

definition pttlCommand :: "env \<Rightarrow> server \<Rightarrow> client \<Rightarrow> (server \<times> client) res" where
  "pttlCommand e s c = ttlGenericCommand e s c True"

definition persistCommand :: "env \<Rightarrow> server \<Rightarrow> client \<Rightarrow> (server \<times> client) res" where
  "persistCommand e s c =
     rbind (arg_key c 1) (\<lambda>k.
     rbind (find_key s k) (\<lambda>(v, s1).
     if v = None then rbind (addReplyShared e c shared_czero) (\<lambda>c1. Inr (s1, c1))
     else
       rbind (removeExpire s1 k) (\<lambda>(removed, s2).
       if removed then rbind (addReplyShared e c shared_cone) (\<lambda>c1. Inr (dirtied s2, c1))
       else rbind (addReplyShared e c shared_czero) (\<lambda>c1. Inr (s2, c1)))))"

end
