(* ===== verification/KeyCmdOk.thy ===== *)
theory KeyCmdOk
  imports TStringOk KeyCmd
begin

text \<open>
  The key commands of \<open>src/db.c\<close> against the view of the keyspace. A key whose time has passed is absent from
  the view, whether or not it has been deleted yet.
\<close>

section \<open>The specification of the commands\<close>

definition spec_del :: "string list \<Rightarrow> kview \<Rightarrow> kview \<times> string \<times> int" where
  "spec_del ks m = (let n = int (card (set ks \<inter> dom m)) in (m |` (- set ks), int_reply n, n))"

definition spec_exists :: "string list \<Rightarrow> kview \<Rightarrow> kview \<times> string \<times> int" where
  "spec_exists ks m = (m, int_reply (int (length (filter (\<lambda>k. m k \<noteq> None) ks))), 0)"

definition spec_expire :: "int \<Rightarrow> string \<Rightarrow> int \<Rightarrow> kview \<Rightarrow> kview \<times> string \<times> int" where
  "spec_expire now k when m =
     (case m k of
        None \<Rightarrow> (m, shared_czero, 0)
      | Some (v, _) \<Rightarrow> (if when \<le> now then m(k := None) else m(k \<mapsto> (v, Some when)), shared_cone, 1))"

definition spec_pttl :: "int \<Rightarrow> string \<Rightarrow> kview \<Rightarrow> kview \<times> string \<times> int" where
  "spec_pttl now k m =
     (m, int_reply (case m k of None \<Rightarrow> -2 | Some (_, None) \<Rightarrow> -1 | Some (_, Some w) \<Rightarrow> w - now), 0)"

definition spec_persist :: "string \<Rightarrow> kview \<Rightarrow> kview \<times> string \<times> int" where
  "spec_persist k m =
     (case m k of
        Some (v, Some _) \<Rightarrow> (m(k \<mapsto> (v, None)), shared_cone, 1)
      | _ \<Rightarrow> (m, shared_czero, 0))"

definition spec_rename :: "bool \<Rightarrow> string \<Rightarrow> string \<Rightarrow> kview \<Rightarrow> kview \<times> string \<times> int" where
  "spec_rename nx k1 k2 m =
     (case m k1 of
        None \<Rightarrow> (m, shared_nokeyerr, 0)
      | Some x \<Rightarrow>
          if k1 = k2 \<or> nx \<and> m k2 \<noteq> None
          then (m, if nx then shared_czero else shared_ok, 0)
          else (m(k2 \<mapsto> x, k1 := None), if nx then shared_cone else shared_ok, 1))"

section \<open>Steps\<close>

lemma goes_comp: "goes s s1 n m d \<Longrightarrow> goes s1 s2 n' m' d' \<Longrightarrow> goes s s2 (n + n') m' (d + d')"
  by (simp add: goes_def add.assoc)

lemma tview_settled: "\<not> gone s k \<Longrightarrow> tview s k = map_option (\<lambda>v. (aval v, kexp s k)) (kmap s k)"
  by (cases "kmap s k") (simp_all add: tview_def view_def)

lemma expire_goes:
  assumes "db_ok s"
  shows "\<exists>s1. expireIfNeeded s k = Inr (expired s k, s1) \<and> goes s s1 0 (tview s) 0 \<and> \<not> gone s1 k"
proof -
  obtain s1 where s1: "expireIfNeeded s k = Inr (expired s k, s1)"
    "leaves s s1 (if gone s k then (kmap s)(k := None) else kmap s) (if gone s k then (kexp s)(k := None) else kexp s) (expiry_notices s k)"
    using expireIfNeeded_ok [OF assms] by blast
  note l = leavesD [OF s1(2)]
  have "view s1 = view s" by (rule view_leaves [OF s1(2)]) auto
  then have "tview s1 = tview s" by (rule tview_cong)
  moreover have "room_for n s1" if "room_for n s" for n
    using room_mono [OF assms l(1) _ that] l(3) by (auto split: if_splits)
  ultimately have "goes s s1 0 (tview s) 0" using l by (simp add: goes_def)
  moreover have "\<not> gone s1 k"
  proof (cases "gone s k")
    case True
    then show ?thesis using l(4) by simp
  next
    case False
    then show ?thesis using gone_cong(2) [OF l(2), of k] l(4) by simp
  qed
  ultimately show ?thesis using s1(1) by blast
qed

lemma delete_goes:
  assumes "db_ok s" "\<not> gone s k"
  shows "\<exists>s1. dbDelete s k = Inr (tview s k \<noteq> None, s1) \<and> goes s s1 0 ((tview s)(k := None)) 0"
proof -
  obtain s1 ns where s1: "dbDelete s k = Inr (kmap s k \<noteq> None, s1)" "leaves s s1 ((kmap s)(k := None)) ((kexp s)(k := None)) ns"
    using dbDelete_ok [OF assms(1)] by blast
  note l = leavesD [OF s1(2)]
  have "view s1 j = ((view s)(k := None)) j" for j
  proof (cases "j = k")
    case False
    then have "gone s1 j = gone s j" using l by (intro gone_cong(2)) simp_all
    then show ?thesis using False l(3,4) by (simp add: view_def)
  qed (use l(3) in \<open>simp add: view_def\<close>)
  then have "view s1 = (view s)(k := None)" by blast
  then have "tview s1 = (tview s)(k := None)" by (simp add: tview_def fun_eq_iff)
  moreover have "room_for n s1" if "room_for n s" for n using room_mono [OF assms(1) l(1) _ that] l(3) by auto
  ultimately show ?thesis using s1(1) l tview_settled [OF assms(2)] by (simp add: goes_def)
qed

lemma find_goes:
  assumes "db_ok s"
  shows "\<exists>s1. find_key s k = Inr (kmap s k, s1) \<and> goes s s1 0 (tview s) 0 \<and> kmap s1 = kmap s \<and> kexp s1 = kexp s"
proof -
  obtain s1 where s1: "find_key s k = Inr (kmap s k, s1)" "leaves s s1 (kmap s) (kexp s) []" using find_key_ok [OF assms] by blast
  note l = leavesD [OF s1(2)]
  have "view s1 = view s" by (rule view_leaves [OF s1(2)]) auto
  then have "tview s1 = tview s" by (rule tview_cong)
  moreover have "room_for n s1" if "room_for n s" for n using room_mono [OF assms l(1) _ that] l(3) by simp
  ultimately show ?thesis using s1(1) l by (simp add: goes_def)
qed

section \<open>DEL and EXISTS\<close>

lemma arg_keys:
  assumes "args_are c (ts @ us)"
  shows "i < length us \<Longrightarrow> arg_key c (length ts + i) = Inr (us ! i)"
  using arg_key_ok [OF assms, of "length ts + i"] by (simp add: nth_append)

lemma del_loop_ok:
  assumes "args_are c (ts @ ks)" "db_ok s"
  shows "\<exists>s1. del_loop s c (length ts) (length ks) n = Inr (n + int (card (set ks \<inter> dom (tview s))), s1) \<and>
    goes s s1 0 (tview s |` (- set ks)) (int (card (set ks \<inter> dom (tview s))))"
  using assms
proof (induction ks arbitrary: ts s n)
  case Nil
  then show ?case by (simp add: goes_def)
next
  case (Cons k ks)
  have k: "arg_key c (length ts) = Inr k" using arg_keys [OF Cons.prems(1), of 0] by simp
  obtain b s1 where s1: "expireIfNeeded s k = Inr (b, s1)" "goes s s1 0 (tview s) 0" "\<not> gone s1 k"
    using expire_goes [OF Cons.prems(2)] by blast
  obtain s2 where s2: "dbDelete s1 k = Inr (tview s k \<noteq> None, s2)" "goes s1 s2 0 ((tview s)(k := None)) 0"
    using delete_goes [OF goesD(1) [OF s1(2)] s1(3)] goesD(2) [OF s1(2)] by auto
  have g2: "goes s s2 0 ((tview s)(k := None)) 0" using goes_trans [OF s1(2) s2(2)] .
  define s3 where "s3 = (if tview s k \<noteq> None then dirtied (notifyKeyspaceEvent ''del'' (signalModifiedKey s2 k) k) else s2)"
  define d :: int where "d = (if tview s k \<noteq> None then 1 else 0)"
  have g3: "goes s s3 0 ((tview s)(k := None)) d" using g2 by (simp add: s3_def d_def)
  have ok3: "db_ok s3" "tview s3 = (tview s)(k := None)" using g3 by (simp_all add: goes_def)
  have a: "args_are c ((ts @ [k]) @ ks)" using Cons.prems(1) by simp
  have card: "d + int (card (set ks \<inter> dom (tview s3))) = int (card (set (k # ks) \<inter> dom (tview s)))"
  proof (cases "tview s k")
    case None
    then have "set (k # ks) \<inter> dom (tview s) = set ks \<inter> dom (tview s3)" using ok3(2) by auto
    then show ?thesis using None by (simp add: d_def)
  next
    case (Some x)
    then have "set (k # ks) \<inter> dom (tview s) = insert k (set ks \<inter> dom (tview s3))" "k \<notin> set ks \<inter> dom (tview s3)"
      using ok3(2) by auto
    then show ?thesis using Some by (simp add: d_def)
  qed
  have restr: "tview s3 |` (- set ks) = tview s |` (- set (k # ks))" using ok3(2) by (auto simp: restrict_map_def fun_eq_iff)
  obtain s4 where s4: "del_loop s3 c (length (ts @ [k])) (length ks) (n + d) =
      Inr (n + d + int (card (set ks \<inter> dom (tview s3))), s4)"
    "goes s3 s4 0 (tview s3 |` (- set ks)) (int (card (set ks \<inter> dom (tview s3))))" using Cons.IH [OF a ok3(1)] by blast
  have st: "del_loop s c (length ts) (length (k # ks)) n = del_loop s3 c (length (ts @ [k])) (length ks) (n + d)"
    using k s1(1) s2(1) by (simp add: s3_def d_def)
  have "goes s s4 0 (tview s |` (- set (k # ks))) (int (card (set (k # ks) \<inter> dom (tview s))))"
    using goes_comp [OF g3 s4(2)] unfolding restr card by simp
  with s4(1) show ?case unfolding st add.assoc card by blast
qed

lemma delCommand_ok:
  assumes "args_are c (nm # ks)" "db_ok s" "ready e c" "length ks < 2 ^ 63"
  shows "does e s c (delCommand e s c) (spec_del ks (tview s))"
proof -
  let ?n = "int (card (set ks \<inter> dom (tview s)))"
  obtain s1 where s1: "del_loop s c 1 (length ks) 0 = Inr (?n, s1)" "goes s s1 0 (tview s |` (- set ks)) ?n"
    using del_loop_ok [OF _ assms(2), of c "[nm]" ks 0] assms(1) by auto
  have "card (set ks \<inter> dom (tview s)) \<le> card (set ks)" by (intro card_mono) auto
  then have "card (set ks \<inter> dom (tview s)) < 2 ^ 63" using card_length [of ks] assms(4) by linarith
  then have "in_int64 ?n" by (simp add: in_int64_def)
  then obtain c1 where c1: "addReplyLongLong e c ?n = Inr c1" "answers e (int_reply ?n) c c1"
    using int_answer [OF assms(3) args_strs [OF assms(1)]] by blast
  have "delCommand e s c = Inr (s1, c1)" using s1(1) c1(1) args_len [OF assms(1)] by (simp add: delCommand_def)
  then show ?thesis by (rule doesI [OF _ goes_less [OF s1(2)] c1(2)]) (simp add: spec_del_def Let_def)
qed

lemma exists_loop_ok:
  assumes "args_are c (ts @ ks)" "db_ok s" "\<not> is_slave s"
  shows "\<exists>s1. exists_loop s c (length ts) (length ks) n = Inr (n + int (length (filter (\<lambda>k. tview s k \<noteq> None) ks)), s1) \<and>
    goes s s1 0 (tview s) 0"
  using assms
proof (induction ks arbitrary: ts s n)
  case Nil
  then show ?case by (simp add: goes_def)
next
  case (Cons k ks)
  have k: "arg_key c (length ts) = Inr k" using arg_keys [OF Cons.prems(1), of 0] by simp
  obtain b s1 where s1: "expireIfNeeded s k = Inr (b, s1)" "goes s s1 0 (tview s) 0" "\<not> gone s1 k"
    using expire_goes [OF Cons.prems(2)] by blast
  obtain s2 where s2: "find_key s1 k = Inr (kmap s1 k, s2)" "goes s1 s2 0 (tview s1) 0" using find_goes [OF goesD(1) [OF s1(2)]] by blast
  have f: "(kmap s1 k \<noteq> None) = (tview s k \<noteq> None)" using tview_settled [OF s1(3)] goesD(2) [OF s1(2)] by simp
  have g: "goes s s2 0 (tview s) 0" using goes_trans [OF s1(2) s2(2)] goesD(2) [OF s1(2)] by simp
  have a: "args_are c ((ts @ [k]) @ ks)" using Cons.prems(1) by simp
  have sl: "\<not> is_slave s2" using Cons.prems(3) cfg_fields [OF goesD(4) [OF g]] by simp
  let ?d = "if tview s k \<noteq> None then n + 1 else n"
  obtain s3 where s3: "exists_loop s2 c (length (ts @ [k])) (length ks) ?d =
      Inr (?d + int (length (filter (\<lambda>k. tview s2 k \<noteq> None) ks)), s3)" "goes s2 s3 0 (tview s2) 0"
    using Cons.IH [OF a goesD(1) [OF g] sl] by blast
  have st: "exists_loop s c (length ts) (length (k # ks)) n = exists_loop s2 c (length (ts @ [k])) (length ks) ?d"
    using k s1(1) s2(1) f by (simp add: dbExists_def)
  have num: "?d + int (length (filter (\<lambda>k. tview s2 k \<noteq> None) ks)) = n + int (length (filter (\<lambda>k. tview s k \<noteq> None) (k # ks)))"
    using goesD(2) [OF g] by simp
  have "goes s s3 0 (tview s) 0" using goes_trans [OF g s3(2)] goesD(2) [OF g] by simp
  with s3(1) show ?case unfolding st num by blast
qed

lemma existsCommand_ok:
  assumes "args_are c (nm # ks)" "db_ok s" "\<not> is_slave s" "ready e c" "length ks < 2 ^ 63"
  shows "does e s c (existsCommand e s c) (spec_exists ks (tview s))"
proof -
  let ?n = "int (length (filter (\<lambda>k. tview s k \<noteq> None) ks))"
  obtain s1 where s1: "exists_loop s c 1 (length ks) 0 = Inr (?n, s1)" "goes s s1 0 (tview s) 0"
    using exists_loop_ok [OF _ assms(2,3), of c "[nm]" ks 0] assms(1) by auto
  have "length (filter (\<lambda>k. tview s k \<noteq> None) ks) < 2 ^ 63" using length_filter_le [of "\<lambda>k. tview s k \<noteq> None" ks] assms(5) by linarith
  then have "in_int64 ?n" by (simp add: in_int64_def)
  then obtain c1 where c1: "addReplyLongLong e c ?n = Inr c1" "answers e (int_reply ?n) c c1"
    using int_answer [OF assms(4) args_strs [OF assms(1)]] by blast
  have "existsCommand e s c = Inr (s1, c1)" using s1(1) c1(1) args_len [OF assms(1)] by (simp add: existsCommand_def)
  then show ?thesis by (rule read_doesI [OF _ s1(2) c1(2)]) (simp add: spec_exists_def)
qed

section \<open>Expire times\<close>

lemma lookup_goes:
  assumes "db_ok s"
  shows "\<exists>v s1. lookupKeyWrite e s k = Inr (v, s1) \<and> goes s s1 0 (tview s) 0 \<and> kmap s1 k = v \<and> \<not> gone s1 k \<and>
    (v = None \<longrightarrow> kexp s1 k = None)"
proof -
  obtain v s1 where s1: "lookupKeyWrite e s k = Inr (v, s1)" "db_ok s1" "cfg s1 = cfg s" "dirty s1 = dirty s" "view s1 = view s"
    "kmap s1 k = v" "\<not> gone s1 k" "tview s k = map_option (\<lambda>o'. (aval o', kexp s1 k)) v" "\<And>o'. v = Some o' \<Longrightarrow> typed_obj o'"
    "\<And>n. room_for n s \<Longrightarrow> room_for n s1" "v = None \<Longrightarrow> kexp s1 k = None"
    by (rule lookupW [OF assms, of e k]) (rule that)
  have "goes s s1 0 (tview s) 0" using s1(2-4,10) tview_cong [OF s1(5)] by (simp add: goes_def)
  with s1(1,6,7,11) show ?thesis by (intro exI [of _ v] exI [of _ s1]) simp
qed

lemma now_of_cong: "cfg s' = cfg s \<Longrightarrow> now_of s' = now_of s"
proof -
  assume "cfg s' = cfg s"
  from cfg_fields(3,4) [OF this] show ?thesis unfolding now_of_def by (simp only:)
qed

lemma set_expire_goes:
  assumes "db_ok s" "kmap s k = Some v" "\<not> gone s k" "in_int64 w" "room_for 0 s" "now_of s \<le> w"
  shows "\<exists>s1. setExpire s k w = Inr s1 \<and> goes s s1 0 ((tview s)(k \<mapsto> (aval v, Some w))) 0"
proof -
  obtain s1 where s1: "setExpire s k w = Inr s1" "leaves s s1 (kmap s) ((kexp s)(k \<mapsto> w)) []"
    using setExpire_ok [OF assms(1) _ assms(4,5)] assms(2) by blast
  note l = leavesD [OF s1(2)]
  have "now_of s1 = now_of s" by (rule now_of_cong [OF l(2)])
  then have g: "\<not> gone s1 k" using l(4) assms(6) by (simp add: gone_def expired_def)
  have "leaves s s1 ((kmap s)(k \<mapsto> v)) ((kexp s)(k \<mapsto> w)) []" using s1(2) assms(2) by (simp add: map_upd_triv)
  from view_upd [OF this _ g] have "view s1 = (view s)(k \<mapsto> (no_lru v, Some w))" by simp
  from tview_upd [OF this] have "tview s1 = (tview s)(k \<mapsto> (aval v, Some w))" .
  moreover have "room_for n s1" if "room_for n s" for n using room_mono [OF assms(1) l(1) _ that] l(3) by simp
  ultimately show ?thesis using s1(1) l by (simp add: goes_def)
qed

lemma shared_answer:
  assumes "ready e c" "list_all str_obj (argv c)" "reply_text t"
  shows "\<exists>c'. addReplyShared e c t = Inr c' \<and> answers e t c c'"
  using reply_shared [OF assms(1,3)] answersI [OF _ assms(2)] by blast

lemma rewrite_as_del_ok:
  assumes "args_are c (nm # k # ts)"
  shows "\<exists>a. rewrite_as_del e c = Inr (c\<lparr>argv := a\<rparr>) \<and> list_all str_obj a"
proof -
  obtain p where p: "arg c 1 = Inr p" "str_obj p" using arg_ok [OF assms, of 1] by auto
  obtain q where q: "createStringObject (lruclock e) (Some ''DEL'') 3 = Inr q" "str_obj q"
    using createStringObject_ok [of 3 "''DEL''" "lruclock e"] by auto
  show ?thesis by (rule exI [of _ "[q, p]"]) (use p q in \<open>simp add: rewrite_as_del_def\<close>)
qed

lemma expireGeneric_ok:
  assumes "args_are c [nm, k, x]" "db_ok s" "room_for 1 s" "ready e c" "\<not> is_slave s" "\<not> loading s" "now_of s \<le> mstime s"
    and "string2ll x = Some n" "(if unit = UNIT_SECONDS then ck_int64 (n * 1000) else Inr n) = Inr ms" "in_int64 (ms + base)"
  shows "does e s c (expireGenericCommand e s c base unit) (spec_expire (mstime s) k (ms + base) (tview s))"
proof -
  note strs = args_strs [OF assms(1)]
  have k: "arg_key c 1 = Inr k" using arg_key_ok [OF assms(1), of 1] by simp
  obtain p where p: "arg c 2 = Inr p" "str_obj p" "obj_text p = x" using arg_ok [OF assms(1), of 2] by auto
  have g: "getLongLongFromObjectOrReply e c (Some p) None = Inr (Some n, c)" using get_ll [OF assms(4) strs, of "Some p"] p assms(8) by auto
  obtain v s1 where s1: "lookupKeyWrite e s k = Inr (v, s1)" "goes s s1 0 (tview s) 0" "kmap s1 k = v" "\<not> gone s1 k"
    using lookup_goes [OF assms(2)] by blast
  note start = expireGenericCommand_def k p(1) g rbind_simps prod.case option.case assms(9) ck_int64_id [OF assms(10)] s1(1)
  have cf: "mstime s1 = mstime s" "loading s1 = loading s" "is_slave s1 = is_slave s" "now_of s1 = now_of s"
    using cfg_fields [OF goesD(4) [OF s1(2)]] now_of_cong [OF goesD(4) [OF s1(2)]] by simp_all
  have tv: "tview s k = map_option (\<lambda>v. (aval v, kexp s1 k)) v" using tview_settled [OF s1(4)] goesD(2) [OF s1(2)] s1(3) by simp
  show ?thesis
  proof (cases v)
    case None
    obtain c1 where c1: "addReplyShared e c shared_czero = Inr c1" "answers e shared_czero c c1" using shared_answer [OF assms(4) strs] by force
    have "expireGenericCommand e s c base unit = Inr (s1, c1)" unfolding start using None c1(1) by simp
    then show ?thesis by (rule read_doesI [OF _ s1(2) c1(2)]) (use tv None in \<open>simp add: spec_expire_def\<close>)
  next
    case (Some o')
    show ?thesis
    proof (cases "ms + base \<le> mstime s")
      case True
      obtain s2 where s2: "dbDelete s1 k = Inr (True, s2)" "goes s1 s2 0 ((tview s)(k := None)) 0"
        using delete_goes [OF goesD(1) [OF s1(2)] s1(4)] goesD(2) [OF s1(2)] tv Some by auto
      obtain a where a: "rewrite_as_del e c = Inr (c\<lparr>argv := a\<rparr>)" "list_all str_obj a" using rewrite_as_del_ok [OF assms(1)] by blast
      obtain c1 where c1: "addReplyShared e (c\<lparr>argv := a\<rparr>) shared_cone = Inr c1" "answers e shared_cone (c\<lparr>argv := a\<rparr>) c1"
        using shared_answer [of e "c\<lparr>argv := a\<rparr>" shared_cone] assms(4) a(2) by force
      let ?s3 = "notifyKeyspaceEvent ''del'' (signalModifiedKey (dirtied s2) k) k"
      have "expireGenericCommand e s c base unit = Inr (?s3, c1)"
        unfolding start using True Some cf assms(5,6) s2(1) a(1) c1(1) by simp
      then show ?thesis
        by (rule doesI [OF _ _ c1(2) [unfolded answers_argv]])
          (use goes_less [OF goes_trans [OF s1(2) s2(2)]] tv Some True in \<open>simp_all add: spec_expire_def\<close>)
    next
      case False
      have "room_for 0 s1" using goesD(3) [OF s1(2), of 0] room_less [of 1 0] assms(3) by simp
      then obtain s2 where s2: "setExpire s1 k (ms + base) = Inr s2" "goes s1 s2 0 ((tview s)(k \<mapsto> (aval o', Some (ms + base)))) 0"
        using set_expire_goes [OF goesD(1) [OF s1(2)] _ s1(4) assms(10), of o'] s1(3) Some False assms(7) cf goesD(2) [OF s1(2)] by auto
      obtain c1 where c1: "addReplyShared e c shared_cone = Inr c1" "answers e shared_cone c c1" using shared_answer [OF assms(4) strs] by force
      let ?s3 = "dirtied (notifyKeyspaceEvent ''expire'' (signalModifiedKey s2 k) k)"
      have "expireGenericCommand e s c base unit = Inr (?s3, c1)" unfolding start using False Some cf s2(1) c1(1) by simp
      then show ?thesis
        by (rule doesI [OF _ _ c1(2)]) (use goes_less [OF goes_trans [OF s1(2) s2(2)]] tv Some False in \<open>simp_all add: spec_expire_def\<close>)
    qed
  qed
qed

lemma persistCommand_ok:
  assumes "args_are c [nm, k]" "db_ok s" "ready e c" "\<not> gone s k"
  shows "does e s c (persistCommand e s c) (spec_persist k (tview s))"
proof -
  note strs = args_strs [OF assms(1)]
  have k: "arg_key c 1 = Inr k" using arg_key_ok [OF assms(1), of 1] by simp
  obtain s1 where s1: "find_key s k = Inr (kmap s k, s1)" "goes s s1 0 (tview s) 0" "kmap s1 = kmap s" "kexp s1 = kexp s"
    using find_goes [OF assms(2)] by blast
  note tv = tview_settled [OF assms(4)]
  obtain c0 where c0: "addReplyShared e c shared_czero = Inr c0" "answers e shared_czero c c0" using shared_answer [OF assms(3) strs] by force
  show ?thesis
  proof (cases "kmap s k")
    case None
    have "persistCommand e s c = Inr (s1, c0)" using k s1(1) None c0(1) by (simp add: persistCommand_def)
    then show ?thesis by (rule read_doesI [OF _ s1(2) c0(2)]) (use tv None in \<open>simp add: spec_persist_def\<close>)
  next
    case (Some v)
    obtain s2 where s2: "removeExpire s1 k = Inr (kexp s k \<noteq> None, s2)" "leaves s1 s2 (kmap s) ((kexp s)(k := None)) []"
      using removeExpire_ok [OF goesD(1) [OF s1(2)]] s1(3,4) Some by fastforce
    note l = leavesD [OF s2(2)]
    have g: "\<not> gone s2 k" using l(4) by simp
    have "leaves s1 s2 ((kmap s1)(k \<mapsto> v)) ((kexp s1)(k := None)) []" using s2(2) s1(3,4) Some by (simp add: map_upd_triv)
    from view_upd [OF this _ g] have "view s2 = (view s1)(k \<mapsto> (no_lru v, None))" by simp
    from tview_upd [OF this] have "tview s2 = (tview s)(k \<mapsto> (aval v, None))" using goesD(2) [OF s1(2)] by simp
    moreover have "room_for n s2" if "room_for n s1" for n using room_mono [OF goesD(1) [OF s1(2)] l(1) _ that] l(3) s1(3) by simp
    ultimately have "goes s1 s2 0 ((tview s)(k \<mapsto> (aval v, None))) 0" using l by (simp add: goes_def)
    from goes_trans [OF s1(2) this] have g2: "goes s s2 0 ((tview s)(k \<mapsto> (aval v, None))) 0" .
    show ?thesis
    proof (cases "kexp s k")
      case none: None
      then have same: "(tview s)(k \<mapsto> (aval v, None)) = tview s" using tv Some by (simp add: map_upd_triv)
      have "persistCommand e s c = Inr (s2, c0)" using k s1(1) Some s2(1) none c0(1) by (simp add: persistCommand_def)
      then show ?thesis by (rule read_doesI [OF _ g2 [unfolded same] c0(2)]) (use tv Some none in \<open>simp add: spec_persist_def\<close>)
    next
      case (Some w)
      obtain c1 where c1: "addReplyShared e c shared_cone = Inr c1" "answers e shared_cone c c1" using shared_answer [OF assms(3) strs] by force
      have "persistCommand e s c = Inr (dirtied s2, c1)"
        using k s1(1) \<open>kmap s k = Some v\<close> s2(1) Some c1(1) by (simp add: persistCommand_def)
      then show ?thesis
        by (rule doesI [OF _ _ c1(2)]) (use goes_less [OF g2] tv Some \<open>kmap s k = Some v\<close> in \<open>simp_all add: spec_persist_def\<close>)
    qed
  qed
qed

text \<open>The expire time of a key is one a running server sets: a time from now on.\<close>

definition future_at :: "server \<Rightarrow> string \<Rightarrow> bool" where
  "future_at s k \<longleftrightarrow> 0 \<le> mstime s \<and> (\<forall>v w. tview s k = Some (v, Some w) \<longrightarrow> mstime s \<le> w)"

lemma get_expire_goes:
  assumes "db_ok s"
  shows "\<exists>s1. getExpire s k = Inr (case kexp s k of None \<Rightarrow> -1 | Some w \<Rightarrow> w, s1) \<and> goes s s1 0 (tview s) 0"
proof -
  obtain s1 where s1: "getExpire s k = Inr (case kexp s k of None \<Rightarrow> -1 | Some w \<Rightarrow> w, s1)" "leaves s s1 (kmap s) (kexp s) []"
    using getExpire_ok [OF assms] by blast
  note l = leavesD [OF s1(2)]
  have "view s1 = view s" by (rule view_leaves [OF s1(2)]) auto
  then have "tview s1 = tview s" by (rule tview_cong)
  moreover have "room_for n s1" if "room_for n s" for n using room_mono [OF assms l(1) _ that] l(3) by simp
  ultimately show ?thesis using s1(1) l by (simp add: goes_def)
qed

lemma pttl_ok:
  assumes "args_are c [nm, k]" "db_ok s" "\<not> is_slave s" "ready e c" "future_at s k"
  shows "does e s c (pttlCommand e s c) (spec_pttl (mstime s) k (tview s))"
proof -
  note strs = args_strs [OF assms(1)]
  have k: "arg_key c 1 = Inr k" using arg_key_ok [OF assms(1), of 1] by simp
  obtain v s1 where s1: "lookupKeyReadWithFlags e s k True = Inr (v, s1)" "db_ok s1" "cfg s1 = cfg s" "dirty s1 = dirty s"
    "view s1 = view s" "map_option fst (tview s k) = map_option aval v" "\<And>o'. v = Some o' \<Longrightarrow> typed_obj o'"
    "\<And>n. room_for n s \<Longrightarrow> room_for n s1" by (rule lookupR [OF assms(2,3), of e k True]) (rule that)
  note tv = tview_cong [OF s1(5)]
  have g1: "goes s s1 0 (tview s) 0" using s1(2-4,8) tv by (simp add: goes_def)
  show ?thesis
  proof (cases v)
    case None
    obtain c1 where c1: "addReplyLongLong e c (-2) = Inr c1" "answers e (int_reply (-2)) c c1"
      using int_answer [OF assms(4) strs, of "-2"] by (auto simp: in_int64_def)
    have "pttlCommand e s c = Inr (s1, c1)" using k s1(1) None c1(1) by (simp add: pttlCommand_def ttlGenericCommand_def)
    then show ?thesis by (rule read_doesI [OF _ g1 c1(2)]) (use s1(6) None in \<open>simp add: spec_pttl_def\<close>)
  next
    case (Some o')
    obtain s2 where s2: "getExpire s1 k = Inr (case kexp s1 k of None \<Rightarrow> -1 | Some w \<Rightarrow> w, s2)" "goes s1 s2 0 (tview s1) 0"
      using get_expire_goes [OF s1(2)] by blast
    have g2: "goes s s2 0 (tview s) 0" using goes_trans [OF g1 s2(2)] unfolding tv .
    obtain x where x: "tview s k = Some (aval o', x)" using s1(6) Some by (cases "tview s k") auto
    then have "\<not> gone s1 k" using tv by (auto simp: tview_def view_def fun_eq_iff split: if_splits)
    then have x': "kexp s1 k = x" using x tv tview_settled [of s1 k] by (cases "kmap s1 k") auto
    have ms: "mstime s2 = mstime s" using cfg_fields(3) [OF goesD(4) [OF g2]] .
    define t where "t = (case x of None \<Rightarrow> -1 | Some w \<Rightarrow> w - mstime s)"
    have i: "in_int64 t"
    proof (cases x)
      case (Some w)
      then have "in_int64 w" using db_okD(5) [OF s1(2), of k] x' by auto
      then show ?thesis using assms(5) x Some by (auto simp: t_def future_at_def in_int64_def)
    qed (simp add: t_def in_int64_def)
    obtain c1 where c1: "addReplyLongLong e c t = Inr c1" "answers e (int_reply t) c c1" using int_answer [OF assms(4) strs i] by blast
    have "pttlCommand e s c = Inr (s2, c1)"
    proof (cases x)
      case none: None
      then show ?thesis using k s1(1) \<open>v = Some o'\<close> s2(1) x' c1(1) by (simp add: pttlCommand_def ttlGenericCommand_def t_def)
    next
      case w: (Some w)
      then have "mstime s \<le> w" "0 \<le> mstime s" using assms(5) x by (auto simp: future_at_def)
      then show ?thesis using w k s1(1) \<open>v = Some o'\<close> s2(1) x' c1(1) i ms
        by (simp add: pttlCommand_def ttlGenericCommand_def t_def ck_int64_id)
    qed
    then show ?thesis
      by (rule read_doesI [OF _ g2 c1(2)]) (use x in \<open>simp add: spec_pttl_def t_def split: option.split\<close>)
  qed
qed

section \<open>RENAME\<close>

lemma view_not_gone: "tview s k = Some x \<Longrightarrow> \<not> gone s k"
  by (auto simp: tview_def view_def)

lemma add_typed_goes:
  assumes "db_ok s" "kmap s k = None" "kexp s k = None" "typed_obj v" "room_for 1 s"
  shows "\<exists>s1. dbAdd s k v = Inr s1 \<and> goes s s1 1 ((tview s)(k \<mapsto> (aval v, None))) 0 \<and> kmap s1 k = Some v"
proof -
  obtain s1 where s1: "dbAdd s k v = Inr s1" "leaves s s1 ((kmap s)(k \<mapsto> v)) (kexp s) (add_notices s k v)"
    using dbAdd_ok [OF assms(1,2,4,5)] by blast
  note l = leavesD [OF s1(2)]
  have "\<not> gone s1 k" using l(4) assms(3) by simp
  from view_upd [OF s1(2) refl this] have "view s1 = (view s)(k \<mapsto> (no_lru v, None))" using assms(3) by simp
  from tview_upd [OF this] have "tview s1 = (tview s)(k \<mapsto> (aval v, None))" .
  moreover have "room_for n s1" if "room_for (1 + n) s" for n
    using room_insert [OF assms(1) l(1) _ that, of k] l(3) by auto
  ultimately show ?thesis using s1(1) l by (simp add: goes_def)
qed

text \<open>The target of \<open>RENAME\<close> after its old value is gone.\<close>

lemma clear_target:
  assumes "goes s s3 0 (tview s) 0" "kmap s3 k = w" "\<not> gone s3 k" "w = None \<longrightarrow> kexp s3 k = None"
  shows "\<exists>s4. (if w \<noteq> None then rbind (dbDelete s3 k) (\<lambda>(_, s4). Inr s4) else Inr s3) = Inr s4 \<and>
    goes s s4 0 ((tview s)(k := None)) 0 \<and> kmap s4 k = None \<and> kexp s4 k = None"
proof (cases w)
  case None
  then have "(tview s)(k := None) = tview s" using tview_settled [OF assms(3)] goesD(2) [OF assms(1)] assms(2) by (simp add: fun_upd_idem)
  then show ?thesis using None assms by simp
next
  case (Some v)
  note ok = goesD(1,2) [OF assms(1)]
  obtain s4 ns where s4: "dbDelete s3 k = Inr (kmap s3 k \<noteq> None, s4)" "leaves s3 s4 ((kmap s3)(k := None)) ((kexp s3)(k := None)) ns"
    using dbDelete_ok [OF ok(1)] by blast
  from delete_goes [OF ok(1) assms(3)] s4(1) have "goes s3 s4 0 ((tview s)(k := None)) 0" using ok(2) by auto
  from goes_trans [OF assms(1) this] show ?thesis using Some s4(1) leavesD(3,4) [OF s4(2)] by simp
qed

lemma move_key:
  assumes "goes s s4 0 ((tview s)(k2 := None)) 0" "kmap s4 k2 = None" "kexp s4 k2 = None" "typed_obj v" "room_for 1 s" "k1 \<noteq> k2"
    "tview s k1 = Some (aval v, x)" "x = None \<or> (\<exists>w. x = Some w \<and> w \<noteq> -1 \<and> in_int64 w \<and> now_of s \<le> w)"
  shows "\<exists>s7. rbind (dbAdd s4 k2 v) (\<lambda>s5.
      rbind (if (case x of None \<Rightarrow> -1 | Some w \<Rightarrow> w) \<noteq> -1 then setExpire s5 k2 (case x of None \<Rightarrow> -1 | Some w \<Rightarrow> w) else Inr s5) (\<lambda>s6.
      rbind (dbDelete s6 k1) (\<lambda>(_, s7). f s7))) = f s7 \<and> goes s s7 1 ((tview s)(k2 \<mapsto> (aval v, x), k1 := None)) 0"
proof -
  have ok4: "db_ok s4" "cfg s4 = cfg s" "tview s4 = (tview s)(k2 := None)" "room_for 1 s4"
    using assms(1,5) by (auto simp: goes_def)
  obtain s5 where s5: "dbAdd s4 k2 v = Inr s5" "goes s4 s5 1 ((tview s)(k2 \<mapsto> (aval v, None))) 0" "kmap s5 k2 = Some v"
    using add_typed_goes [OF ok4(1) assms(2,3,4) ok4(4)] ok4(3) by auto
  have ok5: "db_ok s5" "tview s5 = (tview s)(k2 \<mapsto> (aval v, None))" "room_for 0 s5" "cfg s5 = cfg s"
    using s5(2) ok4(2,4) by (auto simp: goes_def)
  have g5: "goes s s5 1 ((tview s)(k2 \<mapsto> (aval v, None))) 0" using goes_comp [OF assms(1) s5(2)] by simp
  let ?x = "case x of None \<Rightarrow> -1 | Some w \<Rightarrow> w"
  obtain s6 where s6: "(if ?x \<noteq> -1 then setExpire s5 k2 ?x else Inr s5) = Inr s6" "goes s s6 1 ((tview s)(k2 \<mapsto> (aval v, x))) 0"
  proof (cases x)
    case None
    then show thesis using that [of s5] g5 by simp
  next
    case (Some w)
    then have w: "w \<noteq> -1" "in_int64 w" "now_of s5 \<le> w" using assms(8) now_of_cong [OF ok5(4)] by auto
    have ng: "\<not> gone s5 k2" using view_not_gone [of s5 k2] ok5(2) by simp
    obtain s6 where s6: "setExpire s5 k2 w = Inr s6" "goes s5 s6 0 ((tview s)(k2 \<mapsto> (aval v, Some w))) 0"
      using set_expire_goes [OF ok5(1) s5(3) ng w(2) ok5(3) w(3)] ok5(2) by auto
    then show thesis using that [of s6] goes_comp [OF g5 s6(2)] Some w(1) by simp
  qed
  have ok6: "db_ok s6" "tview s6 = (tview s)(k2 \<mapsto> (aval v, x))" using s6(2) by (simp_all add: goes_def)
  have "tview s6 k1 = Some (aval v, x)" using ok6(2) assms(6,7) by simp
  then obtain b s7 where s7: "dbDelete s6 k1 = Inr (b, s7)" "goes s6 s7 0 ((tview s6)(k1 := None)) 0"
    using delete_goes [OF ok6(1) view_not_gone] by blast
  have "goes s s7 1 ((tview s)(k2 \<mapsto> (aval v, x), k1 := None)) 0" using goes_comp [OF s6(2) s7(2)] unfolding ok6(2) by simp
  then show ?thesis using s5(1) s6(1) s7(1) by auto
qed

lemma renameGeneric_ok:
  assumes "args_are c [nm, k1, k2]" "db_ok s" "room_for 1 s" "ready e c" "future_at s k1" "now_of s \<le> mstime s"
    "length k1 < 2 ^ 31" "length k2 < 2 ^ 31"
  shows "does e s c (renameGenericCommand e s c nx) (spec_rename nx k1 k2 (tview s))"
proof -
  note strs = args_strs [OF assms(1)]
  have k: "arg_key c 1 = Inr k1" "arg_key c 2 = Inr k2" using arg_key_ok [OF assms(1), of 1] arg_key_ok [OF assms(1), of 2] by simp_all
  have eq: "(sdscmp k1 k2 = 0) = (k1 = k2)" using sdscmp_zero assms(7,8) by simp
  obtain v s1 where s1: "lookupKeyWrite e s k1 = Inr (v, s1)" "goes s s1 0 (tview s) 0" "kmap s1 k1 = v" "\<not> gone s1 k1"
    using lookup_goes [OF assms(2)] by blast
  have tv: "tview s k1 = map_option (\<lambda>v. (aval v, kexp s1 k1)) v" using tview_settled [OF s1(4)] goesD(2) [OF s1(2)] s1(3) by simp
  note start = renameGenericCommand_def k rbind_simps Let_def eq lookupKeyWriteOrReply_def s1(1) prod.case
  show ?thesis
  proof (cases v)
    case None
    obtain c1 where c1: "addReplyShared e c shared_nokeyerr = Inr c1" "answers e shared_nokeyerr c c1" using shared_answer [OF assms(4) strs] by force
    have "renameGenericCommand e s c nx = Inr (s1, c1)" unfolding start using None c1(1) by simp
    then show ?thesis by (rule read_doesI [OF _ s1(2) c1(2)]) (use tv None in \<open>simp add: spec_rename_def\<close>)
  next
    case (Some o')
    have t1: "tview s k1 = Some (aval o', kexp s1 k1)" using tv Some by simp
    have o': "typed_obj o'" using db_okD(4) [OF goesD(1) [OF s1(2)], of k1] s1(3) Some by simp
    show ?thesis
    proof (cases "k1 = k2")
      case True
      let ?r = "if nx then shared_czero else shared_ok"
      obtain c1 where c1: "addReplyShared e c ?r = Inr c1" "answers e ?r c c1" using shared_answer [OF assms(4) strs, of ?r] by (cases nx) force+
      have "renameGenericCommand e s c nx = Inr (s1, c1)" unfolding start using Some True c1(1) by simp
      then show ?thesis by (rule read_doesI [OF _ s1(2) c1(2)]) (use t1 True in \<open>simp add: spec_rename_def\<close>)
    next
      case ne: False
      obtain s2 where s2: "getExpire s1 k1 = Inr (case kexp s1 k1 of None \<Rightarrow> -1 | Some w \<Rightarrow> w, s2)" "goes s1 s2 0 (tview s1) 0"
        using get_expire_goes [OF goesD(1) [OF s1(2)]] by blast
      have g2: "goes s s2 0 (tview s) 0" using goes_trans [OF s1(2) s2(2)] unfolding goesD(2) [OF s1(2)] .
      obtain w s3 where s3: "lookupKeyWrite e s2 k2 = Inr (w, s3)" "goes s2 s3 0 (tview s2) 0" "kmap s3 k2 = w" "\<not> gone s3 k2"
        "w = None \<longrightarrow> kexp s3 k2 = None" using lookup_goes [OF goesD(1) [OF g2], of e k2]
        by (elim exE conjE) (rule that)
      have g3: "goes s s3 0 (tview s) 0" using goes_trans [OF g2 s3(2)] unfolding goesD(2) [OF g2] .
      have t2: "(w = None) = (tview s k2 = None)" using tview_settled [OF s3(4)] goesD(2) [OF g3] s3(3) by auto
      show ?thesis
      proof (cases "w \<noteq> None \<and> nx")
        case True
        obtain c1 where c1: "addReplyShared e c shared_czero = Inr c1" "answers e shared_czero c c1" using shared_answer [OF assms(4) strs] by force
        have "renameGenericCommand e s c nx = Inr (s3, c1)" unfolding start using Some ne s2(1) s3(1) True c1(1) by simp
        then show ?thesis by (rule read_doesI [OF _ g3 c1(2)]) (use t1 t2 ne True in \<open>simp add: spec_rename_def\<close>)
      next
        case go: False
        let ?r = "if nx then shared_cone else shared_ok" and ?x = "kexp s1 k1"
        obtain c1 where c1: "addReplyShared e c ?r = Inr c1" "answers e ?r c c1" using shared_answer [OF assms(4) strs, of ?r] by (cases nx) force+
        obtain s4 where s4: "(if w \<noteq> None then rbind (dbDelete s3 k2) (\<lambda>(_, s4). Inr s4) else Inr s3) = Inr s4"
          "goes s s4 0 ((tview s)(k2 := None)) 0" "kmap s4 k2 = None" "kexp s4 k2 = None" using clear_target [OF g3 s3(3-5)] by blast
        have x: "?x = None \<or> (\<exists>w. ?x = Some w \<and> w \<noteq> -1 \<and> in_int64 w \<and> now_of s \<le> w)"
          using assms(5,6) t1 db_okD(5) [OF goesD(1) [OF s1(2)], of k1] by (cases ?x) (auto simp: future_at_def)
        let ?f = "\<lambda>s7. Inr (dirtied (notifyKeyspaceEvent ''rename_to''
          (notifyKeyspaceEvent ''rename_from'' (signalModifiedKey (signalModifiedKey s7 k1) k2) k1) k2), c1)"
        obtain s7 where s7: "rbind (dbAdd s4 k2 o') (\<lambda>s5.
            rbind (if (case ?x of None \<Rightarrow> -1 | Some w \<Rightarrow> w) \<noteq> -1 then setExpire s5 k2 (case ?x of None \<Rightarrow> -1 | Some w \<Rightarrow> w) else Inr s5) (\<lambda>s6.
            rbind (dbDelete s6 k1) (\<lambda>(_, s7). ?f s7))) = ?f s7" "goes s s7 1 ((tview s)(k2 \<mapsto> (aval o', ?x), k1 := None)) 0"
          using move_key [OF s4(2-4) o' assms(3) ne t1 x, of ?f] by blast
        let ?s8 = "dirtied (notifyKeyspaceEvent ''rename_to'' (notifyKeyspaceEvent ''rename_from'' (signalModifiedKey (signalModifiedKey s7 k1) k2) k1) k2)"
        have no: "(Some o' = None) = False" by simp
        have "renameGenericCommand e s c nx = Inr (?s8, c1)"
          unfolding start Some no if_False option.case if_not_P [OF ne] s2(1) s3(1) if_not_P [OF go] s4(1) c1(1) by (rule s7(1))
        moreover have "goes s ?s8 1 ((tview s)(k2 \<mapsto> (aval o', ?x), k1 := None)) 1" using s7(2) by simp
        moreover have "spec_rename nx k1 k2 (tview s) = ((tview s)(k2 \<mapsto> (aval o', ?x), k1 := None), ?r, 1)"
          using t1 t2 ne go by (cases nx) (simp_all add: spec_rename_def)
        ultimately show ?thesis using doesI [OF _ _ c1(2)] by blast
      qed
    qed
  qed
qed

end
