(* ===== verification/Command.thy ===== *)
theory Command
  imports KeyCmd Request
begin

text \<open>
  From a request to a command: the command table with its flags, the checks of \<open>processCommand\<close> and \<open>call\<close>
  (\<open>src/server.c\<close>). The commands of \<open>TString\<close> and \<open>KeyCmd\<close> and \<open>getRedisNoReplyCommand\<close> of \<open>src/blogd.c\<close> run as
  they are modelled; every other row of the table runs through the parameter \<open>other_proc\<close>. The settings and the
  states of other parts of the server that the checks read are the record \<open>policy\<close>: replication, persistence,
  the memory limit with the eviction it causes, cluster redirection, scripts that run for too long.
\<close>

section \<open>The command table\<close>

datatype cmd_flag =
    CMD_WRITE | CMD_READONLY | CMD_DENYOOM | CMD_ADMIN | CMD_PUBSUB | CMD_NOSCRIPT | CMD_RANDOM | CMD_SORT_FOR_SCRIPT
  | CMD_LOADING | CMD_STALE | CMD_SKIP_MONITOR | CMD_ASKING | CMD_FAST

record redisCommand =
  cmd_name :: string
  cmd_proc :: string
  arity :: int
  sflags :: string
  getkeys_proc :: bool
  firstkey :: nat

definition row :: "string \<Rightarrow> string \<Rightarrow> int \<Rightarrow> string \<Rightarrow> bool \<Rightarrow> nat \<Rightarrow> redisCommand" where
  "row n p a f g k = \<lparr>cmd_name = n, cmd_proc = p, arity = a, sflags = f, getkeys_proc = g, firstkey = k\<rparr>"

definition redisCommandTable :: "redisCommand list" where
  "redisCommandTable =
    [row ''get'' ''getCommand'' (2) ''rF'' False 1,
     row ''getNoReplyCommand'' ''getRedisNoReplyCommand'' (2) ''rF'' False 1,
     row ''set'' ''setCommand'' (-3) ''wm'' False 1,
     row ''setnx'' ''setnxCommand'' (3) ''wmF'' False 1,
     row ''setex'' ''setexCommand'' (4) ''wm'' False 1,
     row ''psetex'' ''psetexCommand'' (4) ''wm'' False 1,
     row ''append'' ''appendCommand'' (3) ''wm'' False 1,
     row ''strlen'' ''strlenCommand'' (2) ''rF'' False 1,
     row ''del'' ''delCommand'' (-2) ''w'' False 1,
     row ''exists'' ''existsCommand'' (-2) ''rF'' False 1,
     row ''setbit'' ''setbitCommand'' (4) ''wm'' False 1,
     row ''getbit'' ''getbitCommand'' (3) ''rF'' False 1,
     row ''bitfield'' ''bitfieldCommand'' (-2) ''wm'' False 1,
     row ''setrange'' ''setrangeCommand'' (4) ''wm'' False 1,
     row ''getrange'' ''getrangeCommand'' (4) ''r'' False 1,
     row ''substr'' ''getrangeCommand'' (4) ''r'' False 1,
     row ''incr'' ''incrCommand'' (2) ''wmF'' False 1,
     row ''decr'' ''decrCommand'' (2) ''wmF'' False 1,
     row ''mget'' ''mgetCommand'' (-2) ''r'' False 1,
     row ''rpush'' ''rpushCommand'' (-3) ''wmF'' False 1,
     row ''lpush'' ''lpushCommand'' (-3) ''wmF'' False 1,
     row ''rpushx'' ''rpushxCommand'' (3) ''wmF'' False 1,
     row ''lpushx'' ''lpushxCommand'' (3) ''wmF'' False 1,
     row ''linsert'' ''linsertCommand'' (5) ''wm'' False 1,
     row ''rpop'' ''rpopCommand'' (2) ''wF'' False 1,
     row ''lpop'' ''lpopCommand'' (2) ''wF'' False 1,
     row ''brpop'' ''brpopCommand'' (-3) ''ws'' False 1,
     row ''brpoplpush'' ''brpoplpushCommand'' (4) ''wms'' False 1,
     row ''blpop'' ''blpopCommand'' (-3) ''ws'' False 1,
     row ''llen'' ''llenCommand'' (2) ''rF'' False 1,
     row ''lindex'' ''lindexCommand'' (3) ''r'' False 1,
     row ''lset'' ''lsetCommand'' (4) ''wm'' False 1,
     row ''lrange'' ''lrangeCommand'' (4) ''r'' False 1,
     row ''ltrim'' ''ltrimCommand'' (4) ''w'' False 1,
     row ''lrem'' ''lremCommand'' (4) ''w'' False 1,
     row ''rpoplpush'' ''rpoplpushCommand'' (3) ''wm'' False 1,
     row ''sadd'' ''saddCommand'' (-3) ''wmF'' False 1,
     row ''srem'' ''sremCommand'' (-3) ''wF'' False 1,
     row ''smove'' ''smoveCommand'' (4) ''wF'' False 1,
     row ''sismember'' ''sismemberCommand'' (3) ''rF'' False 1,
     row ''scard'' ''scardCommand'' (2) ''rF'' False 1,
     row ''spop'' ''spopCommand'' (-2) ''wRF'' False 1,
     row ''srandmember'' ''srandmemberCommand'' (-2) ''rR'' False 1,
     row ''sinter'' ''sinterCommand'' (-2) ''rS'' False 1,
     row ''sinterstore'' ''sinterstoreCommand'' (-3) ''wm'' False 1,
     row ''sunion'' ''sunionCommand'' (-2) ''rS'' False 1,
     row ''sunionstore'' ''sunionstoreCommand'' (-3) ''wm'' False 1,
     row ''sdiff'' ''sdiffCommand'' (-2) ''rS'' False 1,
     row ''sdiffstore'' ''sdiffstoreCommand'' (-3) ''wm'' False 1,
     row ''smembers'' ''sinterCommand'' (2) ''rS'' False 1,
     row ''sscan'' ''sscanCommand'' (-3) ''rR'' False 1,
     row ''zadd'' ''zaddCommand'' (-4) ''wmF'' False 1,
     row ''zincrby'' ''zincrbyCommand'' (4) ''wmF'' False 1,
     row ''zrem'' ''zremCommand'' (-3) ''wF'' False 1,
     row ''zremrangebyscore'' ''zremrangebyscoreCommand'' (4) ''w'' False 1,
     row ''zremrangebyrank'' ''zremrangebyrankCommand'' (4) ''w'' False 1,
     row ''zremrangebylex'' ''zremrangebylexCommand'' (4) ''w'' False 1,
     row ''zunionstore'' ''zunionstoreCommand'' (-4) ''wm'' True 0,
     row ''zinterstore'' ''zinterstoreCommand'' (-4) ''wm'' True 0,
     row ''zrange'' ''zrangeCommand'' (-4) ''r'' False 1,
     row ''zrangebyscore'' ''zrangebyscoreCommand'' (-4) ''r'' False 1,
     row ''zrevrangebyscore'' ''zrevrangebyscoreCommand'' (-4) ''r'' False 1,
     row ''zrangebylex'' ''zrangebylexCommand'' (-4) ''r'' False 1,
     row ''zrevrangebylex'' ''zrevrangebylexCommand'' (-4) ''r'' False 1,
     row ''zcount'' ''zcountCommand'' (4) ''rF'' False 1,
     row ''zlexcount'' ''zlexcountCommand'' (4) ''rF'' False 1,
     row ''zrevrange'' ''zrevrangeCommand'' (-4) ''r'' False 1,
     row ''zcard'' ''zcardCommand'' (2) ''rF'' False 1,
     row ''zscore'' ''zscoreCommand'' (3) ''rF'' False 1,
     row ''zrank'' ''zrankCommand'' (3) ''rF'' False 1,
     row ''zrevrank'' ''zrevrankCommand'' (3) ''rF'' False 1,
     row ''zscan'' ''zscanCommand'' (-3) ''rR'' False 1,
     row ''hset'' ''hsetCommand'' (4) ''wmF'' False 1,
     row ''hsetnx'' ''hsetnxCommand'' (4) ''wmF'' False 1,
     row ''hget'' ''hgetCommand'' (3) ''rF'' False 1,
     row ''hmset'' ''hmsetCommand'' (-4) ''wm'' False 1,
     row ''hmget'' ''hmgetCommand'' (-3) ''r'' False 1,
     row ''hincrby'' ''hincrbyCommand'' (4) ''wmF'' False 1,
     row ''hincrbyfloat'' ''hincrbyfloatCommand'' (4) ''wmF'' False 1,
     row ''hdel'' ''hdelCommand'' (-3) ''wF'' False 1,
     row ''hlen'' ''hlenCommand'' (2) ''rF'' False 1,
     row ''hstrlen'' ''hstrlenCommand'' (3) ''rF'' False 1,
     row ''hkeys'' ''hkeysCommand'' (2) ''rS'' False 1,
     row ''hvals'' ''hvalsCommand'' (2) ''rS'' False 1,
     row ''hgetall'' ''hgetallCommand'' (2) ''r'' False 1,
     row ''hexists'' ''hexistsCommand'' (3) ''rF'' False 1,
     row ''hscan'' ''hscanCommand'' (-3) ''rR'' False 1,
     row ''incrby'' ''incrbyCommand'' (3) ''wmF'' False 1,
     row ''decrby'' ''decrbyCommand'' (3) ''wmF'' False 1,
     row ''incrbyfloat'' ''incrbyfloatCommand'' (3) ''wmF'' False 1,
     row ''getset'' ''getsetCommand'' (3) ''wm'' False 1,
     row ''mset'' ''msetCommand'' (-3) ''wm'' False 1,
     row ''msetnx'' ''msetnxCommand'' (-3) ''wm'' False 1,
     row ''randomkey'' ''randomkeyCommand'' (1) ''rR'' False 0,
     row ''select'' ''selectCommand'' (2) ''lF'' False 0,
     row ''move'' ''moveCommand'' (3) ''wF'' False 1,
     row ''rename'' ''renameCommand'' (3) ''w'' False 1,
     row ''renamenx'' ''renamenxCommand'' (3) ''wF'' False 1,
     row ''expire'' ''expireCommand'' (3) ''wF'' False 1,
     row ''expireat'' ''expireatCommand'' (3) ''wF'' False 1,
     row ''pexpire'' ''pexpireCommand'' (3) ''wF'' False 1,
     row ''pexpireat'' ''pexpireatCommand'' (3) ''wF'' False 1,
     row ''keys'' ''keysCommand'' (2) ''rS'' False 0,
     row ''scan'' ''scanCommand'' (-2) ''rR'' False 0,
     row ''dbsize'' ''dbsizeCommand'' (1) ''rF'' False 0,
     row ''auth'' ''authCommand'' (2) ''sltF'' False 0,
     row ''ping'' ''pingCommand'' (-1) ''tF'' False 0,
     row ''echo'' ''echoCommand'' (2) ''F'' False 0,
     row ''save'' ''saveCommand'' (1) ''as'' False 0,
     row ''bgsave'' ''bgsaveCommand'' (-1) ''a'' False 0,
     row ''bgrewriteaof'' ''bgrewriteaofCommand'' (1) ''a'' False 0,
     row ''shutdown'' ''shutdownCommand'' (-1) ''alt'' False 0,
     row ''lastsave'' ''lastsaveCommand'' (1) ''RF'' False 0,
     row ''type'' ''typeCommand'' (2) ''rF'' False 1,
     row ''multi'' ''multiCommand'' (1) ''sF'' False 0,
     row ''exec'' ''execCommand'' (1) ''sM'' False 0,
     row ''discard'' ''discardCommand'' (1) ''sF'' False 0,
     row ''sync'' ''syncCommand'' (1) ''ars'' False 0,
     row ''psync'' ''syncCommand'' (3) ''ars'' False 0,
     row ''replconf'' ''replconfCommand'' (-1) ''aslt'' False 0,
     row ''flushdb'' ''flushdbCommand'' (1) ''w'' False 0,
     row ''flushall'' ''flushallCommand'' (1) ''w'' False 0,
     row ''sort'' ''sortCommand'' (-2) ''wm'' True 1,
     row ''info'' ''infoCommand'' (-1) ''lt'' False 0,
     row ''monitor'' ''monitorCommand'' (1) ''as'' False 0,
     row ''ttl'' ''ttlCommand'' (2) ''rF'' False 1,
     row ''touch'' ''touchCommand'' (-2) ''rF'' False 1,
     row ''pttl'' ''pttlCommand'' (2) ''rF'' False 1,
     row ''persist'' ''persistCommand'' (2) ''wF'' False 1,
     row ''slaveof'' ''slaveofCommand'' (3) ''ast'' False 0,
     row ''role'' ''roleCommand'' (1) ''lst'' False 0,
     row ''debug'' ''debugCommand'' (-1) ''as'' False 0,
     row ''config'' ''configCommand'' (-2) ''lat'' False 0,
     row ''subscribe'' ''subscribeCommand'' (-2) ''pslt'' False 0,
     row ''unsubscribe'' ''unsubscribeCommand'' (-1) ''pslt'' False 0,
     row ''psubscribe'' ''psubscribeCommand'' (-2) ''pslt'' False 0,
     row ''punsubscribe'' ''punsubscribeCommand'' (-1) ''pslt'' False 0,
     row ''publish'' ''publishCommand'' (3) ''pltF'' False 0,
     row ''pubsub'' ''pubsubCommand'' (-2) ''pltR'' False 0,
     row ''watch'' ''watchCommand'' (-2) ''sF'' False 1,
     row ''unwatch'' ''unwatchCommand'' (1) ''sF'' False 0,
     row ''cluster'' ''clusterCommand'' (-2) ''a'' False 0,
     row ''restore'' ''restoreCommand'' (-4) ''wm'' False 1,
     row ''restore-asking'' ''restoreCommand'' (-4) ''wmk'' False 1,
     row ''migrate'' ''migrateCommand'' (-6) ''w'' True 0,
     row ''asking'' ''askingCommand'' (1) ''F'' False 0,
     row ''readonly'' ''readonlyCommand'' (1) ''F'' False 0,
     row ''readwrite'' ''readwriteCommand'' (1) ''F'' False 0,
     row ''dump'' ''dumpCommand'' (2) ''r'' False 1,
     row ''object'' ''objectCommand'' (3) ''r'' False 2,
     row ''client'' ''clientCommand'' (-2) ''as'' False 0,
     row ''eval'' ''evalCommand'' (-3) ''s'' True 0,
     row ''evalsha'' ''evalShaCommand'' (-3) ''s'' True 0,
     row ''slowlog'' ''slowlogCommand'' (-2) ''a'' False 0,
     row ''script'' ''scriptCommand'' (-2) ''s'' False 0,
     row ''time'' ''timeCommand'' (1) ''RF'' False 0,
     row ''bitop'' ''bitopCommand'' (-4) ''wm'' False 2,
     row ''bitcount'' ''bitcountCommand'' (-2) ''r'' False 1,
     row ''bitpos'' ''bitposCommand'' (-3) ''r'' False 1,
     row ''wait'' ''waitCommand'' (3) ''s'' False 0,
     row ''command'' ''commandCommand'' (0) ''lt'' False 0,
     row ''geoadd'' ''geoaddCommand'' (-5) ''wm'' False 1,
     row ''georadius'' ''georadiusCommand'' (-6) ''w'' False 1,
     row ''georadiusbymember'' ''georadiusByMemberCommand'' (-5) ''w'' False 1,
     row ''geohash'' ''geohashCommand'' (-2) ''r'' False 1,
     row ''geopos'' ''geoposCommand'' (-2) ''r'' False 1,
     row ''geodist'' ''geodistCommand'' (-4) ''r'' False 1,
     row ''pfselftest'' ''pfselftestCommand'' (1) ''a'' False 0,
     row ''pfadd'' ''pfaddCommand'' (-2) ''wmF'' False 1,
     row ''pfcount'' ''pfcountCommand'' (-2) ''r'' False 1,
     row ''pfmerge'' ''pfmergeCommand'' (-2) ''wm'' False 1,
     row ''pfdebug'' ''pfdebugCommand'' (-3) ''w'' False 0,
     row ''latency'' ''latencyCommand'' (-2) ''aslt'' False 0]"

text \<open>The flags of a command as \<open>populateCommandTable\<close> reads them.\<close>

definition cmd_flag_of :: "char \<Rightarrow> cmd_flag option" where
  "cmd_flag_of f =
     (if f = CHR ''w'' then Some CMD_WRITE
      else if f = CHR ''r'' then Some CMD_READONLY
      else if f = CHR ''m'' then Some CMD_DENYOOM
      else if f = CHR ''a'' then Some CMD_ADMIN
      else if f = CHR ''p'' then Some CMD_PUBSUB
      else if f = CHR ''s'' then Some CMD_NOSCRIPT
      else if f = CHR ''R'' then Some CMD_RANDOM
      else if f = CHR ''S'' then Some CMD_SORT_FOR_SCRIPT
      else if f = CHR ''l'' then Some CMD_LOADING
      else if f = CHR ''t'' then Some CMD_STALE
      else if f = CHR ''M'' then Some CMD_SKIP_MONITOR
      else if f = CHR ''k'' then Some CMD_ASKING
      else if f = CHR ''F'' then Some CMD_FAST
      else None)"

fun parse_sflags :: "string \<Rightarrow> cmd_flag set res" where
  "parse_sflags [] = Inr {}"
| "parse_sflags (f # fs) =
     (case cmd_flag_of f of
        None \<Rightarrow> Inl Panic
      | Some g \<Rightarrow> rbind (parse_sflags fs) (\<lambda>gs. Inr (insert g gs)))"

text \<open>
  \<open>populateCommandTable\<close> fills the dictionary of commands and asserts that no name occurs twice. The
  dictionary compares names without regard to case.
\<close>

fun populateCommandTable :: "redisCommand list \<Rightarrow> (string \<times> redisCommand \<times> cmd_flag set) list \<Rightarrow>
  (string \<times> redisCommand \<times> cmd_flag set) list res" where
  "populateCommandTable [] commands = Inr commands"
| "populateCommandTable (c # cs) commands =
     rbind (parse_sflags (sflags c)) (\<lambda>fl.
     rbind (rassert (map_of commands (sdstolower (cmd_name c)) = None) AssertFail) (\<lambda>_.
     populateCommandTable cs ((sdstolower (cmd_name c), c, fl) # commands)))"

definition lookupCommand :: "(string \<times> redisCommand \<times> cmd_flag set) list \<Rightarrow> string \<Rightarrow> (redisCommand \<times> cmd_flag set) option" where
  "lookupCommand commands name = map_of commands (sdstolower name)"

section \<open>Commands by their functions\<close>

text \<open>
  \<open>getRedisNoReplyCommand\<close> leaves the value's pointer in the client instead of a reply.
\<close>

definition getRedisNoReplyCommand :: "env \<Rightarrow> server \<Rightarrow> client \<Rightarrow> (server \<times> client) res" where
  "getRedisNoReplyCommand e s c =
     rbind (arg_key c 1) (\<lambda>k.
     rbind (lookupKeyRead e s k) (\<lambda>(v, s1).
     case v of
       None \<Rightarrow> Inr (s1, c\<lparr>command_last_reply := None, command_last_error := Some ''Not found''\<rparr>)
     | Some o' \<Rightarrow>
         if otype o' \<noteq> OBJ_STRING
         then Inr (s1, c\<lparr>command_last_reply := None, command_last_error := Some shared_wrongtypeerr\<rparr>)
         else Inr (s1, c\<lparr>command_last_error := None, command_last_reply := Some (optr o')\<rparr>)))"

type_synonym command_proc = "env \<Rightarrow> server \<Rightarrow> client \<Rightarrow> (server \<times> client) res"

definition modelled_procs :: "string \<Rightarrow> (string \<times> command_proc) list" where
  "modelled_procs name =
     [(''getCommand'', getCommand),
      (''getRedisNoReplyCommand'', getRedisNoReplyCommand),
      (''setCommand'', \<lambda>e s c. setCommand e s c name),
      (''setnxCommand'', \<lambda>e s c. setnxCommand e s c name),
      (''setexCommand'', \<lambda>e s c. setexCommand e s c name),
      (''psetexCommand'', \<lambda>e s c. psetexCommand e s c name),
      (''appendCommand'', appendCommand),
      (''strlenCommand'', strlenCommand),
      (''delCommand'', delCommand),
      (''existsCommand'', existsCommand),
      (''setrangeCommand'', setrangeCommand),
      (''getrangeCommand'', getrangeCommand),
      (''incrCommand'', incrCommand),
      (''decrCommand'', decrCommand),
      (''mgetCommand'', mgetCommand),
      (''incrbyCommand'', incrbyCommand),
      (''decrbyCommand'', decrbyCommand),
      (''getsetCommand'', getsetCommand),
      (''msetCommand'', msetCommand),
      (''msetnxCommand'', msetnxCommand),
      (''renameCommand'', renameCommand),
      (''renamenxCommand'', renamenxCommand),
      (''expireCommand'', expireCommand),
      (''expireatCommand'', expireatCommand),
      (''pexpireCommand'', pexpireCommand),
      (''pexpireatCommand'', pexpireatCommand),
      (''dbsizeCommand'', dbsizeCommand),
      (''typeCommand'', typeCommand),
      (''ttlCommand'', ttlCommand),
      (''touchCommand'', touchCommand),
      (''pttlCommand'', pttlCommand),
      (''persistCommand'', persistCommand)]"

section \<open>Policy\<close>

text \<open>
  \<open>commands\<close> is \<open>server.commands\<close>; \<open>free_memory\<close> is \<open>freeMemoryIfNeeded\<close>: whether it freed enough, whether the
  current client is still there, and the new state; \<open>redirects\<close> is \<open>None\<close> when this node of the cluster serves the
  keys of the command and otherwise what \<open>clusterRedirectClient\<close> answers; \<open>ready_keys\<close> whether clients blocked on
  lists can be served.
\<close>

record policy =
  commands :: "(string \<times> redisCommand \<times> cmd_flag set) list"
  other_proc :: "string \<Rightarrow> command_proc"
  requirepass :: bool
  free_memory :: "server \<Rightarrow> bool \<times> bool \<times> server"
  redirects :: "redisCommand \<Rightarrow> client \<Rightarrow> string option"
  caller_is_master :: bool
  stop_writes_on_bgsave_err :: bool
  saveparamslen :: nat
  lastbgsave_err :: bool
  aof_last_write_err :: bool
  aof_errno_text :: string
  repl_min_slaves_to_write :: int
  repl_min_slaves_max_lag :: int
  repl_good_slaves_count :: int
  repl_slave_ro :: bool
  repl_connected :: bool
  repl_serve_stale_data :: bool
  lua_timedout :: bool
  monitors :: bool
  ready_keys :: bool

definition shared_queued :: string where "shared_queued = ''+QUEUED'' @ crlf"
definition shared_noautherr :: string where "shared_noautherr = ''-NOAUTH Authentication required.'' @ crlf"
definition shared_oomerr :: string where
  "shared_oomerr = ''-OOM command not allowed when used memory > '' @ [CHR 0x27] @ ''maxmemory'' @ [CHR 0x27] @ ''.'' @ crlf"
definition shared_bgsaveerr :: string where
  "shared_bgsaveerr = ''-MISCONF Redis is configured to save RDB snapshots, but is currently not able to persist on disk. Commands that may modify the data set are disabled. Please check Redis logs for details about the error.'' @ crlf"
definition shared_noreplicaserr :: string where "shared_noreplicaserr = ''-NOREPLICAS Not enough good slaves to write.'' @ crlf"
definition shared_roslaveerr :: string where
  "shared_roslaveerr = ''-READONLY You can'' @ [CHR 0x27] @ ''t write against a read only slave.'' @ crlf"
definition shared_masterdownerr :: string where
  "shared_masterdownerr = ''-MASTERDOWN Link with MASTER is down and slave-serve-stale-data is set to '' @ [CHR 0x27] @ ''no'' @ [CHR 0x27] @ ''.'' @ crlf"
definition shared_loadingerr :: string where "shared_loadingerr = ''-LOADING Redis is loading the dataset in memory'' @ crlf"
definition shared_slowscripterr :: string where
  "shared_slowscripterr = ''-BUSY Redis is busy running a script. You can only call SCRIPT KILL or SHUTDOWN NOSAVE.'' @ crlf"

definition flagTransaction :: "client \<Rightarrow> client" where
  "flagTransaction c = (if CLIENT_MULTI \<in> flags c then c\<lparr>flags := insert CLIENT_DIRTY_EXEC (flags c)\<rparr> else c)"

text \<open>The queue of a transaction and its watched keys are no part of the model.\<close>

definition discardTransaction :: "client \<Rightarrow> client" where
  "discardTransaction c = c\<lparr>flags := flags c - {CLIENT_MULTI, CLIENT_DIRTY_CAS, CLIENT_DIRTY_EXEC}\<rparr>"

section \<open>Calling a command\<close>

datatype call_flag = CMD_CALL_SLOWLOG | CMD_CALL_STATS | CMD_CALL_PROPAGATE_AOF | CMD_CALL_PROPAGATE_REPL

definition CMD_CALL_FULL :: "call_flag set" where
  "CMD_CALL_FULL = {CMD_CALL_SLOWLOG, CMD_CALL_STATS, CMD_CALL_PROPAGATE_AOF, CMD_CALL_PROPAGATE_REPL}"

definition prop_flags :: "client_flag set" where
  "prop_flags = {CLIENT_FORCE_AOF, CLIENT_FORCE_REPL, CLIENT_PREVENT_AOF_PROP, CLIENT_PREVENT_REPL_PROP}"

definition run_proc :: "policy \<Rightarrow> redisCommand \<Rightarrow> command_proc" where
  "run_proc p cmd =
     (case map_of (modelled_procs (cmd_name cmd)) (cmd_proc cmd) of
        Some f \<Rightarrow> f
      | None \<Rightarrow> other_proc p (cmd_proc cmd))"

text \<open>
  What is noted after the command has run: the caller's flags of a script, slow log, statistics, propagation. What is
  propagated is the command its arguments name, also after a command has rewritten them. The list of further commands
  to propagate, which only \<open>SPOP\<close> and scripts fill, is no part of the model.
\<close>

definition call_notes :: "redisCommand \<Rightarrow> call_flag set \<Rightarrow> client \<Rightarrow> nat \<Rightarrow> int \<Rightarrow> bool \<Rightarrow> notice list" where
  "call_notes cmd fl0 c dbid dirtied' loading' =
     (let fl = (if loading' \<and> CLIENT_LUA \<in> flags c then fl0 - {CMD_CALL_SLOWLOG, CMD_CALL_STATS} else fl0);
          args = map obj_text (argv c);
          aof = (dirtied' \<noteq> 0 \<or> CLIENT_FORCE_AOF \<in> flags c) \<and> CLIENT_PREVENT_AOF_PROP \<notin> flags c \<and> CMD_CALL_PROPAGATE_AOF \<in> fl;
          repl = (dirtied' \<noteq> 0 \<or> CLIENT_FORCE_REPL \<in> flags c) \<and> CLIENT_PREVENT_REPL_PROP \<notin> flags c \<and> CMD_CALL_PROPAGATE_REPL \<in> fl
      in (if CLIENT_LUA \<in> flags c then [LuaCallerForces (CLIENT_FORCE_AOF \<in> flags c) (CLIENT_FORCE_REPL \<in> flags c)] else []) @
         (if CMD_CALL_SLOWLOG \<in> fl \<and> cmd_proc cmd \<noteq> ''execCommand'' then [SlowLog args] else []) @
         (if CMD_CALL_STATS \<in> fl then [CommandStats (cmd_name cmd)] else []) @
         (if aof \<or> repl then [Propagate dbid args aof repl] else []))"

definition call :: "env \<Rightarrow> policy \<Rightarrow> redisCommand \<Rightarrow> cmd_flag set \<Rightarrow> call_flag set \<Rightarrow> server \<Rightarrow> client \<Rightarrow> (server \<times> client) res" where
  "call e p cmd cf fl s c =
     (let client_old_flags = flags c;
          s1 = (if monitors p \<and> \<not> loading s \<and> CMD_SKIP_MONITOR \<notin> cf \<and> CMD_ADMIN \<notin> cf
                then noted (FeedMonitors (map obj_text (argv c))) s else s);
          c1 = c\<lparr>flags := flags c - prop_flags\<rparr> in
      rbind (run_proc p cmd e s1 c1) (\<lambda>(s2, c2).
      let d = (if dirty s2 - dirty s1 < 0 then 0 else dirty s2 - dirty s1);
          s3 = s2\<lparr>notices := notices s2 @ call_notes cmd fl c2 (db_id (db s2)) d (loading s2)\<rparr>;
          c3 = c2\<lparr>flags := flags c2 - prop_flags \<union> client_old_flags \<inter> prop_flags\<rparr> in
      Inr (s3\<lparr>stat_numcommands := stat_numcommands s3 + 1\<rparr>, c3)))"

section \<open>Checking a command\<close>

definition flagged_reply :: "env \<Rightarrow> client \<Rightarrow> string \<Rightarrow> client res" where
  "flagged_reply e c t = addReplyShared e (flagTransaction c) t"

text \<open>
  The checks between the arity and the call, in order: the client after a refusal, or none when the
  command may run.
\<close>

definition refuse_write :: "env \<Rightarrow> policy \<Rightarrow> redisCommand \<Rightarrow> cmd_flag set \<Rightarrow> server \<Rightarrow> client \<Rightarrow> client option res" where
  "refuse_write e p cmd cf s c =
     (if ((stop_writes_on_bgsave_err p \<and> saveparamslen p > 0 \<and> lastbgsave_err p) \<or> aof_last_write_err p) \<and> \<not> is_slave s \<and>
         (CMD_WRITE \<in> cf \<or> cmd_proc cmd = ''pingCommand'') then
        rbind (if \<not> aof_last_write_err p then flagged_reply e c shared_bgsaveerr
               else
                 rbind (sdsnew (Some (''-MISCONF Errors writing to the AOF file: '' @ aof_errno_text p @ crlf))) (\<lambda>t.
                 addReplySds e (flagTransaction c) t)) (\<lambda>c1. Inr (Some c1))
      else if \<not> is_slave s \<and> repl_min_slaves_to_write p \<noteq> 0 \<and> repl_min_slaves_max_lag p \<noteq> 0 \<and> CMD_WRITE \<in> cf \<and>
              repl_good_slaves_count p < repl_min_slaves_to_write p then
        rbind (flagged_reply e c shared_noreplicaserr) (\<lambda>c1. Inr (Some c1))
      else if is_slave s \<and> repl_slave_ro p \<and> CLIENT_MASTER \<notin> flags c \<and> CMD_WRITE \<in> cf then
        rbind (addReplyShared e c shared_roslaveerr) (\<lambda>c1. Inr (Some c1))
      else Inr None)"

definition script_may_run :: "redisCommand \<Rightarrow> client \<Rightarrow> bool res" where
  "script_may_run cmd c =
     (if cmd_proc cmd = ''authCommand'' \<or> cmd_proc cmd = ''replconfCommand'' then Inr True
      else if length (argv c) = 2 \<and> (cmd_proc cmd = ''shutdownCommand'' \<or> cmd_proc cmd = ''scriptCommand'') then
        rbind (arg_sds c 1) (\<lambda>t.
        rbind (rd (hdr_buf t) 0) (\<lambda>ch.
        Inr (tolower ch = (if cmd_proc cmd = ''shutdownCommand'' then CHR ''n'' else CHR ''k''))))
      else Inr False)"

definition refuse_state :: "env \<Rightarrow> policy \<Rightarrow> redisCommand \<Rightarrow> cmd_flag set \<Rightarrow> server \<Rightarrow> client \<Rightarrow> client option res" where
  "refuse_state e p cmd cf s c =
     (if CLIENT_PUBSUB \<in> flags c \<and>
         cmd_proc cmd \<notin> set [''pingCommand'', ''subscribeCommand'', ''unsubscribeCommand'', ''psubscribeCommand'', ''punsubscribeCommand''] then
        rbind (addReplyError e c ''only (P)SUBSCRIBE / (P)UNSUBSCRIBE / PING / QUIT allowed in this context'') (\<lambda>c1. Inr (Some c1))
      else if is_slave s \<and> \<not> repl_connected p \<and> \<not> repl_serve_stale_data p \<and> CMD_STALE \<notin> cf then
        rbind (flagged_reply e c shared_masterdownerr) (\<lambda>c1. Inr (Some c1))
      else if loading s \<and> CMD_LOADING \<notin> cf then rbind (addReplyShared e c shared_loadingerr) (\<lambda>c1. Inr (Some c1))
      else if lua_timedout p then
        rbind (script_may_run cmd c) (\<lambda>ok.
        if ok then Inr None else rbind (flagged_reply e c shared_slowscripterr) (\<lambda>c1. Inr (Some c1)))
      else Inr None)"

definition run_or_queue :: "env \<Rightarrow> policy \<Rightarrow> redisCommand \<Rightarrow> cmd_flag set \<Rightarrow> server \<Rightarrow> client \<Rightarrow> (server \<times> client) res" where
  "run_or_queue e p cmd cf s c =
     (if CLIENT_MULTI \<in> flags c \<and> cmd_proc cmd \<notin> set [''execCommand'', ''discardCommand'', ''multiCommand'', ''watchCommand''] then
        rbind (addReplyShared e c shared_queued) (\<lambda>c1. Inr (noted (QueueMulti (map obj_text (argv c))) s, c1))
      else
        rbind (call e p cmd cf CMD_CALL_FULL s c) (\<lambda>(s1, c1).
        Inr (if ready_keys p then noted ServeBlocked s1 else s1, c1)))"

text \<open>
  \<open>processCommand\<close>: whether it returns \<open>C_OK\<close>, the command it looked up, and whether the current client is
  still there. \<open>server.current_client\<close> is the caller, so whether it runs a read-only command is known from
  here on.
\<close>

definition processCommand ::
  "env \<Rightarrow> policy \<Rightarrow> server \<Rightarrow> client \<Rightarrow> (bool \<times> redisCommand option \<times> bool \<times> server \<times> client) res" where
  "processCommand e p s0 c =
     rbind (arg_sds c 0) (\<lambda>t0.
     rbind (rd_cstr (hdr_buf t0) 0) (\<lambda>name0.
     if strcasecmp_eq name0 ''quit'' then
       rbind (addReplyShared e c shared_ok) (\<lambda>c1.
       Inr (False, None, True, s0, c1\<lparr>flags := insert CLIENT_CLOSE_AFTER_REPLY (flags c1)\<rparr>))
     else
       rbind (arg_key c 0) (\<lambda>name.
       case lookupCommand (commands p) name of
         None \<Rightarrow>
           rbind (addReplyErrorFormat e (flagTransaction c) (''unknown command '' @ [CHR 0x27] @ name0 @ [CHR 0x27])) (\<lambda>c1.
           Inr (True, None, True, s0, c1))
       | Some (cmd, cf) \<Rightarrow>
           let argc = int (length (argv c));
               s = s0\<lparr>readonly_caller := CLIENT_MASTER \<notin> flags c \<and> CMD_READONLY \<in> cf\<rparr> in
           if arity cmd > 0 \<and> arity cmd \<noteq> argc \<or> argc < - arity cmd then
             rbind (addReplyErrorFormat e (flagTransaction c)
                      (''wrong number of arguments for '' @ [CHR 0x27] @ cmd_name cmd @ [CHR 0x27] @ '' command'')) (\<lambda>c1.
             Inr (True, Some cmd, True, s, c1))
           else if requirepass p \<and> \<not> authenticated c \<and> cmd_proc cmd \<noteq> ''authCommand'' then
             rbind (flagged_reply e c shared_noautherr) (\<lambda>c1. Inr (True, Some cmd, True, s, c1))
           else
             case (if cluster_enabled s \<and> CLIENT_MASTER \<notin> flags c \<and> \<not> (CLIENT_LUA \<in> flags c \<and> caller_is_master p) \<and>
                      \<not> (\<not> getkeys_proc cmd \<and> firstkey cmd = 0 \<and> cmd_proc cmd \<noteq> ''execCommand'')
                   then redirects p cmd c else None) of
               Some answer \<Rightarrow>
                 rbind (addReplyShared e (if cmd_proc cmd = ''execCommand'' then discardTransaction c else flagTransaction c) answer) (\<lambda>c1.
                 Inr (True, Some cmd, True, s, c1))
             | None \<Rightarrow>
                 (let (enough, present, s1) = (if maxmemory s \<noteq> 0 then free_memory p s else (True, True, s)) in
                  if \<not> present then Inr (False, Some cmd, False, s1, c)
                  else if CMD_DENYOOM \<in> cf \<and> \<not> enough then
                    rbind (flagged_reply e c shared_oomerr) (\<lambda>c1. Inr (True, Some cmd, True, s1, c1))
                  else
                    rbind (refuse_write e p cmd cf s1 c) (\<lambda>r1.
                    case r1 of
                      Some c1 \<Rightarrow> Inr (True, Some cmd, True, s1, c1)
                    | None \<Rightarrow>
                        rbind (refuse_state e p cmd cf s1 c) (\<lambda>r2.
                        case r2 of
                          Some c1 \<Rightarrow> Inr (True, Some cmd, True, s1, c1)
                        | None \<Rightarrow>
                            rbind (run_or_queue e p cmd cf s1 c) (\<lambda>(s2, c1). Inr (True, Some cmd, True, s2, c1))))))))"

text \<open>The execution of a command as the input loop uses it.\<close>

definition server_exec :: "env \<Rightarrow> policy \<Rightarrow> server \<Rightarrow> client \<Rightarrow> (bool \<times> bool \<times> bool \<times> server \<times> client) res" where
  "server_exec e p s c =
     rbind (processCommand e p s c) (\<lambda>(ok, cmd, present, s1, c1).
     Inr (ok, (case cmd of Some r \<Rightarrow> cmd_proc r = ''askingCommand'' | None \<Rightarrow> False), present, s1, c1))"

end
