(* ===== verification/CommandOk.thy ===== *)
theory CommandOk
  imports KeyCmdOk Command
begin

text \<open>
  Sequences of commands: what each command of a client does to the view of the keyspace and what it answers,
  and that the server does exactly this from the bytes of the requests to the bytes of the replies.
\<close>

section \<open>The command table\<close>

lemma populate_keeps: "populateCommandTable cs acc = Inr r \<Longrightarrow> map_of acc k = Some x \<Longrightarrow> map_of r k = Some x"
proof (induction cs arbitrary: acc)
  case (Cons c cs)
  then obtain fl where "map_of acc (sdstolower (cmd_name c)) = None"
    "populateCommandTable cs ((sdstolower (cmd_name c), c, fl) # acc) = Inr r" by auto
  moreover from this Cons.prems(2) have "map_of ((sdstolower (cmd_name c), c, fl) # acc) k = Some x" by auto
  ultimately show ?case using Cons.IH by blast
qed simp

lemma populate_row:
  assumes "populateCommandTable cs acc = Inr r" "c \<in> set cs"
  shows "\<exists>fl. parse_sflags (sflags c) = Inr fl \<and> map_of r (sdstolower (cmd_name c)) = Some (c, fl)"
  using assms
proof (induction cs arbitrary: acc)
  case (Cons a cs)
  then obtain fl where fl: "parse_sflags (sflags a) = Inr fl" "populateCommandTable cs ((sdstolower (cmd_name a), a, fl) # acc) = Inr r"
    by auto
  then show ?case
  proof (cases "a = c")
    case True
    then show ?thesis using fl populate_keeps [OF fl(2), of "sdstolower (cmd_name c)" "(c, fl)"] by simp
  next
    case False
    then show ?thesis using Cons.IH [OF fl(2)] Cons.prems(2) by simp
  qed
qed simp

lemma parse_sflags_ok: "list_all (\<lambda>f. cmd_flag_of f \<noteq> None) fs \<Longrightarrow> \<exists>fl. parse_sflags fs = Inr fl"
  by (induction fs) auto

lemma populate_ok:
  assumes "distinct (map (\<lambda>c. sdstolower (cmd_name c)) cs)" "list_all (\<lambda>c. list_all (\<lambda>f. cmd_flag_of f \<noteq> None) (sflags c)) cs"
    "\<forall>c \<in> set cs. map_of acc (sdstolower (cmd_name c)) = None"
  shows "\<exists>r. populateCommandTable cs acc = Inr r"
  using assms
proof (induction cs arbitrary: acc)
  case (Cons c cs)
  obtain fl where fl: "parse_sflags (sflags c) = Inr fl" using Cons.prems(2) parse_sflags_ok by auto
  have "\<forall>d \<in> set cs. map_of ((sdstolower (cmd_name c), c, fl) # acc) (sdstolower (cmd_name d)) = None"
    using Cons.prems(1,3) by (auto simp: image_iff)
  then obtain r where "populateCommandTable cs ((sdstolower (cmd_name c), c, fl) # acc) = Inr r" using Cons by fastforce
  then show ?case using fl Cons.prems(3) by simp
qed simp

lemma char_letters: "char_of (110 :: nat) = CHR ''n''" "char_of (114 :: nat) = CHR ''r''" "char_of (99 :: nat) = CHR ''c''"
  by code_simp+

lemma table_names: "map (\<lambda>c. sdstolower (cmd_name c)) redisCommandTable = map cmd_name (redisCommandTable[1 := row ''getnoreplycommand'' [] 0 [] False 0])"
  unfolding redisCommandTable_def row_def sdstolower_def by (simp add: char_letters tolower_def byte_val_def)

lemma table_distinct: "distinct (map cmd_name (redisCommandTable[1 := row ''getnoreplycommand'' [] 0 [] False 0]))"
  unfolding redisCommandTable_def row_def by simp

lemma table_flags: "list_all (\<lambda>c. list_all (\<lambda>f. cmd_flag_of f \<noteq> None) (sflags c)) redisCommandTable"
  unfolding redisCommandTable_def row_def by (simp add: cmd_flag_of_def)

lemma table_populates: "\<exists>r. populateCommandTable redisCommandTable [] = Inr r"
  by (rule populate_ok) (simp_all only: table_names table_distinct table_flags map_of.simps, simp)

definition table_loaded :: "policy \<Rightarrow> bool" where
  "table_loaded p \<longleftrightarrow> populateCommandTable redisCommandTable [] = Inr (commands p)"

lemma lookup_row:
  assumes "table_loaded p" "c \<in> set redisCommandTable" "sdstolower (cmd_name c) = n"
  shows "\<exists>fl. parse_sflags (sflags c) = Inr fl \<and> map_of (commands p) n = Some (c, fl)"
  using populate_row [OF assms(1) [unfolded table_loaded_def] assms(2)] assms(3) by simp

lemma tolower_idem: "sdstolower (sdstolower t) = sdstolower t"
proof -
  have "tolower (tolower ch) = tolower ch" for ch by (simp add: tolower_def byte_val_def)
  then show ?thesis by (simp add: sdstolower_def)
qed

section \<open>Commands and what they mean\<close>

datatype kcmd =
    KSet string string | KSetNx string string | KSetEx string int string | KGet string | KGetSet string string
  | KAppend string string | KStrlen string | KIncrBy string int | KGetRange string int int | KSetRange string int string
  | KDel "string list" | KExists "string list" | KPExpire string int | KPTtl string | KRename string string | KRenameNx string string

fun kargs :: "kcmd \<Rightarrow> string list" where
  "kargs (KSet k v) = [''set'', k, v]"
| "kargs (KSetNx k v) = [''setnx'', k, v]"
| "kargs (KSetEx k n v) = [''setex'', k, deci n, v]"
| "kargs (KGet k) = [''get'', k]"
| "kargs (KGetSet k v) = [''getset'', k, v]"
| "kargs (KAppend k v) = [''append'', k, v]"
| "kargs (KStrlen k) = [''strlen'', k]"
| "kargs (KIncrBy k n) = [''incrby'', k, deci n]"
| "kargs (KGetRange k a b) = [''getrange'', k, deci a, deci b]"
| "kargs (KSetRange k off v) = [''setrange'', k, deci off, v]"
| "kargs (KDel ks) = ''del'' # ks"
| "kargs (KExists ks) = ''exists'' # ks"
| "kargs (KPExpire k n) = [''pexpire'', k, deci n]"
| "kargs (KPTtl k) = [''pttl'', k]"
| "kargs (KRename a b) = [''rename'', a, b]"
| "kargs (KRenameNx a b) = [''renamenx'', a, b]"

definition krow :: "kcmd \<Rightarrow> redisCommand" where
  "krow c =
     (case c of
        KSet _ _ \<Rightarrow> row ''set'' ''setCommand'' (-3) ''wm'' False 1
      | KSetNx _ _ \<Rightarrow> row ''setnx'' ''setnxCommand'' 3 ''wmF'' False 1
      | KSetEx _ _ _ \<Rightarrow> row ''setex'' ''setexCommand'' 4 ''wm'' False 1
      | KGet _ \<Rightarrow> row ''get'' ''getCommand'' 2 ''rF'' False 1
      | KGetSet _ _ \<Rightarrow> row ''getset'' ''getsetCommand'' 3 ''wm'' False 1
      | KAppend _ _ \<Rightarrow> row ''append'' ''appendCommand'' 3 ''wm'' False 1
      | KStrlen _ \<Rightarrow> row ''strlen'' ''strlenCommand'' 2 ''rF'' False 1
      | KIncrBy _ _ \<Rightarrow> row ''incrby'' ''incrbyCommand'' 3 ''wmF'' False 1
      | KGetRange _ _ _ \<Rightarrow> row ''getrange'' ''getrangeCommand'' 4 ''r'' False 1
      | KSetRange _ _ _ \<Rightarrow> row ''setrange'' ''setrangeCommand'' 4 ''wm'' False 1
      | KDel _ \<Rightarrow> row ''del'' ''delCommand'' (-2) ''w'' False 1
      | KExists _ \<Rightarrow> row ''exists'' ''existsCommand'' (-2) ''rF'' False 1
      | KPExpire _ _ \<Rightarrow> row ''pexpire'' ''pexpireCommand'' 3 ''wF'' False 1
      | KPTtl _ \<Rightarrow> row ''pttl'' ''pttlCommand'' 2 ''rF'' False 1
      | KRename _ _ \<Rightarrow> row ''rename'' ''renameCommand'' 3 ''w'' False 1
      | KRenameNx _ _ \<Rightarrow> row ''renamenx'' ''renamenxCommand'' 3 ''wF'' False 1)"

text \<open>The meaning of a command at the time \<open>now\<close>: the new view, the reply, the number of changes.\<close>

fun kspec :: "int \<Rightarrow> kcmd \<Rightarrow> kview \<Rightarrow> kview \<times> string \<times> int" where
  "kspec now (KSet k v) m = (m(k \<mapsto> (AStr v, None)), shared_ok, 1)"
| "kspec now (KSetNx k v) m =
     (if m k = None then (m(k \<mapsto> (AStr v, None)), shared_cone, 1) else (m, shared_czero, 0))"
| "kspec now (KSetEx k n v) m = (m(k \<mapsto> (AStr v, Some (now + n * 1000))), shared_ok, 1)"
| "kspec now (KGet k) m = (m, get_reply (m k), 0)"
| "kspec now (KGetSet k v) m =
     (case m k of Some (AObj _, _) \<Rightarrow> (m, get_reply (m k), 0) | _ \<Rightarrow> (m(k \<mapsto> (AStr v, None)), get_reply (m k), 1))"
| "kspec now (KAppend k v) m = spec_append k v m"
| "kspec now (KStrlen k) m = spec_strlen k m"
| "kspec now (KIncrBy k n) m = spec_incrby k n m"
| "kspec now (KGetRange k a b) m = spec_getrange k a b m"
| "kspec now (KSetRange k off v) m = spec_setrange k off v m"
| "kspec now (KDel ks) m = spec_del ks m"
| "kspec now (KExists ks) m = spec_exists ks m"
| "kspec now (KPExpire k n) m = spec_expire now k (n + now) m"
| "kspec now (KPTtl k) m = spec_pttl now k m"
| "kspec now (KRename a b) m = spec_rename False a b m"
| "kspec now (KRenameNx a b) m = spec_rename True a b m"

text \<open>
  The commands the theorem is about: their numbers fit, their texts fit in one request, and a key is given
  where the table asks for one.
\<close>

fun kcmd_ok :: "int \<Rightarrow> kcmd \<Rightarrow> bool" where
  "kcmd_ok now (KSetEx k n v) \<longleftrightarrow> 0 < n \<and> in_int64 n \<and> in_int64 (n * 1000) \<and> in_int64 (now + n * 1000)"
| "kcmd_ok now (KIncrBy k n) \<longleftrightarrow> in_int64 n"
| "kcmd_ok now (KGetRange k a b) \<longleftrightarrow> in_int64 a \<and> in_int64 b"
| "kcmd_ok now (KSetRange k off v) \<longleftrightarrow> in_int64 off \<and> in_int64 (off + int (length v))"
| "kcmd_ok now (KPExpire k n) \<longleftrightarrow> in_int64 n \<and> in_int64 (n + now)"
| "kcmd_ok now (KDel ks) \<longleftrightarrow> ks \<noteq> []"
| "kcmd_ok now (KExists ks) \<longleftrightarrow> ks \<noteq> []"
| "kcmd_ok now _ \<longleftrightarrow> True"

text \<open>Views whose strings have at most 512 MB and can be sent, and whose expire times lie ahead.\<close>

definition kview_ok :: "int \<Rightarrow> kview \<Rightarrow> bool" where
  "kview_ok now m \<longleftrightarrow> (\<forall>k t x. m k = Some (AStr t, x) \<longrightarrow> short t \<and> sendable t) \<and>
     (\<forall>k v w. m k = Some (v, Some w) \<longrightarrow> now \<le> w)"

fun kruns :: "int \<Rightarrow> kcmd list \<Rightarrow> kview \<Rightarrow> kview \<times> string" where
  "kruns now [] m = (m, [])"
| "kruns now (c # cs) m =
     (let (m1, t, _) = kspec now c m; (m2, u) = kruns now cs m1 in (m2, t @ u))"

fun kadm :: "int \<Rightarrow> kcmd list \<Rightarrow> kview \<Rightarrow> bool" where
  "kadm now [] m \<longleftrightarrow> True"
| "kadm now (c # cs) m \<longleftrightarrow> kcmd_ok now c \<and> command_ok (kargs c) \<and> kview_ok now (fst (kspec now c m)) \<and>
     kadm now cs (fst (kspec now c m))"

section \<open>One command\<close>

text \<open>A server of its own: no replica, no script, no cluster, no memory limit, not loading.\<close>

definition plain_server :: "int \<Rightarrow> server \<Rightarrow> bool" where
  "plain_server now s \<longleftrightarrow> mstime s = now \<and> 0 \<le> now \<and> lua_start s = None \<and> \<not> is_slave s \<and> \<not> loading s \<and>
     \<not> cluster_enabled s \<and> maxmemory s = 0"

definition open_policy :: "policy \<Rightarrow> bool" where
  "open_policy p \<longleftrightarrow> table_loaded p \<and> \<not> requirepass p \<and> \<not> (stop_writes_on_bgsave_err p \<and> saveparamslen p > 0 \<and> lastbgsave_err p) \<and>
     \<not> aof_last_write_err p \<and> repl_min_slaves_to_write p = 0 \<and> \<not> lua_timedout p"

definition plain_client :: "client \<Rightarrow> bool" where
  "plain_client c \<longleftrightarrow> flags c \<subseteq> {CLIENT_PENDING_WRITE, CLIENT_CLOSE_ASAP} \<and> 0 < fd c"

lemma plain_now: "plain_server now s \<Longrightarrow> now_of s \<le> mstime s \<and> now_of s = now \<and> \<not> is_slave s \<and> \<not> loading s \<and> mstime s = now"
  by (simp add: plain_server_def now_of_def)

lemma plain_server_cong: "cfg s' = cfg s \<Longrightarrow> plain_server now s' = plain_server now s"
  using cfg_fields [of s' s] by (simp add: plain_server_def)

lemma kview_at:
  assumes "kview_ok now (tview s)" "plain_server now s"
  shows "short_at s k" "sendable_at s k" "future_at s k"
  using assms by (auto simp: kview_ok_def short_at_def sendable_at_def future_at_def plain_server_def)

lemma performs_does: "performs e s c r m t d 1 \<Longrightarrow> does e s c r (m, t, d)"
  by (simp add: does_def)

lemma performs_less: "performs e s c r m t d 0 \<Longrightarrow> performs e s c r m t d 1"
  unfolding performs_def using room_less by fastforce

lemma arg_short: "command_ok as \<Longrightarrow> a \<in> set as \<Longrightarrow> short a"
  using args_small by (simp add: short_def)

lemma arg_len31: "command_ok as \<Longrightarrow> a \<in> set as \<Longrightarrow> length a < 2 ^ 31"
  using args_small [of as a] by simp

lemma args_len63: "command_ok (n # as) \<Longrightarrow> length as < 2 ^ 63"
  using args_count [of "n # as"] by simp

definition kproc :: "kcmd \<Rightarrow> command_proc" where
  "kproc c = the (map_of (modelled_procs (cmd_name (krow c))) (cmd_proc (krow c)))"

lemmas kproc_defs = kproc_def krow_def row_def modelled_procs_def

lemma kcmd_does:
  assumes "args_are c (kargs kc)" "db_ok s" "room_for 1 s" "ready e c" "plain_server now s" "kview_ok now (tview s)"
    "kcmd_ok now kc" "command_ok (kargs kc)"
  shows "does e s c (kproc kc e s c) (kspec now kc (tview s))"
proof -
  note pl = plain_now [OF assms(5)]
  note at = kview_at [OF assms(6,5)]
  show ?thesis
  proof (cases kc)
    case (KSet k v)
    then show ?thesis using performs_does [OF setCommand_ok] assms(1-4) pl by (simp add: kproc_defs)
  next
    case (KSetNx k v)
    have "performs e s c (setnxCommand e s c ''setnx'')
      (if tview s k = None then (tview s)(k \<mapsto> (AStr v, None)) else tview s)
      (if tview s k = None then shared_cone else shared_czero) (if tview s k = None then 1 else 0) 1"
      by (rule setnxCommand_ok) (use KSetNx assms pl in simp_all)
    from performs_does [OF this] show ?thesis using KSetNx
      by (cases "tview s k") (simp_all add: kproc_defs)
  next
    case (KSetEx k n v)
    have "performs e s c (setexCommand e s c ''setex'') ((tview s)(k \<mapsto> (AStr v, Some (mstime s + n * 1000)))) shared_ok 1 1"
      by (rule setexCommand_ok [of c "''setex''" k "deci n" v]) (use KSetEx assms pl in \<open>simp_all add: string2ll_iff\<close>)
    from performs_does [OF this] show ?thesis using KSetEx pl by (simp add: kproc_defs)
  next
    case (KGet k)
    then show ?thesis using performs_does [OF performs_less [OF getCommand_ok]] assms(1-4) pl at
      by (simp add: kproc_defs)
  next
    case (KGetSet k v)
    have "performs e s c (getsetCommand e s c)
      (case tview s k of Some (AObj _, _) \<Rightarrow> tview s | _ \<Rightarrow> (tview s)(k \<mapsto> (AStr v, None))) (get_reply (tview s k))
      (case tview s k of Some (AObj _, _) \<Rightarrow> 0 | _ \<Rightarrow> 1) 1"
      by (rule getsetCommand_ok) (use KGetSet assms pl at in simp_all)
    from performs_does [OF this] show ?thesis using KGetSet
      by (simp add: kproc_defs split: option.splits prod.splits aval.splits)
  next
    case (KAppend k v)
    have "short v" using arg_short [OF assms(8), of v] KAppend by simp
    then show ?thesis using appendCommand_ok assms(1-4) at KAppend by (simp add: kproc_defs)
  next
    case (KStrlen k)
    then show ?thesis using strlenCommand_ok assms(1-4) at pl by (simp add: kproc_defs)
  next
    case (KIncrBy k n)
    have "does e s c (incrbyCommand e s c) (spec_incrby k n (tview s))"
      by (rule incrbyCommand_ok [of c "''incrby''" k "deci n"]) (use KIncrBy assms in \<open>simp_all add: string2ll_iff\<close>)
    then show ?thesis using KIncrBy by (simp add: kproc_defs)
  next
    case (KGetRange k a b)
    have "does e s c (getrangeCommand e s c) (spec_getrange k a b (tview s))"
      by (rule getrangeCommand_ok [of c "''getrange''" k "deci a" "deci b"]) (use KGetRange assms pl at in \<open>simp_all add: string2ll_iff\<close>)
    then show ?thesis using KGetRange by (simp add: kproc_defs)
  next
    case (KSetRange k off v)
    have "short v" using arg_short [OF assms(8), of v] KSetRange by simp
    then have "does e s c (setrangeCommand e s c) (spec_setrange k off v (tview s))"
      by (intro setrangeCommand_ok [of c "''setrange''" k "deci off" v]) (use KSetRange assms at in \<open>simp_all add: string2ll_iff\<close>)
    then show ?thesis using KSetRange by (simp add: kproc_defs)
  next
    case (KDel ks)
    then show ?thesis using delCommand_ok assms(1-4,8) args_len63 by (simp add: kproc_defs)
  next
    case (KExists ks)
    then show ?thesis using existsCommand_ok assms(1-4,8) args_len63 pl by (simp add: kproc_defs)
  next
    case (KPExpire k n)
    have "does e s c (expireGenericCommand e s c (mstime s) UNIT_MILLISECONDS) (spec_expire (mstime s) k (n + mstime s) (tview s))"
      by (rule expireGeneric_ok [of c "''pexpire''" k "deci n"]) (use KPExpire assms pl in \<open>simp_all add: string2ll_iff\<close>)
    then show ?thesis using KPExpire pl by (simp add: kproc_defs pexpireCommand_def)
  next
    case (KPTtl k)
    then show ?thesis using pttl_ok [of c "''pttl''" k s e] assms(1-4) pl at by (simp add: kproc_defs)
  next
    case (KRename a b)
    have "length a < 2 ^ 31" "length b < 2 ^ 31" using arg_len31 [OF assms(8)] KRename by simp_all
    then show ?thesis using renameGeneric_ok [of c "''rename''" a b s e False] assms(1-4) pl at KRename
      by (simp add: kproc_defs renameCommand_def)
  next
    case (KRenameNx a b)
    have "length a < 2 ^ 31" "length b < 2 ^ 31" using arg_len31 [OF assms(8)] KRenameNx by simp_all
    then show ?thesis using renameGeneric_ok [of c "''renamenx''" a b s e True] assms(1-4) pl at KRenameNx
      by (simp add: kproc_defs renamenxCommand_def)
  qed
qed

section \<open>The whole path of a command\<close>

lemma row_in_table: "krow kc \<in> set redisCommandTable"
  by (cases kc) (simp_all add: krow_def redisCommandTable_def row_def)

lemma row_name: "sdstolower (cmd_name (krow kc)) = hd (kargs kc)"
  by (cases kc) (simp_all add: krow_def row_def sdstolower_def tolower_def byte_val_def)

lemma row_args:
  "kcmd_ok now kc \<Longrightarrow> \<not> (arity (krow kc) > 0 \<and> arity (krow kc) \<noteq> int (length (kargs kc)) \<or> int (length (kargs kc)) < - arity (krow kc))"
  by (cases kc) (auto simp: krow_def row_def neq_Nil_conv)

lemma row_proc: "run_proc p (krow kc) = kproc kc"
  by (cases kc) (simp_all add: run_proc_def kproc_def krow_def row_def modelled_procs_def)

lemma view_of_parts:
  assumes "db s' = db s" "mstime s' = mstime s" "lua_start s' = lua_start s" "loading s' = loading s" "is_slave s' = is_slave s" "hash_seed s' = hash_seed s" "held s' = held s"
  shows "db_ok s' = db_ok s" "tview s' = tview s" "room_for n s' = room_for n s"
proof -
  have "dictSdsHash s' = dictSdsHash s" using assms(6) by (simp add: dictSdsHash_def fun_eq_iff)
  then show "db_ok s' = db_ok s" using assms(1,7) by (simp add: db_ok_def)
  have "gone s' k = gone s k" for k unfolding gone_def expired_def now_of_def assms ..
  then have "view s' = view s" using assms(1) by (simp add: view_def fun_eq_iff)
  then show "tview s' = tview s" by (rule tview_cong)
  show "room_for n s' = room_for n s" using assms(1) by (simp add: room_for_def)
qed

lemma bookkeeping [simp]:
  "db_ok (s\<lparr>notices := ns\<rparr>) = db_ok s" "tview (s\<lparr>notices := ns\<rparr>) = tview s" "room_for n (s\<lparr>notices := ns\<rparr>) = room_for n s"
  "db_ok (s\<lparr>stat_numcommands := i\<rparr>) = db_ok s" "tview (s\<lparr>stat_numcommands := i\<rparr>) = tview s" "room_for n (s\<lparr>stat_numcommands := i\<rparr>) = room_for n s"
  "db_ok (s\<lparr>readonly_caller := b\<rparr>) = db_ok s" "tview (s\<lparr>readonly_caller := b\<rparr>) = tview s" "room_for n (s\<lparr>readonly_caller := b\<rparr>) = room_for n s"
  "plain_server now (s\<lparr>notices := ns\<rparr>) = plain_server now s" "plain_server now (s\<lparr>stat_numcommands := i\<rparr>) = plain_server now s"
  "plain_server now (s\<lparr>readonly_caller := b\<rparr>) = plain_server now s" "plain_server now (noted m s) = plain_server now s"
  by (rule view_of_parts; simp)+ (simp_all add: plain_server_def noted_def)

lemma plain_prop: "plain_client c \<Longrightarrow> flags c \<inter> prop_flags = {} \<and> flags c - prop_flags = flags c"
  by (auto simp: plain_client_def prop_flags_def)

lemma answers_keeps:
  assumes "answers e t c c'"
  shows "keeps (c\<lparr>argv := argv c'\<rparr>) c'" "list_all str_obj (argv c')" "out_ok e c'" "reply_bytes c' \<le> reply_bytes c + 4 * 2 ^ 48"
    "takes_replies c \<Longrightarrow> out_bytes c' = out_bytes c @ t"
proof -
  obtain a where a: "list_all str_obj a" "appends e 4 t (c\<lparr>argv := a\<rparr>) c'" using assms by (auto simp: answers_def)
  have "argv c' = a" using appends_argv [OF a(2)] by simp
  with a show "keeps (c\<lparr>argv := argv c'\<rparr>) c'" "list_all str_obj (argv c')" "out_ok e c'" "reply_bytes c' \<le> reply_bytes c + 4 * 2 ^ 48"
    "takes_replies c \<Longrightarrow> out_bytes c' = out_bytes c @ t" by (simp_all add: appends_def)
qed

lemma answers_plain: "answers e t c c' \<Longrightarrow> plain_client c \<Longrightarrow> plain_client c'"
  using answers_keeps(1) [of e t c c'] keeps_fields(1) [of "c\<lparr>argv := argv c'\<rparr>" c'] by (auto simp: keeps_def plain_client_def)

lemma answers_parse: "answers e t c c' \<Longrightarrow> plain_client c \<Longrightarrow> parse_same c c'"
  using answers_keeps(1,2) [of e t c c'] keeps_fields(2) [of "c\<lparr>argv := argv c'\<rparr>" c']
  by (auto simp: keeps_def plain_client_def parse_same_def stop_flags_def)

lemma call_ok:
  assumes "args_are c (kargs kc)" "db_ok s" "room_for 1 s" "ready e c" "plain_server now s" "kview_ok now (tview s)"
    "kcmd_ok now kc" "command_ok (kargs kc)" "plain_client c"
  shows "\<exists>s' c'. call e p (krow kc) cf fl s c = Inr (s', c') \<and> db_ok s' \<and> plain_server now s' \<and> tview s' = fst (kspec now kc (tview s)) \<and>
    (\<forall>n. room_for (1 + n) s \<longrightarrow> room_for n s') \<and> answers e (fst (snd (kspec now kc (tview s)))) c c'"
proof -
  define s1 where "s1 = (if monitors p \<and> \<not> loading s \<and> CMD_SKIP_MONITOR \<notin> cf \<and> CMD_ADMIN \<notin> cf
      then noted (FeedMonitors (map obj_text (argv c))) s else s)"
  have s1: "db_ok s1" "room_for n s1 = room_for n s" "plain_server now s1" "tview s1 = tview s" for n
    using assms(2,5) by (simp_all add: s1_def)
  have c1: "c\<lparr>flags := flags c - prop_flags\<rparr> = c" using plain_prop [OF assms(9)] by simp
  have "does e s1 c (kproc kc e s1 c) (kspec now kc (tview s))"
    using kcmd_does [OF assms(1) s1(1) _ assms(4) s1(3) _ assms(7,8)] assms(3,6) s1 by simp
  then obtain s2 c2 where r: "kproc kc e s1 c = Inr (s2, c2)" "db_ok s2" "cfg s2 = cfg s1" "tview s2 = fst (kspec now kc (tview s))"
    "answers e (fst (snd (kspec now kc (tview s)))) c c2" "\<forall>n. room_for (1 + n) s1 \<longrightarrow> room_for n s2"
    by (auto simp: does_def performs_def)
  have c2: "c2\<lparr>flags := flags c2 - prop_flags \<union> flags c \<inter> prop_flags\<rparr> = c2"
    using plain_prop [OF answers_plain [OF r(5) assms(9)]] plain_prop [OF assms(9)] by simp
  have "plain_server now s2" using s1(3) plain_server_cong [OF r(3)] by simp
  then show ?thesis unfolding call_def Let_def s1_def [symmetric] c1 row_proc r(1) rbind_simps prod.case c2
    using r(2,4-6) s1(2) by simp
qed

lemma server_exec_ok:
  assumes "args_are c (kargs kc)" "db_ok s" "room_for 1 s" "ready e c" "plain_server now s" "kview_ok now (tview s)"
    "kcmd_ok now kc" "command_ok (kargs kc)" "plain_client c" "open_policy p"
  shows "\<exists>s' c'. server_exec e p s c = Inr (True, False, True, s', c') \<and> db_ok s' \<and> plain_server now s' \<and>
    tview s' = fst (kspec now kc (tview s)) \<and> (\<forall>n. room_for (1 + n) s \<longrightarrow> room_for n s') \<and>
    answers e (fst (snd (kspec now kc (tview s)))) c c'"
proof -
  have ne: "0 < length (kargs kc)" "is_cstring (hd (kargs kc))" "kargs kc ! 0 = hd (kargs kc)" "\<not> strcasecmp_eq (hd (kargs kc)) ''quit''"
    by (cases kc; simp add: strcasecmp_eq_def tolower_def byte_val_def)+
  obtain t where t: "arg_sds c 0 = Inr t" "sds_ok t" "sdsval t = hd (kargs kc)" using arg_ok [OF assms(1) ne(1)] ne(3) by auto
  have key: "arg_key c 0 = Inr (hd (kargs kc))" using arg_key_ok [OF assms(1) ne(1)] ne(3) by simp
  obtain r where "hdr_buf t = sdsval t @ NUL # r" using sds_buf_NUL [OF t(2)] by blast
  then have cs: "rd_cstr (hdr_buf t) 0 = Inr (hd (kargs kc))" using t(3) ne(2) by (simp add: rd_cstr_def cstr_append_clean)
  have lu: "\<exists>fl. lookupCommand (commands p) (hd (kargs kc)) = Some (krow kc, fl)"
  proof -
    have "sdstolower (hd (kargs kc)) = hd (kargs kc)" by (metis row_name tolower_idem)
    then show ?thesis using lookup_row [OF _ row_in_table row_name, of p kc] assms(10) by (auto simp: lookupCommand_def open_policy_def)
  qed
  then obtain fl where fl: "lookupCommand (commands p) (hd (kargs kc)) = Some (krow kc, fl)" by blast
  let ?s = "s\<lparr>readonly_caller := CLIENT_MASTER \<notin> flags c \<and> CMD_READONLY \<in> fl\<rparr>"
  have ar: "\<not> (arity (krow kc) > 0 \<and> arity (krow kc) \<noteq> int (length (argv c)) \<or> int (length (argv c)) < - arity (krow kc))"
    using row_args [OF assms(7)] args_len [OF assms(1)] by simp
  have pr: "cmd_proc (krow kc) \<noteq> ''askingCommand''" by (cases kc) (simp_all add: krow_def row_def)
  have fc: "CLIENT_MULTI \<notin> flags c" "CLIENT_PUBSUB \<notin> flags c" using assms(9) by (auto simp: plain_client_def)
  have rw: "refuse_write e p (krow kc) fl ?s c = Inr None" "refuse_state e p (krow kc) fl ?s c = Inr None"
    using assms(5,10) fc by (auto simp: refuse_write_def refuse_state_def open_policy_def plain_server_def)
  obtain s1 c1 where c: "call e p (krow kc) fl CMD_CALL_FULL ?s c = Inr (s1, c1)" "db_ok s1" "plain_server now s1"
      "tview s1 = fst (kspec now kc (tview s))" "\<forall>n. room_for (1 + n) s \<longrightarrow> room_for n s1"
      "answers e (fst (snd (kspec now kc (tview s)))) c c1"
    using call_ok [OF assms(1) _ _ assms(4) _ _ assms(7-9), of ?s p fl CMD_CALL_FULL] assms(2,3,5,6) by auto
  define s2 where "s2 = (if ready_keys p then noted ServeBlocked s1 else s1)"
  have rq: "run_or_queue e p (krow kc) fl ?s c = Inr (s2, c1)" using fc c(1) by (simp add: run_or_queue_def s2_def)
  have "processCommand e p s c = Inr (True, Some (krow kc), True, s2, c1)"
    unfolding processCommand_def t(1) rbind_simps cs if_not_P [OF ne(4)] key fl option.case prod.case Let_def if_not_P [OF ar]
    using assms(5,10) rw rq by (simp add: open_policy_def plain_server_def)
  then have "server_exec e p s c = Inr (True, False, True, s2, c1)" using pr by (simp add: server_exec_def)
  moreover have "db_ok s2" "plain_server now s2" "tview s2 = tview s1" "room_for n s2 = room_for n s1" for n using c(2,3) by (simp_all add: s2_def)
  ultimately show ?thesis using c by auto
qed

end
