(* ===== verification/Serve.thy ===== *)
theory Serve
  imports CommandOk
begin

text \<open>
  The server as its clients see it: the bytes a client sends go through the query buffer, the parser, the
  command table, the command and the output buffer. The execution of commands implements the interface
  \<open>command_server\<close> of the input side.
\<close>

section \<open>The command server\<close>

text \<open>
  The server is ready for the commands \<open>cmds\<close> when they spell commands with a meaning; the view \<open>M\<close> and the
  output \<open>out\<close> are what they lead to, so that a step that keeps this predicate is a step of the specification.
\<close>

definition kready :: "env \<Rightarrow> policy \<Rightarrow> int \<Rightarrow> kview \<Rightarrow> string \<Rightarrow> server \<Rightarrow> string list list \<Rightarrow> client \<Rightarrow> bool" where
  "kready e p now M out s cmds c \<longleftrightarrow>
     (\<exists>ks. cmds = map kargs ks \<and> open_policy p \<and> env_ok e \<and> plain_server now s \<and> plain_client c \<and> db_ok s \<and>
        room_for (length ks) s \<and> out_ok e c \<and> has_room (4 * length ks) c \<and> kview_ok now (tview s) \<and> kadm now ks (tview s) \<and>
        fst (kruns now ks (tview s)) = M \<and> out_bytes c @ snd (kruns now ks (tview s)) = out)"

lemma plain_takes: "plain_client c \<Longrightarrow> takes_replies c"
  by (auto simp: plain_client_def takes_replies_def)

lemma kruns_Cons:
  "fst (kruns now (k # ks) m) = fst (kruns now ks (fst (kspec now k m)))"
  "snd (kruns now (k # ks) m) = fst (snd (kspec now k m)) @ snd (kruns now ks (fst (kspec now k m)))"
  by (simp_all add: Let_def split: prod.splits)

lemma kadm_ok: "kadm now ks m \<Longrightarrow> k \<in> set ks \<Longrightarrow> command_ok (kargs k)"
  by (induction ks arbitrary: m) auto

lemma kready_step:
  assumes "kready e p now M out s (as # cmds) c" "list_all arg_obj (argv c)" "map obj_text (argv c) = as"
  shows "\<exists>s' c'. server_exec e p s c = Inr (True, False, True, s', c') \<and> parse_same c c' \<and> kready e p now M out s' cmds c'"
proof -
  obtain ks' where ks': "as # cmds = map kargs ks'" and pol: "open_policy p" "env_ok e" and sv: "plain_server now s" "db_ok s" "room_for (length ks') s"
    and cl: "plain_client c" "out_ok e c" "has_room (4 * length ks') c" and vw: "kview_ok now (tview s)" "kadm now ks' (tview s)"
    and res: "fst (kruns now ks' (tview s)) = M" "out_bytes c @ snd (kruns now ks' (tview s)) = out"
    using assms(1) unfolding kready_def by (elim exE conjE) (rule that)
  obtain k ks where k: "ks' = k # ks" "as = kargs k" "cmds = map kargs ks" using ks' by (cases ks') auto
  have a: "args_are c (kargs k)" using assms(2,3) k(2) by (simp add: args_are_def arg_obj_def list_all_iff)
  have r1: "room_for 1 s" using sv(3) k(1) room_less [of "length ks" 1 s] by (simp add: add.commute)
  have rd: "ready e c" using cl(2,3) pol(2) k(1) has_room_le [of "4 * length ks'" c 4] by (simp add: ready_def)
  have kk: "kcmd_ok now k" "command_ok (kargs k)" "kview_ok now (fst (kspec now k (tview s)))" "kadm now ks (fst (kspec now k (tview s)))"
    using vw(2) k(1) by simp_all
  obtain s' c' where x: "server_exec e p s c = Inr (True, False, True, s', c')" "db_ok s'" "plain_server now s'"
      "tview s' = fst (kspec now k (tview s))" "\<forall>n. room_for (1 + n) s \<longrightarrow> room_for n s'"
      "answers e (fst (snd (kspec now k (tview s)))) c c'"
    using server_exec_ok [OF a sv(2) r1 rd sv(1) vw(1) kk(1,2) cl(1) pol(1)] by (elim exE conjE) (rule that)
  note w = answers_keeps [OF x(6)]
  have ob: "out_bytes c' = out_bytes c @ fst (snd (kspec now k (tview s)))" using w(5) plain_takes [OF cl(1)] by simp
  have "has_room (4 * length ks) c'" using w(4) cl(3) k(1) by (simp add: has_room_def)
  moreover have "room_for (length ks) s'" using x(5) sv(3) k(1) by simp
  moreover have "fst (kruns now ks (tview s')) = M" "out_bytes c' @ snd (kruns now ks (tview s')) = out"
    using res unfolding k(1) kruns_Cons x(4) ob by simp_all
  ultimately have "kready e p now M out s' cmds c'"
    unfolding kready_def using k(3) pol x(2,3) answers_plain [OF x(6) cl(1)] w(3) kk(3,4) x(4) by (intro exI [of _ ks]) simp
  then show ?thesis using x(1) answers_parse [OF x(6) cl(1)] by blast
qed

lemma reset_plain:
  assumes "plain_client c" "resetClient False c = Inr c'"
  shows "c' = c\<lparr>argv := [], reqtype := 0, multibulklen := 0, bulklen := -1\<rparr>"
proof -
  obtain c1 where c1: "freeClientArgv c = Inr c1" using assms(2) by (cases "freeClientArgv c") (auto simp: resetClient_def)
  then have "c1 = c\<lparr>argv := []\<rparr>" by (cases "rmap decrRefCount (argv c)") (auto simp: freeClientArgv_def)
  moreover have "CLIENT_REPLY_SKIP_NEXT \<notin> flags c" "CLIENT_MULTI \<notin> flags c" "flags c - {CLIENT_ASKING} = flags c"
      "flags c - {CLIENT_REPLY_SKIP} = flags c" using assms(1) by (auto simp: plain_client_def)
  ultimately show ?thesis using assms(2) unfolding resetClient_def c1 rbind_simps Let_def by simp
qed

lemma kready_same:
  assumes "kready e p now M out s cmds c" "flags c' = flags c" "fd c' = fd c" "out_bytes c' = out_bytes c" "out_ok e c' = out_ok e c"
    "reply_bytes c' = reply_bytes c"
  shows "kready e p now M out s cmds c'"
  using assms by (simp add: kready_def plain_client_def has_room_def)

lemma kready_input:
  assumes "kready e p now M out s cmds c" "input_step c c'"
  shows "kready e p now M out s cmds c'"
proof -
  have c: "plain_client c" using assms(1) by (auto simp: kready_def)
  have "flags c' = flags c \<and> fd c' = fd c \<and> out_bytes c' = out_bytes c \<and> out_ok e c' = out_ok e c \<and> reply_bytes c' = reply_bytes c"
    using assms(2) reset_plain [OF c, of c'] unfolding input_step_def
    by (elim disjE exE) (simp_all add: out_bytes_def out_ok_def sent_ok_def)
  then show ?thesis using kready_same [OF assms(1)] by simp
qed

interpretation redis: command_server "server_exec e p" "kready e p now M out" for e p now M out
  by unfold_locales (rule kready_step kready_input, assumption+)+

text \<open>
  A server and a connection at rest that can take \<open>m\<close> commands: an open policy, room for as many keys and replies,
  values that can be sent, and nothing pending on the input side.
\<close>

definition can_serve :: "env \<Rightarrow> policy \<Rightarrow> int \<Rightarrow> nat \<Rightarrow> server \<Rightarrow> client \<Rightarrow> bool" where
  "can_serve e p now m s c \<longleftrightarrow> open_policy p \<and> env_ok e \<and> plain_server now s \<and> db_ok s \<and> room_for m s \<and> plain_client c \<and>
     conn [] c [] \<and> out_ok e c \<and> has_room (4 * m) c \<and> kview_ok now (tview s)"

text \<open>The ways the network may cut \<open>len\<close> bytes: positive pieces, as many as may be needed.\<close>

definition cuts_for :: "nat \<Rightarrow> nat list \<Rightarrow> bool" where
  "cuts_for len cuts \<longleftrightarrow> (\<forall>b \<in> set cuts. 0 < b) \<and> len \<le> length cuts"

lemma served:
  assumes "can_serve e p now (length ks) s c" "kadm now ks (tview s)" "length ks < n" "PROTO_INLINE_MAX_SIZE \<le> maxlen"
    "cuts_for (length (resp_stream (map kargs ks))) cuts"
  shows "\<exists>s' c'. read_all e maxlen (server_exec e p) n cuts (resp_stream (map kargs ks)) s c = Inr (Some (s', c')) \<and>
    kready e p now (fst (kruns now ks (tview s))) (out_bytes c @ snd (kruns now ks (tview s))) s' [] c' \<and> conn [] c' []"
proof (rule redis.stream_ok)
  show "kready e p now (fst (kruns now ks (tview s))) (out_bytes c @ snd (kruns now ks (tview s))) s (map kargs ks) c"
    unfolding kready_def using assms(1,2) by (intro exI [of _ ks]) (simp add: can_serve_def)
  show "\<forall>as \<in> set (map kargs ks). command_ok as" using kadm_ok [OF assms(2)] by simp
qed (use assms in \<open>simp_all add: can_serve_def cuts_for_def\<close>)

lemma served_one:
  assumes "can_serve e p now 1 s c" "kcmd_ok now kc" "command_ok (kargs kc)" "kview_ok now (fst (kspec now kc (tview s)))"
    "PROTO_INLINE_MAX_SIZE \<le> maxlen" "cuts_for (length (resp_stream [kargs kc])) cuts"
  shows "\<exists>s' c'. read_all e maxlen (server_exec e p) 2 cuts (resp_stream [kargs kc]) s c = Inr (Some (s', c')) \<and>
    tview s' = fst (kspec now kc (tview s)) \<and> out_bytes c' = out_bytes c @ fst (snd (kspec now kc (tview s))) \<and> db_ok s'"
proof -
  have "\<exists>s' c'. read_all e maxlen (server_exec e p) 2 cuts (resp_stream (map kargs [kc])) s c = Inr (Some (s', c')) \<and>
    kready e p now (fst (kruns now [kc] (tview s))) (out_bytes c @ snd (kruns now [kc] (tview s))) s' [] c' \<and> conn [] c' []"
    by (rule served) (use assms in simp_all)
  moreover have "fst (kruns now [kc] (tview s)) = fst (kspec now kc (tview s))" "snd (kruns now [kc] (tview s)) = fst (snd (kspec now kc (tview s)))"
    unfolding kruns_Cons by simp_all
  ultimately show ?thesis by (auto simp: kready_def)
qed

section \<open>Properties\<close>


definition demo_policy :: "(string \<times> redisCommand \<times> cmd_flag set) list \<Rightarrow> policy" where
  "demo_policy t = \<lparr>commands = t, other_proc = (\<lambda>_ e s c. Inr (s, c)), requirepass = False, free_memory = (\<lambda>s. (True, True, s)),
     redirects = (\<lambda>_ _. None), caller_is_master = False, stop_writes_on_bgsave_err = False, saveparamslen = 0, lastbgsave_err = False,
     aof_last_write_err = False, aof_errno_text = [], repl_min_slaves_to_write = 0, repl_min_slaves_max_lag = 0,
     repl_good_slaves_count = 0, repl_slave_ro = True, repl_connected = False, repl_serve_stale_data = True, lua_timedout = False,
     monitors = False, ready_keys = False\<rparr>"

lemma demo_view: "tview (demo_server now) = Map.empty"
  by (auto simp: demo_server_ok tview_def view_def)

lemma demo_plain: "0 \<le> now \<Longrightarrow> plain_server now (demo_server now)"
  by (simp add: plain_server_def demo_server_def)

lemma demo_open: "populateCommandTable redisCommandTable [] = Inr t \<Longrightarrow> open_policy (demo_policy t)"
  by (simp add: open_policy_def demo_policy_def table_loaded_def)

lemma demo_serves:
  assumes "db_ok s" "cfg s = cfg (demo_server now)" "room_for 3 s" "kview_ok now (tview s)" "0 \<le> now" "m \<le> 3"
  obtains t q where "populateCommandTable redisCommandTable [] = Inr t" "sdsempty = Inr q" "can_serve demo_env (demo_policy t) now m s (demo_client q)"
proof -
  obtain t where t: "populateCommandTable redisCommandTable [] = Inr t" using table_populates by blast
  obtain q where q: "sdsempty = Inr q" "sds_ok q" "sdsval q = []" using sdsempty_ok by blast
  have c: "conn [] (demo_client q) []" "plain_client (demo_client q)" "has_room (4 * m) (demo_client q)"
    using q assms(6) by (simp_all add: conn_def demo_client_def running_def plain_client_def has_room_def)
  have "plain_server now s" using plain_server_cong [OF assms(2)] demo_plain [OF assms(5)] by simp
  then have "can_serve demo_env (demo_policy t) now m s (demo_client q)"
    using assms(1,4) c demo_open [OF t] demo_ok(1,2) room_few [OF assms(3,6)] by (simp add: can_serve_def)
  then show thesis using that t q(1) by blast
qed

definition demo_cmds :: "kcmd list" where
  "demo_cmds = [KSet ''k'' ''10'', KIncrBy ''k'' 5, KGet ''k'']"

lemma demo_texts: "deci 5 = ''5''" "deci 10 = ''10''" "deci 15 = ''15''" "bulk_text ''15'' = ''$2'' @ crlf @ ''15'' @ crlf"
  by code_simp+

lemma demo_number: "string2ll ''10'' = Some 10"
  using demo_texts(2) by (simp add: string2ll_iff in_int64_def)

lemma demo_incr: "spec_incrby ''k'' 5 [''k'' \<mapsto> (AStr ''10'', None)] = ([''k'' \<mapsto> (AStr ''15'', None)], int_reply 15, 1)"
  by (simp add: spec_incrby_def demo_texts demo_number in_int64_def)

lemma demo_kadm: "kadm 1000 demo_cmds Map.empty" "length (resp_stream (map kargs demo_cmds)) \<le> 100"
  by (simp_all add: demo_cmds_def demo_incr demo_texts command_ok_def kview_ok_def in_int64_def short_def sendable_def resp_stream_def
      resp_command_def resp_bulk_def crlf_def dec.simps deci_def)

lemma demo_kruns: "fst (kruns 1000 demo_cmds Map.empty) = [''k'' \<mapsto> (AStr ''15'', None)]"
  "snd (kruns 1000 demo_cmds Map.empty) = ''+OK'' @ crlf @ '':15'' @ crlf @ ''$2'' @ crlf @ ''15'' @ crlf"
  by (simp_all add: demo_cmds_def demo_incr shared_ok_def int_reply_def demo_texts get_reply_def)


text \<open>The key a command on strings reads or changes in place; a negative offset is refused before the key is looked at.\<close>

fun string_key :: "kcmd \<Rightarrow> string option" where
  "string_key (KGet k) = Some k"
| "string_key (KGetSet k v) = Some k"
| "string_key (KAppend k v) = Some k"
| "string_key (KStrlen k) = Some k"
| "string_key (KIncrBy k n) = Some k"
| "string_key (KGetRange k a b) = Some k"
| "string_key (KSetRange k off v) = (if off < 0 then None else Some k)"
| "string_key _ = None"

lemma wrong_type_spec: "string_key kc = Some k \<Longrightarrow> m k = Some (AObj v, x) \<Longrightarrow> kspec now kc m = (m, shared_wrongtypeerr, 0)"
  by (cases kc) (auto simp: get_reply_def spec_append_def spec_strlen_def spec_incrby_def spec_getrange_def spec_setrange_def Let_def split: if_splits)


lemma demo_list_view: "aval demo_list = AObj demo_list"
  by (simp add: aval_def demo_list_def no_lru_def)



lemma demo_string:
  assumes "length t < 2 ^ 31"
  obtains v where "typed_obj v" "aval v = AStr t"
proof -
  obtain v where "str_obj v" "obj_text v = t" using createStringObject_ok [of "length t" t 0] assms by auto
  then show thesis using that [of v] typed_str by (auto simp: aval_def str_obj_def)
qed


text \<open>
  C35. \<open>PERSIST\<close> brings an expired key back. It finds the key without looking at its time, unlike
  every other command on keys; on a key whose time has passed but that nobody has asked for since, which
  every other command takes for missing, it answers 1 and the key is there again with its old value,
  for good.
\<close>

theorem persist_revives:
  assumes "args_are c [nm, k]" "db_ok s" "ready e c" "gone s k"
  shows "tview s k = None \<and> (\<exists>v s' c'. kmap s k = Some v \<and> persistCommand e s c = Inr (s', c') \<and> answers e shared_cone c c' \<and>
    db_ok s' \<and> tview s' = (tview s)(k \<mapsto> (aval v, None)))"
proof -
  obtain w where w: "kexp s k = Some w" using assms(4) gone_None [of s k] by (cases "kexp s k") auto
  then obtain v where v: "kmap s k = Some v" using db_okD(3) [OF assms(2)] by blast
  have k: "arg_key c 1 = Inr k" using arg_key_ok [OF assms(1), of 1] by simp
  obtain s1 where s1: "find_key s k = Inr (kmap s k, s1)" "goes s s1 0 (tview s) 0" "kmap s1 = kmap s" "kexp s1 = kexp s"
    using find_goes [OF assms(2)] by blast
  obtain s2 where s2: "removeExpire s1 k = Inr (True, s2)" "leaves s1 s2 (kmap s) ((kexp s)(k := None)) []"
    using removeExpire_ok [OF goesD(1) [OF s1(2)]] s1(3,4) v w by fastforce
  note l = leavesD [OF s2(2)]
  have "leaves s1 s2 ((kmap s1)(k \<mapsto> v)) ((kexp s1)(k := None)) []" using s2(2) s1(3,4) v by (simp add: map_upd_triv)
  from view_upd [OF this] l(4) have "view s2 = (view s1)(k \<mapsto> (no_lru v, None))" by simp
  from tview_upd [OF this] have t: "tview s2 = (tview s)(k \<mapsto> (aval v, None))" using goesD(2) [OF s1(2)] by simp
  obtain c1 where c1: "addReplyShared e c shared_cone = Inr c1" "answers e shared_cone c c1"
    using shared_answer [OF assms(3) args_strs [OF assms(1)]] by force
  have "persistCommand e s c = Inr (dirtied s2, c1)" using k s1(1) v s2(1) c1(1) by (simp add: persistCommand_def)
  moreover have "tview (dirtied s2) = (tview s)(k \<mapsto> (aval v, None))" "db_ok (dirtied s2)" using t l(1) by simp_all
  moreover have "tview s k = None" using assms(4) by (simp add: tview_def view_def)
  ultimately show ?thesis using v c1(2) by blast
qed

lemma demo_args:
  assumes "\<forall>t \<in> set ts. length t < 2 ^ 31"
  obtains a where "args_are (demo_client q\<lparr>argv := a\<rparr>) ts"
proof -
  have "\<exists>v. createStringObject 0 (Some t) (length t) = Inr v \<and> arg_obj v \<and> obj_text v = t" if "t \<in> set ts" for t
    using createStringObject_encoded [of 0 t "length t"] createStringObject_ok [of "length t" t 0] assms that by (fastforce simp: arg_obj_def)
  from rmap_ex [of ts "\<lambda>t. createStringObject 0 (Some t) (length t)" "\<lambda>t v. arg_obj v \<and> obj_text v = t", OF this]
  obtain a where a: "list_all2 (\<lambda>t v. arg_obj v \<and> obj_text v = t) ts a" by blast
  then have "map obj_text a = ts" by (auto simp: list_all2_conv_all_nth intro: nth_equalityI)
  moreover have "list_all arg_obj a" using a by (auto simp: list_all2_conv_all_nth list_all_length)
  ultimately show thesis using that [of a] by (simp add: args_are_def arg_obj_def list_all_iff)
qed

theorem persist_revives_witness:
  "\<exists>q a s s' c'. map obj_text a = [''persist'', ''k''] \<and> tview s ''k'' = None \<and> kexp s ''k'' = Some 1999 \<and> mstime s = 2000 \<and>
    persistCommand demo_env s (demo_client q\<lparr>argv := a\<rparr>) = Inr (s', c') \<and> tview s' ''k'' = Some (AObj demo_list, None)"
proof -
  obtain q where q: "sdsempty = Inr q" using sdsempty_ok by blast
  obtain a where a: "args_are (demo_client q\<lparr>argv := a\<rparr>) [''persist'', ''k'']" using demo_args [of "[''persist'', ''k'']" q] by auto
  have r: "ready demo_env (demo_client q\<lparr>argv := a\<rparr>)"
    using demo_ok(1) demo_ok(2) [of q] by (simp add: ready_def out_ok_def sent_ok_def has_room_def demo_client_def)
  have "in_int64 1999" by (simp add: in_int64_def)
  from demo_with_expire [OF demo_list_typed this, of 2000 "''k''"] obtain s where
    s: "db_ok s" "cfg s = cfg (demo_server 2000)" "kmap s = [''k'' \<mapsto> demo_list]" "kexp s = [''k'' \<mapsto> 1999]" by blast
  note f = cfg_fields [OF s(2)]
  have g: "gone s ''k''" unfolding gone_def expired_def now_of_def f by (simp add: s(4) demo_server_def)
  have m: "mstime s = 2000" unfolding f by (simp add: demo_server_def)
  have v: "aval demo_list = AObj demo_list" by (simp add: aval_def demo_list_def no_lru_def)
  from persist_revives [OF a s(1) r g] s(3) v obtain s' c' where "tview s ''k'' = None"
    "persistCommand demo_env s (demo_client q\<lparr>argv := a\<rparr>) = Inr (s', c')" "tview s' = (tview s)(''k'' \<mapsto> (AObj demo_list, None))" by auto
  then show ?thesis using a s(4) m by (intro exI [of _ q] exI [of _ a] exI [of _ s] exI [of _ s'] exI [of _ c']) (simp add: args_are_def)
qed


end
