(* ===== verification/Spec2Isabelle.thy ===== *)
theory Spec2Isabelle
  imports SdsText Content Dict Request HttpUrl H3 Serve
begin

text \<open>
  Verification of the blog server of this repository: Redis 3.2.5 with an HTTP front end that serves
  pages rendered from Markdown files. All paths below are under \<open>src/redis-3.2.5\<close>.

  \<^bold>\<open>The program.\<close> At start the server reads the files of a content directory, compiles each through a
  layout template (\<open>deps/blogd/content.c\<close>, with the regular expressions of \<open>deps/blogd/regx.c\<close> and the
  text helpers of \<open>deps/blogd/helper.c\<close>) and stores the pages under keys of its own keyspace by calling
  its own commands. A request is answered by looking a key up and writing the reply to the client's
  output buffer. Everything is built on the dynamic strings of \<open>src/sds.c\<close>, the number conversions of
  \<open>src/util.c\<close>, the objects of \<open>src/object.c\<close>, the dictionary of \<open>src/dict.c\<close> and the reply functions of
  \<open>src/networking.c\<close>.

  \<^bold>\<open>Conventions\<close> (theory \<open>Prelude\<close>). A function that can commit an error the C language does not define
  returns a value of type \<open>'a res\<close>, whose left side is a fault: an access outside a block, a null
  pointer, a failed assertion, an overflow of a signed integer, a read of memory nothing initialised,
  a division by zero. Blocks of memory are lists of characters with checked reads and writes; what
  \<open>malloc\<close> and \<open>realloc\<close> leave in fresh bytes is a parameter \<open>junk\<close>, so a theorem that holds for every
  \<open>junk\<close> never depends on it. Signed arithmetic that may overflow is checked (\<open>ck_int32\<close>, \<open>ck_int64\<close>), unsigned
  arithmetic wraps. A C string is a list of characters without the terminating zero.

  \<^bold>\<open>Theories.\<close>

  \<^item> \<open>Util\<close>: \<open>digits10\<close>, \<open>ll2string\<close>, \<open>string2ll\<close>, \<open>string2l\<close>, \<open>memtoll\<close> of \<open>src/util.c\<close>. The parser accepts
    exactly the canonical decimal texts of 64-bit integers; the printer stays in its buffer and is read
    back by the parser.
  \<^item> \<open>Sds\<close>, \<open>SdsText\<close>: the strings of \<open>src/sds.c\<close>: header types, growth of the block, appending, trimming,
    ranges, formatting, splitting, quoting and joining. The invariant \<open>sds_ok\<close> relates the header to the
    block; every operation keeps it and stays inside the block. The locale \<open>append_buffer\<close> states what an
    append operation promises and is interpreted on \<open>sdscatlen\<close>.
  \<^item> \<open>Helper\<close>: \<open>deps/blogd/helper.c\<close>. Text replacement agrees with a reference definition.
  \<^item> \<open>Regx\<close>: \<open>deps/blogd/regx.c\<close> over the PCRE library, which is a parameter with the documented contract
    \<open>pcre_ok\<close>. The text of every group, and the overrun of the result block.
  \<^item> \<open>Content\<close>: \<open>deps/blogd/content.c\<close>. The compiled page; the renderer of Markdown is a parameter.
  \<^item> \<open>Object\<close>: string objects of \<open>src/object.c\<close>: encodings and reference counts. Changing the encoding
    keeps the text; comparisons depend on the texts.
  \<^item> \<open>Reply\<close>: the output side of \<open>src/networking.c\<close>: the static buffer, the list of reply objects, the
    \<open>addReply\<close> functions, the output limits, \<open>writeToClient\<close>. The invariant \<open>out_ok\<close>; \<open>out_bytes\<close> is the
    output still to send. Each reply function appends its text to it and each write removes a prefix.
    \<open>writeToClient\<close> is run on a list of results of \<open>write\<close>, one for each call.
  \<^item> \<open>Hiredis\<close>: \<open>redisFormatCommandArgv\<close> of \<open>deps/hiredis/hiredis.c\<close>, which writes a command in the
    multi-bulk protocol: exactly the protocol text, in a block of exactly its size.
  \<^item> \<open>Request\<close>: the input side of \<open>src/networking.c\<close>: \<open>readQueryFromClient\<close>, \<open>processInputBuffer\<close>,
    \<open>processInlineBuffer\<close>, \<open>processMultibulkBuffer\<close>. What \<open>read\<close> delivers is a list of inputs and the
    execution of a command is a parameter. Commands are executed in order, once each, however the
    network cuts them. The locale \<open>command_server\<close> states what the input side needs of the execution of
    commands: that it leaves the input of the client alone and is ready for the commands still to come.
  \<^item> \<open>H3\<close>: the parser of request lines and header fields of \<open>deps/h3\<close>; a round trip for well-formed
    requests and the requests that make it leave its text.
  \<^item> \<open>HttpUrl\<close>: \<open>http_parser_parse_url\<close> of \<open>deps/http-parser/http_parser.c\<close> with its two state machines;
    every component lies inside the URL.
  \<^item> \<open>Store\<close>: the interface of a key-value store, the locale \<open>kv_store\<close>, and the sequences of its
    operations on a map (\<open>kv_spec\<close>) and on an implementation (\<open>kv_run\<close>).
  \<^item> \<open>Dict\<close>: \<open>src/dict.c\<close>: the two tables, resizing, incremental rehashing, lookup, insertion,
    replacement, deletion and iteration, for any hash function and key type. The invariant \<open>dict_ok\<close>;
    an interpretation of \<open>kv_store\<close>, hence the refinement of a map. Chains are lists, the first entry of
    a bucket first. The invariant needs fewer than \<open>2 ^ 62 - 1\<close> entries, so that doubling the size does
    not wrap.
  \<^item> \<open>Db\<close>: the keyspace of \<open>src/db.c\<close> over two dictionaries, the values and the expire times. The invariant
    \<open>db_ok\<close>: both dictionaries are well formed, only existing keys expire, every value has an encoding of its
    type. \<open>view\<close> is the keyspace without the keys whose time has passed; lookups leave it alone. Calls that only
    inform other parts of the server are noted in order in the field \<open>notices\<close>.
  \<^item> \<open>TString\<close>, \<open>KeyCmd\<close>: the commands of \<open>src/t_string.c\<close> and the key commands of \<open>src/db.c\<close>, each a function of the
    server and the client as in the code. \<open>TStringOk\<close> and \<open>KeyCmdOk\<close> prove each against a specification on
    \<open>tview\<close>, the map from keys to texts (or other objects) and expire times: the map it leaves, the reply it queues,
    the number of changes it counts.
  \<^item> \<open>Command\<close>: the command table, its population and lookup, \<open>processCommand\<close> with its guards and \<open>call\<close> of
    \<open>src/server.c\<close>. Configuration, memory eviction, cluster redirection and the commands outside the model are
    fields of the record \<open>policy\<close>. \<open>CommandOk\<close> shows that the table populates, that each modelled command is found
    under its name, and that on a server of its own \<open>processCommand\<close> runs it.
  \<^item> \<open>Serve\<close>: interprets \<open>command_server\<close> on the modelled execution of commands: bytes in, replies out, and the
    keyspace as the abstract machine \<open>kruns\<close> says.

  \<^bold>\<open>Bounds.\<close> Loops are total functions. \<open>rehash_loop\<close> counts down the number of buckets the code was asked to
  move; \<open>dict_walk\<close> has a bound on its rounds and is shown to need one more than there are entries;
  \<open>rehash_steps\<close> is shown to finish after as many steps as there are buckets, and one more. The input loop runs
  at most \<open>n\<close> commands of a read and needs one round more than there are commands. Commands are proved for
  a keyspace of fewer than \<open>2 ^ 62 - 1\<close> keys, strings of at most 512 MB and request texts of at most 48 KB, a clock that
  does not move while a batch of commands is read, and a server that is no replica, runs no script, is not
  loading and has no memory limit.

  \<^bold>\<open>Not modelled.\<close> The event loop and system calls (their results are inputs), the allocator (its
  contract is in the memory model), the Markdown renderer and PCRE (parameters), the parts of Redis the
  blog does not reach: persistence, replication, clustering, scripting, the other data types.
\<close>

end
